(* ===== verification/Prelude.thy ===== *)
theory Prelude
  imports Main "HOL-Library.AList" "HOL-Library.Monad_Syntax" "HOL-Library.Word"
    "HOL-Library.Product_Lexorder" "HOL-Library.List_Lexorder"
    "HOL-Library.Code_Target_Nat"
begin

text \<open>
  The vocabulary shared by every component theory.

  \<^item> Machine integers and clocks. A fixed-width integer of the source whose wrap-around the code
    uses is a word; \<open>usize\<close> lengths and counters that the code only compares are \<open>nat\<close>. A
    \<open>std::time::Instant\<close> and a \<open>Duration\<close> are numbers of nanoseconds, so
    \<open>checked_duration_since(..).unwrap_or_default()\<close> is truncated subtraction.
  \<^item> Panics. An operation that can panic (\<open>unwrap\<close>, \<open>expect\<close>, indexing) returns an option,
    \<open>None\<close> being the panic; \<open>ok m P\<close> says that \<open>m\<close> does not panic and that its result satisfies
    \<open>P\<close>, and its rules form a small weakest-precondition calculus.
  \<^item> Containers of the standard library. A hash map is an association list with distinct keys, so
    that its length is the map's \<open>len()\<close> and its order is an arbitrary iteration order; a
    \<open>BTreeMap\<close> is an association list strictly sorted by key; a \<open>BTreeSet\<close> is a strictly sorted
    list; \<open>Vec\<close> and \<open>VecDeque\<close> are lists.
  \<^item> The locale \<open>guarded_machine\<close>: a step function that may panic together with an invariant that
    every step keeps; a run over any sequence of events then never panics.
  \<^item> The locale \<open>budgeted_machine\<close>: the same for machines that use up a bounded resource.
\<close>

subsection \<open>Scalars\<close>

type_synonym u8 = "8 word"
type_synonym u16 = "16 word"
type_synonym u32 = "32 word"
type_synonym u64 = "64 word"
type_synonym bytes = "u8 list"
type_synonym instant = nat
type_synonym duration = nat

abbreviation nanos_per_sec :: nat where
  "nanos_per_sec \<equiv> 1000000000"

abbreviation secs :: "nat \<Rightarrow> duration" where
  "secs n \<equiv> n * nanos_per_sec"

abbreviation millis :: "nat \<Rightarrow> duration" where
  "millis n \<equiv> n * 1000000"

definition div_ceil :: "nat \<Rightarrow> nat \<Rightarrow> nat" where
  "div_ceil a b = a div b + (if a mod b = 0 then 0 else 1)"

lemma div_ceil_bounds:
  assumes "0 < b"
  shows "a \<le> b * div_ceil a b" and "b * div_ceil a b < a + b"
proof -
  define q r where "q = a div b" and "r = a mod b"
  have a: "a = b * q + r" and r: "r < b" using assms by (simp_all add: q_def r_def)
  have c: "div_ceil a b = q + (if r = 0 then 0 else 1)"
    by (simp add: div_ceil_def q_def r_def)
  show "a \<le> b * div_ceil a b" and "b * div_ceil a b < a + b"
    unfolding c using a r by (cases "r = 0"; simp)+
qed

definition sat_add64 :: "nat \<Rightarrow> nat \<Rightarrow> nat" where
  "sat_add64 a b = min (a + b) (2 ^ 64 - 1)"

definition clamp :: "nat \<Rightarrow> nat \<Rightarrow> nat \<Rightarrow> nat" where
  "clamp lo hi x = (if x < lo then lo else if hi < x then hi else x)"

lemma clamp_bounds: "lo \<le> hi \<Longrightarrow> lo \<le> clamp lo hi x \<and> clamp lo hi x \<le> hi"
  by (auto simp: clamp_def)

subsection \<open>Computations that may panic\<close>

definition ok :: "'a option \<Rightarrow> ('a \<Rightarrow> bool) \<Rightarrow> bool" where
  "ok m P = (case m of None \<Rightarrow> False | Some x \<Rightarrow> P x)"

named_theorems ok_specs \<open>total-correctness specifications of operations that may panic\<close>

lemma ok_Some [simp]: "ok (Some x) P = P x"
  by (simp add: ok_def)

lemma ok_None [simp]: "\<not> ok None P"
  by (simp add: ok_def)

lemma ok_bind [simp]: "ok (Option.bind m f) P = ok m (\<lambda>x. ok (f x) P)"
  by (cases m) simp_all

lemma ok_mono: "ok m P \<Longrightarrow> (\<And>x. P x \<Longrightarrow> Q x) \<Longrightarrow> ok m Q"
  by (cases m) simp_all

lemma ok_conjI: "ok m P \<Longrightarrow> ok m Q \<Longrightarrow> ok m (\<lambda>x. P x \<and> Q x)"
  by (cases m) simp_all

lemma ok_iff: "ok m P \<longleftrightarrow> (\<exists>x. m = Some x \<and> P x)"
  by (cases m) simp_all

lemma ok_map_option [simp]: "ok (map_option f m) P = ok m (\<lambda>x. P (f x))"
  by (cases m) simp_all

lemma ok_if [simp]: "ok (if b then m else n) P = (if b then ok m P else ok n P)"
  by simp

lemma ok_case_option:
  "ok (case x of None \<Rightarrow> m | Some y \<Rightarrow> f y) P =
     (case x of None \<Rightarrow> ok m P | Some y \<Rightarrow> ok (f y) P)"
  by (cases x) simp_all

lemma ok_case_prod: "ok (case p of (a, b) \<Rightarrow> f a b) P = (case p of (a, b) \<Rightarrow> ok (f a b) P)"
  by (cases p) simp

subsection \<open>Hash maps\<close>

type_synonym ('k, 'v) hmap = "('k \<times> 'v) list"

abbreviation hget :: "('k, 'v) hmap \<Rightarrow> 'k \<Rightarrow> 'v option" where
  "hget \<equiv> map_of"

abbreviation hput :: "'k \<Rightarrow> 'v \<Rightarrow> ('k, 'v) hmap \<Rightarrow> ('k, 'v) hmap" where
  "hput \<equiv> AList.update"

abbreviation hdel :: "'k \<Rightarrow> ('k, 'v) hmap \<Rightarrow> ('k, 'v) hmap" where
  "hdel \<equiv> AList.delete"

definition hwf :: "('k, 'v) hmap \<Rightarrow> bool" where
  "hwf m = distinct (map fst m)"

lemma hwf_Nil [simp]: "hwf []"
  by (simp add: hwf_def)

lemma hwf_hput [simp]: "hwf m \<Longrightarrow> hwf (hput k v m)"
  by (simp add: hwf_def distinct_update)

lemma hwf_hdel [simp]: "hwf m \<Longrightarrow> hwf (hdel k m)"
  by (simp add: hwf_def distinct_delete)

lemma hget_hput [simp]: "hget (hput k v m) = (hget m)(k \<mapsto> v)"
  by (rule update_conv')

lemma hget_hdel [simp]: "hget (hdel k m) = (hget m)(k := None)"
  by (rule delete_conv')

lemma hdel_filter: "hdel k m = filter (\<lambda>p. fst p \<noteq> k) m"
  unfolding AList.delete_eq by (rule filter_cong) auto

lemma hput_fresh: "hget m k = None \<Longrightarrow> hput k v m = m @ [(k, v)]"
  by (induction m) (auto split: if_splits)

lemma hdel_fresh [simp]: "hget m k = None \<Longrightarrow> hdel k m = m"
  by (simp add: delete_id map_of_eq_None_iff)

lemma hget_in_set: "hwf m \<Longrightarrow> hget m k = Some v \<longleftrightarrow> (k, v) \<in> set m"
  by (simp add: hwf_def)

lemma hget_in_setD: "hget m k = Some v \<Longrightarrow> (k, v) \<in> set m"
  by (rule map_of_SomeD)

lemma length_hput: "length (hput k v m) = (if hget m k = None then Suc (length m) else length m)"
  by (induction m) auto

lemma length_hdel_le: "length (hdel k m) \<le> length m"
  by (simp add: hdel_filter)

lemma length_filter_hdel:
  assumes "hwf m" and "hget m k = Some v"
  shows "length (filter P m) = length (filter P (hdel k m)) + (if P (k, v) then 1 else 0)"
  using assms
proof (induction m)
  case (Cons p m)
  obtain a b where p: "p = (a, b)" by fastforce
  show ?case
  proof (cases "a = k")
    case True
    with Cons.prems p have "hget m k = None"
      by (simp add: hwf_def map_of_eq_None_iff)
    then have "hdel k m = m" by (simp add: delete_id map_of_eq_None_iff)
    with True Cons.prems p show ?thesis by (simp add: AList.delete_eq)
  next
    case False
    with Cons p show ?thesis by (simp add: hwf_def AList.delete_eq)
  qed
qed simp

lemma length_hdel: "hwf m \<Longrightarrow> hget m k = Some v \<Longrightarrow> length m = Suc (length (hdel k m))"
  using length_filter_hdel [of m k v "\<lambda>_. True"] by simp

lemma length_hdel_eq:
  "hwf m \<Longrightarrow> length (hdel k m) = length m - (if hget m k = None then 0 else 1)"
  by (cases "hget m k") (simp_all add: length_hdel)

lemma hput_same_key_filter:
  assumes "hwf m" and "hget m k = Some v" and "P (k, v) = P (k, w)"
  shows "length (filter P (hput k w m)) = length (filter P m)"
  using assms
proof (induction m)
  case (Cons p m)
  obtain a b where p: "p = (a, b)" by fastforce
  show ?case
  proof (cases "a = k")
    case True
    with Cons.prems p show ?thesis by (simp add: hwf_def)
  next
    case False
    with Cons p show ?thesis by (simp add: hwf_def)
  qed
qed simp

lemma set_hput_fresh: "hget m k = None \<Longrightarrow> set (hput k v m) = insert (k, v) (set m)"
  by (simp add: hput_fresh)

lemma set_hdel: "set (hdel k m) = {p \<in> set m. fst p \<noteq> k}"
  by (auto simp: hdel_filter)

lemma keys_hput: "fst ` set (hput k v m) = insert k (fst ` set m)"
  by (induction m) auto

lemma hget_None_keys: "hget m k = None \<longleftrightarrow> k \<notin> fst ` set m"
  by (rule map_of_eq_None_iff)

text \<open>A map whose key set is contained in another's is no larger.\<close>

lemma hwf_length_le:
  assumes "hwf m" and "fst ` set m \<subseteq> fst ` set n"
  shows "length m \<le> length n"
proof -
  have "length m = card (fst ` set m)"
    using assms(1) by (metis distinct_card hwf_def length_map list.set_map)
  also have "\<dots> \<le> card (fst ` set n)"
    using assms(2) by (intro card_mono) auto
  also have "\<dots> \<le> length n"
    by (metis card_length length_map list.set_map)
  finally show ?thesis .
qed

lemma hwf_length_card: "hwf m \<Longrightarrow> length m = card (fst ` set m)"
  by (metis distinct_card hwf_def length_map list.set_map)

subsection \<open>Ordered maps and sets\<close>

type_synonym ('k, 'v) bmap = "('k \<times> 'v) list"

definition bwf :: "('k::linorder, 'v) bmap \<Rightarrow> bool" where
  "bwf m = sorted_wrt (<) (map fst m)"

fun bput :: "'k::linorder \<Rightarrow> 'v \<Rightarrow> ('k, 'v) bmap \<Rightarrow> ('k, 'v) bmap" where
  "bput k v [] = [(k, v)]"
| "bput k v (p # m) =
     (if k < fst p then (k, v) # p # m
      else if k = fst p then (k, v) # m
      else p # bput k v m)"

definition bdel :: "'k::linorder \<Rightarrow> ('k, 'v) bmap \<Rightarrow> ('k, 'v) bmap" where
  "bdel k m = filter (\<lambda>p. fst p \<noteq> k) m"

definition bfirst :: "('k, 'v) bmap \<Rightarrow> ('k \<times> 'v) option" where
  "bfirst m = (case m of [] \<Rightarrow> None | p # _ \<Rightarrow> Some p)"

definition blast_entry :: "('k, 'v) bmap \<Rightarrow> ('k \<times> 'v) option" where
  "blast_entry m = (if m = [] then None else Some (last m))"

lemma bwf_Nil [simp]: "bwf []"
  by (simp add: bwf_def)

lemma keys_bput: "fst ` set (bput k v m) = insert k (fst ` set m)"
  by (induction m) auto

lemma bwf_bput [simp]: "bwf m \<Longrightarrow> bwf (bput k v m)"
proof (induction m)
  case (Cons p m)
  then have IH: "bwf (bput k v m)" by (simp add: bwf_def)
  have keys: "set (map fst (bput k v m)) = insert k (fst ` set m)"
    using keys_bput [of k v m] by simp
  show ?case using Cons.prems IH keys by (auto simp: bwf_def)
qed (simp add: bwf_def)

lemma bwf_bdel [simp]: "bwf m \<Longrightarrow> bwf (bdel k m)"
  by (induction m) (auto simp: bwf_def bdel_def)

lemma bwf_distinct: "bwf m \<Longrightarrow> distinct (map fst m)"
  by (simp add: bwf_def strict_sorted_iff)

lemma bwf_hwf: "bwf m \<Longrightarrow> hwf m"
  by (simp add: bwf_distinct hwf_def)

lemma hget_bput [simp]: "bwf m \<Longrightarrow> hget (bput k v m) = (hget m)(k \<mapsto> v)"
proof (induction m)
  case (Cons p m)
  have "bwf m" using Cons.prems by (simp add: bwf_def)
  then have "hget (bput k v m) = (hget m)(k \<mapsto> v)" by (rule Cons.IH)
  with Cons.prems show ?case
    by (cases p) (auto simp: bwf_def fun_upd_def fun_eq_iff)
qed simp

lemma hget_bdel [simp]: "hget (bdel k m) = (hget m)(k := None)"
  by (induction m) (auto simp: bdel_def fun_eq_iff)

lemma set_bdel: "set (bdel k m) = {p \<in> set m. fst p \<noteq> k}"
  by (auto simp: bdel_def)

lemma set_bput_fresh: "k \<notin> fst ` set m \<Longrightarrow> set (bput k v m) = insert (k, v) (set m)"
  by (induction m) auto

lemma length_bput_fresh: "k \<notin> fst ` set m \<Longrightarrow> length (bput k v m) = Suc (length m)"
  by (induction m) auto

lemma length_bdel_le: "length (bdel k m) \<le> length m"
  by (simp add: bdel_def)

lemma bdel_absent: "k \<notin> fst ` set m \<Longrightarrow> bdel k m = m"
  by (induction m) (auto simp: bdel_def)

lemma length_bdel:
  assumes "bwf m" and "k \<in> fst ` set m"
  shows "length m = Suc (length (bdel k m))"
  using assms
proof (induction m)
  case (Cons p m)
  show ?case
  proof (cases "fst p = k")
    case True
    with Cons.prems have "k \<notin> fst ` set m" by (auto simp: bwf_def)
    then have "bdel k m = m" by (rule bdel_absent)
    with True show ?thesis by (simp add: bdel_def)
  next
    case False
    with Cons show ?thesis by (auto simp: bwf_def bdel_def)
  qed
qed simp

lemma bdel_first: "bwf (p # m) \<Longrightarrow> bdel (fst p) (p # m) = m"
proof -
  assume wf: "bwf (p # m)"
  then have "fst p \<notin> fst ` set m" by (auto simp: bwf_def)
  then have "bdel (fst p) m = m" by (rule bdel_absent)
  then show ?thesis by (simp add: bdel_def)
qed

lemma bwf_first_le: "bwf (p # m) \<Longrightarrow> q \<in> set m \<Longrightarrow> fst p < fst q"
  by (auto simp: bwf_def)

definition swf :: "'a::linorder list \<Rightarrow> bool" where
  "swf xs = sorted_wrt (<) xs"

definition sput :: "'a::linorder \<Rightarrow> 'a list \<Rightarrow> 'a list" where
  "sput x xs = insort_insert x xs"

definition sdel :: "'a::linorder \<Rightarrow> 'a list \<Rightarrow> 'a list" where
  "sdel x xs = filter (\<lambda>y. y \<noteq> x) xs"

lemma swf_Nil [simp]: "swf []"
  by (simp add: swf_def)

lemma swf_iff: "swf xs \<longleftrightarrow> sorted xs \<and> distinct xs"
  by (simp add: swf_def strict_sorted_iff)

lemma set_sput [simp]: "set (sput x xs) = insert x (set xs)"
  by (simp add: sput_def set_insort_insert)

lemma swf_sput [simp]: "swf xs \<Longrightarrow> swf (sput x xs)"
  by (simp add: sput_def swf_iff sorted_insort_insert distinct_insort_insert)

lemma set_sdel [simp]: "set (sdel x xs) = set xs - {x}"
  by (auto simp: sdel_def)

lemma swf_sdel [simp]: "swf xs \<Longrightarrow> swf (sdel x xs)"
  by (simp add: sdel_def swf_iff sorted_wrt_filter)

lemma swf_first_less: "swf (x # xs) \<Longrightarrow> y \<in> set xs \<Longrightarrow> x < y"
  by (auto simp: swf_def)

lemma swf_length_card: "swf xs \<Longrightarrow> length xs = card (set xs)"
  by (simp add: swf_iff distinct_card)

lemma sdel_first: "swf (x # xs) \<Longrightarrow> sdel x (x # xs) = xs"
  by (auto simp: sdel_def swf_def intro!: filter_True)

subsection \<open>Queues kept in deadline order\<close>

text \<open>
  Several components pair a map with a FIFO of deadlines, pop the due prefix and stop at the first
  entry that is not due. \<open>dropWhile\<close> is that loop's effect on the FIFO; on a queue sorted by
  deadline nothing due is left behind.
\<close>

lemma dropWhile_due_sorted:
  assumes "sorted (map fst q)" and "p \<in> set (dropWhile (\<lambda>p. fst p \<le> now) q)"
  shows "now < fst (p :: nat \<times> 'a)"
  using assms
proof (induction q)
  case (Cons x q)
  show ?case
  proof (cases "fst x \<le> now")
    case True
    with Cons show ?thesis by simp
  next
    case False
    with Cons.prems show ?thesis by auto
  qed
qed simp

lemma sorted_map_fst_append:
  "sorted (map fst q) \<Longrightarrow> (\<And>p. p \<in> set q \<Longrightarrow> fst p \<le> t) \<Longrightarrow> sorted (map fst (q @ [(t, x)]))"
  by (auto simp: sorted_append)

subsection \<open>Lists\<close>

definition swap_remove :: "nat \<Rightarrow> 'a list \<Rightarrow> 'a list" where
  "swap_remove i xs = butlast (xs[i := last xs])"

lemma length_swap_remove [simp]: "length (swap_remove i xs) = length xs - 1"
  by (simp add: swap_remove_def)

lemma nth_swap_remove:
  assumes "i < length xs" and "j < length xs - 1"
  shows "swap_remove i xs ! j = (if j = i then last xs else xs ! j)"
proof -
  have "swap_remove i xs ! j = (xs[i := last xs]) ! j"
    using assms(2) by (simp add: swap_remove_def nth_butlast)
  with assms show ?thesis by (auto simp: nth_list_update)
qed

lemma set_swap_remove:
  assumes "distinct xs" and "i < length xs"
  shows "set (swap_remove i xs) = set xs - {xs ! i}"
proof (intro set_eqI iffI)
  let ?ys = "swap_remove i xs"
  fix x
  assume "x \<in> set ?ys"
  then obtain j where j: "j < length xs - 1" "x = ?ys ! j" by (auto simp: in_set_conv_nth)
  define k where "k = (if j = i then length xs - 1 else j)"
  have k: "k < length xs" "k \<noteq> i" using j(1) by (auto simp: k_def)
  have "last xs = xs ! (length xs - 1)" using assms(2) by (intro last_conv_nth) auto
  then have "x = xs ! k" using j assms(2) by (simp add: k_def nth_swap_remove)
  then show "x \<in> set xs - {xs ! i}" using k assms by (simp add: nth_eq_iff_index_eq)
next
  let ?ys = "swap_remove i xs"
  fix x
  assume "x \<in> set xs - {xs ! i}"
  then obtain k where k: "k < length xs" "x = xs ! k" "k \<noteq> i" by (auto simp: in_set_conv_nth)
  define j where "j = (if k = length xs - 1 then i else k)"
  have j: "j < length xs - 1" using k assms(2) by (auto simp: j_def)
  have "last xs = xs ! (length xs - 1)" using assms(2) by (intro last_conv_nth) auto
  then have "?ys ! j = x" using j k assms(2) by (auto simp: j_def nth_swap_remove)
  moreover have "?ys ! j \<in> set ?ys" using j by (intro nth_mem) simp
  ultimately show "x \<in> set ?ys" by simp
qed

subsection \<open>Machines that may panic\<close>

locale guarded_machine =
  fixes step :: "'s \<Rightarrow> 'e \<Rightarrow> 's option"
    and inv :: "'s \<Rightarrow> bool"
  assumes step_ok: "inv s \<Longrightarrow> ok (step s e) inv"
begin

fun run :: "'s \<Rightarrow> 'e list \<Rightarrow> 's option" where
  "run s [] = Some s"
| "run s (e # es) = Option.bind (step s e) (\<lambda>s'. run s' es)"

lemma run_ok: "inv s \<Longrightarrow> ok (run s es) inv"
proof (induction es arbitrary: s)
  case (Cons e es)
  have "ok (step s e) inv" using Cons.prems by (rule step_ok)
  then show ?case by (auto elim!: ok_mono intro: Cons.IH)
qed simp

lemma run_append: "run s (es @ fs) = Option.bind (run s es) (\<lambda>s'. run s' fs)"
proof (induction es arbitrary: s)
  case (Cons e es)
  then show ?case by (cases "step s e") simp_all
qed simp

end

text \<open>
  A machine with a resource that runs out: each step uses at most \<open>cost\<close> of it, and the invariant is kept as
  long as some is left (the 64-bit sequence numbers of a queue, for example).
\<close>

locale budgeted_machine =
  fixes step :: "'s \<Rightarrow> 'e \<Rightarrow> 's option"
    and inv :: "'s \<Rightarrow> bool"
    and used :: "'s \<Rightarrow> nat"
    and cost :: nat
    and limit :: nat
  assumes step_within: "inv s \<Longrightarrow> used s + cost < limit \<Longrightarrow> ok (step s e) (\<lambda>s'. inv s' \<and> used s' \<le> used s + cost)"
begin

fun run :: "'s \<Rightarrow> 'e list \<Rightarrow> 's option" where
  "run s [] = Some s"
| "run s (e # es) = Option.bind (step s e) (\<lambda>s'. run s' es)"

lemma run_within:
  assumes "inv s" and "used s + cost * length es < limit"
  shows "ok (run s es) (\<lambda>s'. inv s' \<and> used s' \<le> used s + cost * length es)"
  using assms
proof (induction es arbitrary: s)
  case (Cons e es)
  have "ok (step s e) (\<lambda>s'. inv s' \<and> used s' \<le> used s + cost)"
    using Cons.prems by (intro step_within) simp_all
  then obtain s' where s': "step s e = Some s'" "inv s'" "used s' \<le> used s + cost" by (auto simp: ok_iff)
  have "ok (run s' es) (\<lambda>s''. inv s'' \<and> used s'' \<le> used s' + cost * length es)"
    using Cons.prems(2) s' by (intro Cons.IH) simp_all
  then show ?case using s' by (auto elim!: ok_mono)
qed simp

end

end
