(* ===== verification/Net_Types.thy ===== *)
theory Net_Types
  imports Prelude
begin

text \<open>
  Addresses and nodes: the socket addresses of the standard library as the program uses them,
  \<open>NetMode\<close> and \<open>NodeTuple\<close> of \<open>src/src/types.rs\<close>, the address filter of \<open>src/src/addr.rs\<close> and the
  subnet key of \<open>src/src/node_pool.rs\<close>.

  An IPv4 or IPv6 address is its list of octets (four or sixteen of them, \<open>addr_wf\<close>); an IPv6
  socket address also carries flow information and a scope. \<open>socket_addr\<close> is an instance of
  \<open>linorder\<close> with the derived order of the source: IPv4 before IPv6, then octets, then port.
  The main result is that the hand-written IPv4 filter is exactly a table of address blocks.
\<close>

unbundle bit_operations_syntax

datatype socket_addr =
    SockV4 (sock_octets: "u8 list") (sock_port: u16)
  | SockV6 (sock_octets: "u8 list") (sock_port: u16) (sock_flowinfo: u32) (sock_scope: u32)

fun addr_wf :: "socket_addr \<Rightarrow> bool" where
  "addr_wf (SockV4 os p) = (length os = 4)"
| "addr_wf (SockV6 os p f s) = (length os = 16)"

fun is_ipv4 :: "socket_addr \<Rightarrow> bool" where
  "is_ipv4 (SockV4 os p) = True"
| "is_ipv4 (SockV6 os p f s) = False"

fun is_ipv6 :: "socket_addr \<Rightarrow> bool" where
  "is_ipv6 (SockV4 os p) = False"
| "is_ipv6 (SockV6 os p f s) = True"

subsection \<open>The order on socket addresses\<close>

fun sock_key :: "socket_addr \<Rightarrow> bool \<times> u8 list \<times> u16 \<times> u32 \<times> u32" where
  "sock_key (SockV4 os p) = (False, os, p, 0, 0)"
| "sock_key (SockV6 os p f s) = (True, os, p, f, s)"

lemma sock_key_inject [simp]: "sock_key a = sock_key b \<longleftrightarrow> a = b"
  by (cases a; cases b) auto

instantiation socket_addr :: linorder
begin

definition less_eq_socket_addr :: "socket_addr \<Rightarrow> socket_addr \<Rightarrow> bool" where
  "less_eq_socket_addr a b = (sock_key a \<le> sock_key b)"

definition less_socket_addr :: "socket_addr \<Rightarrow> socket_addr \<Rightarrow> bool" where
  "less_socket_addr a b = (sock_key a < sock_key b)"

instance
proof
  fix a b c :: socket_addr
  show "(a < b) = (a \<le> b \<and> \<not> b \<le> a)"
    unfolding less_eq_socket_addr_def less_socket_addr_def by (rule less_le_not_le)
  show "a \<le> a" unfolding less_eq_socket_addr_def by (rule order_refl)
  show "a \<le> b \<Longrightarrow> b \<le> c \<Longrightarrow> a \<le> c" unfolding less_eq_socket_addr_def by (rule order_trans)
  show "a \<le> b \<Longrightarrow> b \<le> a \<Longrightarrow> a = b"
    unfolding less_eq_socket_addr_def using order_antisym sock_key_inject by blast
  show "a \<le> b \<or> b \<le> a" unfolding less_eq_socket_addr_def by (rule linear)
qed

end

subsection \<open>Nodes and network modes\<close>

record node_tuple =
  nt_id :: bytes
  nt_addr :: socket_addr

datatype net_mode = Ipv4Only | Ipv6Only | DualStack

fun addr_allowed_by_netmode :: "socket_addr \<Rightarrow> net_mode \<Rightarrow> bool" where
  "addr_allowed_by_netmode addr Ipv4Only = is_ipv4 addr"
| "addr_allowed_by_netmode addr Ipv6Only = is_ipv6 addr"
| "addr_allowed_by_netmode addr DualStack = True"

subsection \<open>The address filter\<close>

text \<open>The predicates of \<open>std::net::Ipv4Addr\<close> and \<open>Ipv6Addr\<close> that the filter calls.\<close>

definition v4_is_private :: "u8 list \<Rightarrow> bool" where
  "v4_is_private os = (os ! 0 = 10 \<or> os ! 0 = 172 \<and> 16 \<le> os ! 1 \<and> os ! 1 \<le> 31
                       \<or> os ! 0 = 192 \<and> os ! 1 = 168)"

definition v4_is_documentation :: "u8 list \<Rightarrow> bool" where
  "v4_is_documentation os =
     (take 3 os = [192, 0, 2] \<or> take 3 os = [198, 51, 100] \<or> take 3 os = [203, 0, 113])"

definition is_valid_ipv4_node_addr :: "u8 list \<Rightarrow> bool" where
  "is_valid_ipv4_node_addr os =
     (let is_cgnat = os ! 0 = 100 \<and> os ! 1 AND 0xC0 = 64;
          is_benchmark = os ! 0 = 198 \<and> (os ! 1 = 18 \<or> os ! 1 = 19);
          is_reserved = 240 \<le> os ! 0
      in os \<noteq> [0, 0, 0, 0]
         \<and> os ! 0 \<noteq> 127
         \<and> \<not> v4_is_private os
         \<and> \<not> (os ! 0 = 169 \<and> os ! 1 = 254)
         \<and> \<not> (224 \<le> os ! 0 \<and> os ! 0 \<le> 239)
         \<and> os \<noteq> [255, 255, 255, 255]
         \<and> \<not> v4_is_documentation os
         \<and> \<not> is_cgnat
         \<and> \<not> is_benchmark
         \<and> \<not> is_reserved)"

definition is_valid_ipv6_node_addr :: "u8 list \<Rightarrow> bool" where
  "is_valid_ipv6_node_addr os =
     (let is_unique_local = os ! 0 AND 0xFE = 0xFC;
          is_unicast_link_local = os ! 0 = 0xFE \<and> os ! 1 AND 0xC0 = 0x80;
          is_documentation = os ! 0 = 0x20 \<and> os ! 1 = 0x01 \<and> os ! 2 = 0x0D \<and> os ! 3 = 0xB8
      in os \<noteq> replicate 16 0
         \<and> os \<noteq> replicate 15 0 @ [1]
         \<and> os ! 0 \<noteq> 0xFF
         \<and> \<not> is_unique_local
         \<and> \<not> is_unicast_link_local
         \<and> \<not> is_documentation)"

definition is_valid_node_addr :: "socket_addr \<Rightarrow> bool" where
  "is_valid_node_addr addr =
     (if sock_port addr = 0 then False
      else case addr of
          SockV4 os p \<Rightarrow> is_valid_ipv4_node_addr os
        | SockV6 os p f s \<Rightarrow> is_valid_ipv6_node_addr os)"

subsection \<open>Subnets\<close>

datatype subnet_key = SubnetV4 "u8 list" | SubnetV6 "u8 list"

fun subnet_key_from_addr :: "socket_addr \<Rightarrow> subnet_key" where
  "subnet_key_from_addr (SockV4 os p) = SubnetV4 (take 3 os)"
| "subnet_key_from_addr (SockV6 os p f s) = SubnetV6 (take 8 os)"

subsection \<open>The IPv4 filter as a table of blocks\<close>

text \<open>
  \<open>in_block os (net, n)\<close>: the address lies in the block \<open>net/n\<close>, that is, agrees with \<open>net\<close> on the
  first \<open>n\<close> bits of its 32-bit value.
\<close>

definition v4_value :: "u8 list \<Rightarrow> nat" where
  "v4_value os = foldl (\<lambda>acc b. acc * 256 + unat b) 0 os"

definition in_block :: "u8 list \<Rightarrow> u8 list \<times> nat \<Rightarrow> bool" where
  "in_block os blk = (case blk of (net, n) \<Rightarrow>
     v4_value os div 2 ^ (32 - n) = v4_value net div 2 ^ (32 - n))"

definition special_v4_blocks :: "(u8 list \<times> nat) list" where
  "special_v4_blocks =
     [([0, 0, 0, 0], 32), ([10, 0, 0, 0], 8), ([100, 64, 0, 0], 10), ([127, 0, 0, 0], 8),
      ([169, 254, 0, 0], 16), ([172, 16, 0, 0], 12), ([192, 0, 2, 0], 24), ([192, 168, 0, 0], 16),
      ([198, 18, 0, 0], 15), ([198, 51, 100, 0], 24), ([203, 0, 113, 0], 24), ([224, 0, 0, 0], 4),
      ([240, 0, 0, 0], 4)]"

lemma bit_C0: "n < 8 \<Longrightarrow> bit (0xC0 :: u8) n \<longleftrightarrow> 6 \<le> n"
  by (auto simp: numeral_eq_Suc less_Suc_eq)
lemma mask_top2: "(b :: u8) AND 0xC0 = push_bit 6 (drop_bit 6 b)"
proof (rule bit_word_eqI)
  fix n assume "n < LENGTH(8)"
  then have n: "n < 8" by simp
  show "bit (b AND 0xC0) n = bit (push_bit 6 (drop_bit 6 b)) n"
    unfolding bit_and_iff bit_C0 [OF n] using n by (auto simp: bit_push_bit_iff bit_drop_bit_eq)
qed
lemma unat_push_drop6: "unat (push_bit 6 (drop_bit 6 (b :: u8))) = unat b div 64 * 64"
proof -
  have "unat b < 256" using unsigned_less [of b, where ?'a = nat] by simp
  then have "unat b div 64 * 64 < 256" by linarith
  then show ?thesis
    unfolding unsigned_push_bit_eq unsigned_drop_bit_eq
    by (simp add: drop_bit_eq_div push_bit_eq_mult take_bit_eq_mod)
qed
lemma mask_C0: "(b :: u8) AND 0xC0 = 64 \<longleftrightarrow> unat b div 64 = 1"
  unfolding mask_top2 word_unat_eq_iff unat_push_drop6 by simp

lemma v4_value_quad:
  "v4_value [a, b, c, d] = unat a * 16777216 + unat b * 65536 + unat c * 256 + unat d"
  by (simp add: v4_value_def)

lemma quad_div:
  fixes A B C D :: nat
  assumes "B < 256" and "C < 256" and "D < 256"
  defines "v \<equiv> A * 16777216 + B * 65536 + C * 256 + D"
  shows "v div 16777216 = A" and "v div 65536 = A * 256 + B" and "v div 256 = A * 65536 + B * 256 + C"
    and "v div 1048576 = A * 16 + B div 16" and "v div 4194304 = A * 4 + B div 64"
    and "v div 131072 = A * 128 + B div 2" and "v div 268435456 = A div 16"
proof -
  have c: "v div 256 = A * 65536 + B * 256 + C" unfolding v_def using assms(3) by simp
  have b: "v div 65536 = A * 256 + B"
  proof -
    have "v div 65536 = (v div 256) div 256" by (simp flip: div_mult2_eq)
    then show ?thesis unfolding c using assms(2) by simp
  qed
  have split: "v div (65536 * n) = (A * 256 + B) div n" for n by (simp only: div_mult2_eq b)
  show "v div 256 = A * 65536 + B * 256 + C" "v div 65536 = A * 256 + B" by (fact c b)+
  show "v div 16777216 = A" using split [of 256] assms(1) by simp
  show "v div 1048576 = A * 16 + B div 16" using split [of 16] by simp
  show "v div 4194304 = A * 4 + B div 64" using split [of 64] by simp
  show "v div 131072 = A * 128 + B div 2" using split [of 2] by simp
  have "v div 268435456 = (A * 256 + B) div 256 div 16" using split [of 4096] by (simp flip: div_mult2_eq)
  then show "v div 268435456 = A div 16" using assms(1) by simp
qed

lemma u8_unat_less [simp]: "unat (b :: u8) < 256"
  using unsigned_less [of b, where ?'a = nat] by simp

lemma in_block_quad:
  "in_block [a, b, c, d] ([w, x, y, z], n) \<longleftrightarrow>
     (unat a * 16777216 + unat b * 65536 + unat c * 256 + unat d) div 2 ^ (32 - n) =
     (unat w * 16777216 + unat x * 65536 + unat y * 256 + unat z) div 2 ^ (32 - n)"
  by (simp add: in_block_def v4_value_quad)


lemma is_valid_ipv4_quad:
  "is_valid_ipv4_node_addr [a, b, c, d] \<longleftrightarrow>
     (let A = unat a; B = unat b; C = unat c; D = unat d in
      \<not> (A = 0 \<and> B = 0 \<and> C = 0 \<and> D = 0) \<and> A \<noteq> 10 \<and> \<not> (A = 100 \<and> B div 64 = 1) \<and> A \<noteq> 127 \<and>
      \<not> (A = 169 \<and> B = 254) \<and> \<not> (A = 172 \<and> 16 \<le> B \<and> B \<le> 31) \<and>
      \<not> (A = 192 \<and> B = 0 \<and> C = 2) \<and> \<not> (A = 192 \<and> B = 168) \<and>
      \<not> (A = 198 \<and> (B = 18 \<or> B = 19)) \<and> \<not> (A = 198 \<and> B = 51 \<and> C = 100) \<and>
      \<not> (A = 203 \<and> B = 0 \<and> C = 113) \<and> \<not> (224 \<le> A \<and> A \<le> 239) \<and> \<not> 240 \<le> A)"
  (is "_ \<longleftrightarrow> ?rhs")
proof -
  have broadcast: "a = 255 \<Longrightarrow> 240 \<le> a" by simp
  have idx: "[a, b, c, d] ! 0 = a" "[a, b, c, d] ! 1 = b" "take 3 [a, b, c, d] = [a, b, c]"
    by (simp_all add: numeral_3_eq_3)
  have "is_valid_ipv4_node_addr [a, b, c, d] \<longleftrightarrow>
      \<not> (a = 0 \<and> b = 0 \<and> c = 0 \<and> d = 0) \<and> a \<noteq> 10 \<and> \<not> (a = 100 \<and> b AND 0xC0 = 64) \<and> a \<noteq> 127 \<and>
      \<not> (a = 169 \<and> b = 254) \<and> \<not> (a = 172 \<and> 16 \<le> b \<and> b \<le> 31) \<and>
      \<not> (a = 192 \<and> b = 0 \<and> c = 2) \<and> \<not> (a = 192 \<and> b = 168) \<and>
      \<not> (a = 198 \<and> (b = 18 \<or> b = 19)) \<and> \<not> (a = 198 \<and> b = 51 \<and> c = 100) \<and>
      \<not> (a = 203 \<and> b = 0 \<and> c = 113) \<and> \<not> (224 \<le> a \<and> a \<le> 239) \<and> \<not> 240 \<le> a"
    unfolding is_valid_ipv4_node_addr_def v4_is_private_def v4_is_documentation_def Let_def idx
      list.inject simp_thms using broadcast by argo
  also have "\<dots> \<longleftrightarrow> ?rhs"
    unfolding mask_C0 Let_def by (simp add: word_unat_eq_iff word_le_nat_alt)
  finally show ?thesis .
qed

lemma two_digits:
  fixes A A' B B' k :: nat
  assumes "B < k" and "B' < k"
  shows "A * k + B = A' * k + B' \<longleftrightarrow> A = A' \<and> B = B'"
proof
  assume eq: "A * k + B = A' * k + B'"
  have "A = (A * k + B) div k" and "(A' * k + B') div k = A'" using assms by simp_all
  then have "A = A'" by (simp add: eq)
  then show "A = A' \<and> B = B'" using eq by simp
qed simp

lemma div_eq_range:
  fixes n k q :: nat
  assumes "0 < k"
  shows "n div k = q \<longleftrightarrow> q * k \<le> n \<and> n < Suc q * k"
  using less_eq_div_iff_mult_less_eq [OF assms, of q n] div_less_iff_less_mult [OF assms, of n "Suc q"]
  by linarith

lemma block_conditions:
  fixes A B C D :: nat
  assumes "A < 256" and "B < 256" and "C < 256" and "D < 256"
  shows "A * 4 + B div 64 = 401 \<longleftrightarrow> A = 100 \<and> B div 64 = 1"
    and "A * 256 + B = 43518 \<longleftrightarrow> A = 169 \<and> B = 254"
    and "A * 16 + B div 16 = 2753 \<longleftrightarrow> A = 172 \<and> 16 \<le> B \<and> B \<le> 31"
    and "A * 65536 + B * 256 + C = 12582914 \<longleftrightarrow> A = 192 \<and> B = 0 \<and> C = 2"
    and "A * 256 + B = 49320 \<longleftrightarrow> A = 192 \<and> B = 168"
    and "A * 128 + B div 2 = 25353 \<longleftrightarrow> A = 198 \<and> (B = 18 \<or> B = 19)"
    and "A * 65536 + B * 256 + C = 12989284 \<longleftrightarrow> A = 198 \<and> B = 51 \<and> C = 100"
    and "A * 65536 + B * 256 + C = 13303921 \<longleftrightarrow> A = 203 \<and> B = 0 \<and> C = 113"
    and "A div 16 = 14 \<longleftrightarrow> 224 \<le> A \<and> A \<le> 239"
    and "A div 16 = 15 \<longleftrightarrow> 240 \<le> A"
proof -
  have three: "A * 65536 + B * 256 + C = A' * 65536 + B' * 256 + C' \<longleftrightarrow> A = A' \<and> B = B' \<and> C = C'"
    if "B' < 256" "C' < 256" for A' B' C'
    using two_digits [of C 256 C' "A * 256 + B" "A' * 256 + B'"] two_digits [of B 256 B' A A']
      assms that by (simp add: algebra_simps)
  show "A * 4 + B div 64 = 401 \<longleftrightarrow> A = 100 \<and> B div 64 = 1"
    using two_digits [of "B div 64" 4 1 A 100] assms(2) by (simp add: div_less_iff_less_mult)
  show "A * 256 + B = 43518 \<longleftrightarrow> A = 169 \<and> B = 254"
    using two_digits [of B 256 254 A 169] assms(2) by simp
  have "B div 16 = 1 \<longleftrightarrow> 16 \<le> B \<and> B \<le> 31" by (auto simp: div_eq_range)
  then show "A * 16 + B div 16 = 2753 \<longleftrightarrow> A = 172 \<and> 16 \<le> B \<and> B \<le> 31"
    using two_digits [of "B div 16" 16 1 A 172] assms(2) by (simp add: div_less_iff_less_mult)
  show "A * 65536 + B * 256 + C = 12582914 \<longleftrightarrow> A = 192 \<and> B = 0 \<and> C = 2"
    using three [of 0 2 192] by simp
  show "A * 256 + B = 49320 \<longleftrightarrow> A = 192 \<and> B = 168"
    using two_digits [of B 256 168 A 192] assms(2) by simp
  have "B div 2 = 9 \<longleftrightarrow> B = 18 \<or> B = 19" by (auto simp: div_eq_range)
  then show "A * 128 + B div 2 = 25353 \<longleftrightarrow> A = 198 \<and> (B = 18 \<or> B = 19)"
    using two_digits [of "B div 2" 128 9 A 198] assms(2) by (simp add: div_less_iff_less_mult)
  show "A * 65536 + B * 256 + C = 12989284 \<longleftrightarrow> A = 198 \<and> B = 51 \<and> C = 100"
    using three [of 51 100 198] by simp
  show "A * 65536 + B * 256 + C = 13303921 \<longleftrightarrow> A = 203 \<and> B = 0 \<and> C = 113"
    using three [of 0 113 203] by simp
  show "A div 16 = 14 \<longleftrightarrow> 224 \<le> A \<and> A \<le> 239" by (auto simp: div_eq_range)
  show "A div 16 = 15 \<longleftrightarrow> 240 \<le> A" using assms(1) by (auto simp: div_eq_range)
qed

text \<open>
  C10. The IPv4 address filter rejects exactly the addresses of thirteen special-purpose blocks:
  its octet tests (private, loopback, link-local, multicast, broadcast, documentation, shared
  address space, benchmarking, reserved) agree with the table of networks and prefix lengths.
\<close>

theorem ipv4_filter_table:
  assumes "length os = 4"
  shows "is_valid_ipv4_node_addr os \<longleftrightarrow> (\<forall>blk\<in>set special_v4_blocks. \<not> in_block os blk)"
proof -
  obtain a b c d where os: "os = [a, b, c, d]"
    using assms by (auto simp: numeral_eq_Suc length_Suc_conv)
  note div = quad_div [OF u8_unat_less [of b] u8_unat_less [of c] u8_unat_less [of d], of "unat a"]
  note cond = block_conditions [OF u8_unat_less [of a] u8_unat_less [of b] u8_unat_less [of c] u8_unat_less [of d]]
  show ?thesis
    unfolding os special_v4_blocks_def is_valid_ipv4_quad Let_def
    by (simp only: list.set ball_simps in_block_quad) (simp add: div cond)
qed

theorem ipv4_filter_table_witness:
  "is_valid_ipv4_node_addr [8, 8, 8, 8] \<and> \<not> is_valid_ipv4_node_addr [100, 127, 3, 4]"
proof -
  have "\<forall>blk\<in>set special_v4_blocks. \<not> in_block [8, 8, 8, 8] blk" by code_simp
  then have "is_valid_ipv4_node_addr [8, 8, 8, 8]"
    using ipv4_filter_table [of "[8, 8, 8, 8]"] by simp
  moreover have "in_block [100, 127, 3, 4] ([100, 64, 0, 0], 10)" by code_simp
  then have "\<not> is_valid_ipv4_node_addr [100, 127, 3, 4]"
    using ipv4_filter_table [of "[100, 127, 3, 4]"] by (simp add: special_v4_blocks_def)
  ultimately show ?thesis ..
qed

subsection \<open>Subnets group addresses of one family\<close>

lemma subnet_key_family:
  "subnet_key_from_addr a = subnet_key_from_addr b \<Longrightarrow> is_ipv4 a = is_ipv4 b"
  by (cases a; cases b) auto

end
