(* ===== verification/Ttl_Cache.thy ===== *)
theory Ttl_Cache
  imports Prelude
begin

text \<open>
  The contract of the program's bounded caches of deadlines. Recently probed endpoints, failed
  peers, seen hashes, retry records and rate-limited sources are all kept in such a cache: a map
  from keys to deadlines, of bounded size, whose operations must never panic and must not forget
  a key before its deadline unless they are entitled to (an explicit removal, a refresh of that
  key, or an eviction at full capacity).

  \<open>deadline s k\<close> is the abstract content, \<open>at e\<close> the time of an operation, \<open>may_drop s e k\<close> says that
  operation \<open>e\<close> in state \<open>s\<close> is entitled to change what is stored under \<open>k\<close>. From the laws of one
  step the locale derives the guarantees for every run.
\<close>

locale ttl_cache = guarded_machine step inv
  for step :: "'s \<Rightarrow> 'e \<Rightarrow> 's option" and inv :: "'s \<Rightarrow> bool" +
  fixes deadline :: "'s \<Rightarrow> 'k \<Rightarrow> nat option"
    and at :: "'e \<Rightarrow> nat"
    and may_drop :: "'s \<Rightarrow> 'e \<Rightarrow> 'k \<Rightarrow> bool"
    and size_of :: "'s \<Rightarrow> nat"
    and bound :: "'s \<Rightarrow> nat"
  assumes size_bound: "inv s \<Longrightarrow> size_of s \<le> bound s"
    and bound_static: "inv s \<Longrightarrow> step s e = Some s' \<Longrightarrow> bound s' = bound s"
    and step_keeps: "inv s \<Longrightarrow> step s e = Some s' \<Longrightarrow> deadline s k = Some d \<Longrightarrow> at e < d \<Longrightarrow>
                     \<not> may_drop s e k \<Longrightarrow> deadline s' k = Some d"
begin

text \<open>\<open>undisturbed k d s es\<close>: along the run no operation may drop \<open>k\<close>, and all come before \<open>d\<close>.\<close>

fun undisturbed :: "'k \<Rightarrow> nat \<Rightarrow> 's \<Rightarrow> 'e list \<Rightarrow> bool" where
  "undisturbed k d s [] = True"
| "undisturbed k d s (e # es) =
     (at e < d \<and> \<not> may_drop s e k \<and>
      (case step s e of None \<Rightarrow> False | Some s' \<Rightarrow> undisturbed k d s' es))"

lemma run_bounded:
  assumes "inv s"
  shows "ok (run s es) (\<lambda>s'. inv s' \<and> size_of s' \<le> bound s)"
  using assms
proof (induction es arbitrary: s)
  case Nil
  then show ?case by (simp add: size_bound)
next
  case (Cons e es)
  from step_ok [OF Cons.prems, of e] obtain s' where s': "step s e = Some s'" "inv s'"
    by (auto simp: ok_iff)
  then show ?case using Cons.IH [OF s'(2)] bound_static [OF Cons.prems s'(1)] by simp
qed

lemma run_remembers:
  assumes "inv s" and "deadline s k = Some d" and "undisturbed k d s es"
  shows "ok (run s es) (\<lambda>s'. deadline s' k = Some d)"
  using assms
proof (induction es arbitrary: s)
  case (Cons e es)
  from step_ok [OF Cons.prems(1), of e] obtain s' where s': "step s e = Some s'" "inv s'"
    by (auto simp: ok_iff)
  have "deadline s' k = Some d"
    using Cons.prems(2,3) by (intro step_keeps [OF Cons.prems(1) s'(1)]) simp_all
  moreover have "undisturbed k d s' es" using Cons.prems(3) s'(1) by simp
  ultimately show ?case using Cons.IH [OF s'(2)] s'(1) by simp
qed simp

end

end
