(* ===== verification/Recent_Probes.thy ===== *)
theory Recent_Probes
  imports Net_Types Ttl_Cache
begin

text \<open>
  \<open>RecentProbes\<close> of \<open>src/src/node_pool.rs\<close>: a map from endpoints to deadlines paired with an indexed
  binary min-heap. A repeated probe refreshes only the deadline in the map; the heap entry is
  advanced lazily when it becomes due.

  The operations follow the source line by line. \<open>rp_idx\<close> says that map and heap index each
  other, \<open>heap_ordered\<close> is the heap order, \<open>rp_inv\<close> both with the capacity bound, and \<open>rp_lazy\<close> that
  no heap deadline is later than the map's. The lemmas show that no operation panics, that each
  keeps the invariant, and what each does to the abstract map \<open>rp_deadline\<close>.
\<close>

record recent_probe =
  expires_at :: instant
  heap_index :: nat

record recent_probes =
  rp_entries :: "(socket_addr, recent_probe) hmap"
  rp_expiry :: "(instant \<times> socket_addr) list"
  rp_capacity :: nat

definition rp_new :: "nat \<Rightarrow> recent_probes" where
  "rp_new capacity = \<lparr> rp_entries = [], rp_expiry = [], rp_capacity = max capacity 1 \<rparr>"

definition rp_contains :: "recent_probes \<Rightarrow> socket_addr \<Rightarrow> instant \<Rightarrow> bool" where
  "rp_contains p addr now =
     (case hget (rp_entries p) addr of None \<Rightarrow> False | Some entry \<Rightarrow> now < expires_at entry)"

text \<open>\<open>entries.get_mut(addr).unwrap().heap_index = i\<close>\<close>

definition set_heap_index ::
  "(socket_addr, recent_probe) hmap \<Rightarrow> socket_addr \<Rightarrow> nat \<Rightarrow> (socket_addr, recent_probe) hmap option" where
  "set_heap_index entries addr i =
     (case hget entries addr of
        None \<Rightarrow> None
      | Some entry \<Rightarrow> Some (hput addr (entry \<lparr> heap_index := i \<rparr>) entries))"

definition nth_opt :: "'a list \<Rightarrow> nat \<Rightarrow> 'a option" where
  "nth_opt xs i = (if i < length xs then Some (xs ! i) else None)"

definition list_swap :: "'a list \<Rightarrow> nat \<Rightarrow> nat \<Rightarrow> 'a list" where
  "list_swap xs i j = xs[i := xs ! j, j := xs ! i]"

definition rp_swap :: "recent_probes \<Rightarrow> nat \<Rightarrow> nat \<Rightarrow> recent_probes option" where
  "rp_swap p left right = do {
     x \<leftarrow> nth_opt (rp_expiry p) left;
     y \<leftarrow> nth_opt (rp_expiry p) right;
     let p = p \<lparr> rp_expiry := list_swap (rp_expiry p) left right \<rparr>;
     es \<leftarrow> set_heap_index (rp_entries p) (snd (rp_expiry p ! left)) left;
     es \<leftarrow> set_heap_index es (snd (rp_expiry p ! right)) right;
     Some (p \<lparr> rp_entries := es \<rparr>)
   }"

lemma rp_swap_length:
  "rp_swap p l r = Some p' \<Longrightarrow> length (rp_expiry p') = length (rp_expiry p)"
  by (auto simp: rp_swap_def list_swap_def nth_opt_def bind_eq_Some_conv split: if_splits)

function sift_up :: "recent_probes \<Rightarrow> nat \<Rightarrow> recent_probes option" where
  "sift_up p index =
     (if index = 0 then Some p
      else let parent = (index - 1) div 2 in
        do {
          x \<leftarrow> nth_opt (rp_expiry p) parent;
          y \<leftarrow> nth_opt (rp_expiry p) index;
          if x \<le> y then Some p
          else do {
            p' \<leftarrow> rp_swap p parent index;
            sift_up p' parent
          }
        })"
  by pat_completeness auto
termination by (relation "measure snd") auto

function sift_down :: "recent_probes \<Rightarrow> nat \<Rightarrow> recent_probes option" where
  "sift_down p index =
     (let left = index * 2 + 1 in
      if length (rp_expiry p) \<le> left then Some p
      else let right = left + 1;
               child = (if right < length (rp_expiry p) \<and> rp_expiry p ! right < rp_expiry p ! left
                        then right else left)
           in do {
             x \<leftarrow> nth_opt (rp_expiry p) index;
             if x \<le> rp_expiry p ! child then Some p
             else do {
               p' \<leftarrow> rp_swap p index child;
               sift_down p' child
             }
           })"
  by pat_completeness auto
termination
  by (relation "measure (\<lambda>(p, i). length (rp_expiry p) - i)")
     (auto simp: Let_def dest!: rp_swap_length)

declare sift_up.simps [simp del] sift_down.simps [simp del]

definition remove_at :: "recent_probes \<Rightarrow> nat \<Rightarrow> recent_probes option" where
  "remove_at p index = do {
     removed \<leftarrow> nth_opt (rp_expiry p) index;
     let p = p \<lparr> rp_expiry := swap_remove index (rp_expiry p),
                 rp_entries := hdel (snd removed) (rp_entries p) \<rparr>;
     if index < length (rp_expiry p) then do {
       es \<leftarrow> set_heap_index (rp_entries p) (snd (rp_expiry p ! index)) index;
       let p = p \<lparr> rp_entries := es \<rparr>;
       if 0 < index \<and> rp_expiry p ! index < rp_expiry p ! ((index - 1) div 2)
       then sift_up p index else sift_down p index
     } else Some p
   }"

definition rp_record :: "recent_probes \<Rightarrow> socket_addr \<Rightarrow> instant \<Rightarrow> recent_probes option" where
  "rp_record p addr deadline =
     (case hget (rp_entries p) addr of
        Some entry \<Rightarrow>
          Some (p \<lparr> rp_entries := hput addr (entry \<lparr> expires_at := deadline \<rparr>) (rp_entries p) \<rparr>)
      | None \<Rightarrow> do {
          p \<leftarrow> (if length (rp_entries p) = rp_capacity p then remove_at p 0 else Some p);
          let i = length (rp_expiry p);
          let p = p \<lparr> rp_expiry := rp_expiry p @ [(deadline, addr)],
                      rp_entries := hput addr \<lparr> expires_at = deadline, heap_index = i \<rparr> (rp_entries p) \<rparr>;
          sift_up p i
        })"

definition rp_remove :: "recent_probes \<Rightarrow> socket_addr \<Rightarrow> recent_probes option" where
  "rp_remove p addr =
     (case hget (rp_entries p) addr of
        None \<Rightarrow> Some p
      | Some entry \<Rightarrow> remove_at p (heap_index entry))"

definition has_due :: "recent_probes \<Rightarrow> instant \<Rightarrow> bool" where
  "has_due p now = (case rp_expiry p of [] \<Rightarrow> False | x # _ \<Rightarrow> fst x \<le> now)"

text \<open>The loop of \<open>expire\<close>, with the number of iterations left.\<close>

fun expire_loop :: "nat \<Rightarrow> recent_probes \<Rightarrow> instant \<Rightarrow> nat \<Rightarrow> (nat \<times> recent_probes) option" where
  "expire_loop 0 p now removed = Some (removed, p)"
| "expire_loop (Suc n) p now removed =
     (case rp_expiry p of
        [] \<Rightarrow> Some (removed, p)
      | (check_at, addr) # _ \<Rightarrow>
          if now < check_at then Some (removed, p)
          else do {
            entry \<leftarrow> hget (rp_entries p) addr;
            if expires_at entry \<le> now then do {
              p \<leftarrow> remove_at p 0;
              expire_loop n p now (removed + 1)
            } else do {
              let p = p \<lparr> rp_expiry := (rp_expiry p)[0 := (expires_at entry, addr)] \<rparr>;
              p \<leftarrow> sift_down p 0;
              expire_loop n p now removed
            }
          })"

definition rp_expire :: "recent_probes \<Rightarrow> instant \<Rightarrow> (nat \<times> recent_probes) option" where
  "rp_expire p now = expire_loop 256 p now 0"

subsection \<open>Heap order with one exception\<close>

definition parent_of :: "nat \<Rightarrow> nat" where
  "parent_of i = (i - 1) div 2"

definition heap_ordered :: "'a::linorder list \<Rightarrow> bool" where
  "heap_ordered xs = (\<forall>i<length xs. 0 < i \<longrightarrow> xs ! parent_of i \<le> xs ! i)"

text \<open>
  \<open>heap_up xs i\<close>: only the node \<open>i\<close> may be smaller than its parent. \<open>heap_down xs i\<close>: only the node
  \<open>i\<close> may be larger than its children. In both, the children of \<open>i\<close> respect the parent of \<open>i\<close>.
\<close>

definition skips_up :: "'a::linorder list \<Rightarrow> nat \<Rightarrow> bool" where
  "skips_up xs i = (\<forall>j<length xs. 0 < j \<longrightarrow> parent_of j = i \<longrightarrow> 0 < i \<longrightarrow> xs ! parent_of i \<le> xs ! j)"

definition heap_up :: "'a::linorder list \<Rightarrow> nat \<Rightarrow> bool" where
  "heap_up xs i = ((\<forall>j<length xs. 0 < j \<longrightarrow> j \<noteq> i \<longrightarrow> xs ! parent_of j \<le> xs ! j) \<and> skips_up xs i)"

definition heap_down :: "'a::linorder list \<Rightarrow> nat \<Rightarrow> bool" where
  "heap_down xs i = ((\<forall>j<length xs. 0 < j \<longrightarrow> parent_of j \<noteq> i \<longrightarrow> xs ! parent_of j \<le> xs ! j) \<and> skips_up xs i)"

lemma parent_less: "0 < i \<Longrightarrow> parent_of i < i"
  unfolding parent_of_def by linarith

lemma length_list_swap [simp]: "length (list_swap xs i j) = length xs"
  by (simp add: list_swap_def)

lemma nth_list_swap:
  "k < length xs \<Longrightarrow> i < length xs \<Longrightarrow> j < length xs \<Longrightarrow>
     list_swap xs i j ! k = (if k = j then xs ! i else if k = i then xs ! j else xs ! k)"
  by (auto simp: list_swap_def nth_list_update)

lemma set_list_swap [simp]:
  "i < length xs \<Longrightarrow> j < length xs \<Longrightarrow> set (list_swap xs i j) = set xs"
  by (simp add: list_swap_def)

lemma heap_up_swap:
  assumes h: "heap_up xs i" and i: "0 < i" "i < length xs" and lt: "xs ! i < xs ! parent_of i"
  shows "heap_up (list_swap xs (parent_of i) i) (parent_of i)"
proof -
  let ?p = "parent_of i" and ?ys = "list_swap xs (parent_of i) i"
  have p: "?p < i" using i(1) by (rule parent_less)
  note nth = nth_list_swap [of _ xs ?p i]
  have ord: "xs ! parent_of j \<le> xs ! j" if "j < length xs" "0 < j" "j \<noteq> i" for j
    using h that by (simp add: heap_up_def)
  have skip: "xs ! ?p \<le> xs ! j" if "j < length xs" "0 < j" "parent_of j = i" for j
    using h i(1) that by (simp add: heap_up_def skips_up_def)
  have "?ys ! parent_of j \<le> ?ys ! j" if j: "j < length xs" "0 < j" "j \<noteq> ?p" for j
  proof -
    have pj: "parent_of j < j" using j(2) by (rule parent_less)
    consider "j = i" | "j \<noteq> i" "parent_of j = ?p" | "j \<noteq> i" "parent_of j = i"
      | "j \<noteq> i" "parent_of j \<noteq> ?p" "parent_of j \<noteq> i" by blast
    then show ?thesis
      using ord [OF j(1,2)] skip [OF j(1,2)] lt j i p pj by cases (auto simp: nth)
  qed
  moreover have "?ys ! parent_of ?p \<le> ?ys ! j"
    if j: "j < length xs" "0 < j" "parent_of j = ?p" "0 < ?p" for j
  proof -
    have pp: "parent_of ?p < ?p" using j(4) by (rule parent_less)
    have up: "xs ! parent_of ?p \<le> xs ! ?p" using ord [of ?p] j(4) p i by simp
    have "?p < j" using parent_less [OF j(2)] j(3) by simp
    then show ?thesis using up ord [OF j(1,2)] j i p pp by (cases "j = i") (auto simp: nth)
  qed
  ultimately show ?thesis by (simp add: heap_up_def skips_up_def)
qed

lemma heap_down_swap:
  assumes h: "heap_down xs i" and c: "c < length xs" "0 < c" "parent_of c = i"
    and least: "\<And>j. j < length xs \<Longrightarrow> 0 < j \<Longrightarrow> parent_of j = i \<Longrightarrow> xs ! c \<le> xs ! j"
    and lt: "xs ! c < xs ! i"
  shows "heap_down (list_swap xs i c) c"
proof -
  let ?ys = "list_swap xs i c"
  have i: "i < c" using parent_less [OF c(2)] c(3) by simp
  note nth = nth_list_swap [of _ xs i c]
  have ord: "xs ! parent_of j \<le> xs ! j" if "j < length xs" "0 < j" "parent_of j \<noteq> i" for j
    using h that by (simp add: heap_down_def)
  have skip: "xs ! parent_of i \<le> xs ! c" if "0 < i"
    using h c that by (simp add: heap_down_def skips_up_def)
  have "?ys ! parent_of j \<le> ?ys ! j" if j: "j < length xs" "0 < j" "parent_of j \<noteq> c" for j
  proof -
    have pj: "parent_of j < j" using j(2) by (rule parent_less)
    consider "j = c" | "j \<noteq> c" "parent_of j = i" | "j = i"
      | "j \<noteq> i" "j \<noteq> c" "parent_of j \<noteq> i" by blast
    then show ?thesis
      using ord [OF j(1,2)] skip least [OF j(1,2)] lt j i c pj by cases (auto simp: nth)
  qed
  moreover have "?ys ! parent_of c \<le> ?ys ! j"
    if j: "j < length xs" "0 < j" "parent_of j = c" for j
  proof -
    have "c < j" using parent_less [OF j(2)] j(3) by simp
    then show ?thesis using ord [OF j(1,2)] j i c by (auto simp: nth)
  qed
  ultimately show ?thesis by (simp add: heap_down_def skips_up_def)
qed

lemma heap_up_done:
  assumes "heap_up xs i" and "i = 0 \<or> i < length xs \<and> xs ! parent_of i \<le> xs ! i"
  shows "heap_ordered xs"
  unfolding heap_ordered_def
proof (intro allI impI)
  fix j assume "j < length xs" and "0 < j"
  then show "xs ! parent_of j \<le> xs ! j"
    using assms by (cases "j = i") (auto simp: heap_up_def)
qed

lemma heap_down_done:
  assumes "heap_down xs i"
    and "\<And>j. j < length xs \<Longrightarrow> 0 < j \<Longrightarrow> parent_of j = i \<Longrightarrow> xs ! i \<le> xs ! j"
  shows "heap_ordered xs"
  unfolding heap_ordered_def
proof (intro allI impI)
  fix j assume "j < length xs" and "0 < j"
  then show "xs ! parent_of j \<le> xs ! j"
    using assms by (cases "parent_of j = i") (auto simp: heap_down_def)
qed

lemma children_of: "0 < j \<Longrightarrow> parent_of j = i \<Longrightarrow> j = i * 2 + 1 \<or> j = i * 2 + 2"
  unfolding parent_of_def by linarith

lemma heap_ordered_root:
  assumes "heap_ordered xs" and "x \<in> set xs"
  shows "xs ! 0 \<le> x"
proof -
  have "xs ! 0 \<le> xs ! j" if "j < length xs" for j
    using that
  proof (induction j rule: less_induct)
    case (less j)
    show ?case
    proof (cases "j = 0")
      case False
      then have pj: "parent_of j < j" by (simp add: parent_less)
      then have "xs ! 0 \<le> xs ! parent_of j" using less by simp
      also have "\<dots> \<le> xs ! j" using assms(1) less.prems False by (simp add: heap_ordered_def)
      finally show ?thesis .
    qed simp
  qed
  then show ?thesis using assms(2) by (metis in_set_conv_nth)
qed

subsection \<open>Map and heap index each other\<close>

definition rp_idx :: "recent_probes \<Rightarrow> bool" where
  "rp_idx p = (hwf (rp_entries p) \<and> length (rp_entries p) = length (rp_expiry p) \<and>
     (\<forall>i<length (rp_expiry p).
        \<exists>e. hget (rp_entries p) (snd (rp_expiry p ! i)) = Some e \<and> heap_index e = i) \<and>
     (\<forall>a e. hget (rp_entries p) a = Some e \<longrightarrow>
        heap_index e < length (rp_expiry p) \<and> snd (rp_expiry p ! heap_index e) = a))"

definition rp_deadline :: "recent_probes \<Rightarrow> socket_addr \<Rightarrow> instant option" where
  "rp_deadline p a = map_option expires_at (hget (rp_entries p) a)"

definition rp_same :: "recent_probes \<Rightarrow> recent_probes \<Rightarrow> bool" where
  "rp_same p p' = (rp_capacity p' = rp_capacity p \<and> rp_deadline p' = rp_deadline p \<and>
                   set (rp_expiry p') = set (rp_expiry p) \<and>
                   length (rp_expiry p') = length (rp_expiry p))"

lemma rp_same_refl [simp]: "rp_same p p"
  by (simp add: rp_same_def)

lemma rp_same_trans: "rp_same p q \<Longrightarrow> rp_same q r \<Longrightarrow> rp_same p r"
  by (simp add: rp_same_def)

lemma rp_idx_entry:
  assumes "rp_idx p" and "i < length (rp_expiry p)"
  obtains e where "hget (rp_entries p) (snd (rp_expiry p ! i)) = Some e" and "heap_index e = i"
  using assms by (auto simp: rp_idx_def)

lemma rp_idx_inj:
  assumes "rp_idx p" and "i < length (rp_expiry p)" and "j < length (rp_expiry p)"
    and "snd (rp_expiry p ! i) = snd (rp_expiry p ! j)"
  shows "i = j"
  using assms by (metis option.inject rp_idx_entry)

lemma rp_idx_inj_iff:
  assumes "rp_idx p" and "i < length (rp_expiry p)" and "j < length (rp_expiry p)"
  shows "snd (rp_expiry p ! i) = snd (rp_expiry p ! j) \<longleftrightarrow> i = j"
  using rp_idx_inj [OF assms] by blast

lemma rp_idx_mem: "rp_idx p \<Longrightarrow> (t, a) \<in> set (rp_expiry p) \<Longrightarrow> hget (rp_entries p) a \<noteq> None"
  by (metis in_set_conv_nth option.distinct(1) rp_idx_entry snd_conv)

lemma rp_swap_ok:
  assumes idx: "rp_idx p" and l: "l < length (rp_expiry p)" and r: "r < length (rp_expiry p)"
    and ne: "l \<noteq> r"
  shows "ok (rp_swap p l r) (\<lambda>p'. rp_idx p' \<and> rp_expiry p' = list_swap (rp_expiry p) l r \<and>
           rp_capacity p' = rp_capacity p \<and> rp_deadline p' = rp_deadline p)"
proof -
  let ?xs = "rp_expiry p" and ?ys = "list_swap (rp_expiry p) l r" and ?m = "rp_entries p"
  let ?a = "snd (rp_expiry p ! r)" and ?b = "snd (rp_expiry p ! l)"
  obtain ea where ea: "hget ?m ?a = Some ea" "heap_index ea = r" using idx r by (rule rp_idx_entry)
  obtain eb where eb: "hget ?m ?b = Some eb" "heap_index eb = l" using idx l by (rule rp_idx_entry)
  have ab: "?a \<noteq> ?b" using rp_idx_inj_iff [OF idx r l] ne by simp
  have yl: "snd (?ys ! l) = ?a" and yr: "snd (?ys ! r) = ?b" using l r ne by (auto simp: nth_list_swap)
  define m' where "m' = hput ?b (eb \<lparr> heap_index := r \<rparr>) (hput ?a (ea \<lparr> heap_index := l \<rparr>) ?m)"
  have run: "rp_swap p l r = Some (p \<lparr> rp_expiry := ?ys, rp_entries := m' \<rparr>)"
    using l r ab ea eb yl yr by (simp add: rp_swap_def nth_opt_def set_heap_index_def m'_def)
  have get: "hget m' x = (if x = ?b then Some (eb \<lparr> heap_index := r \<rparr>)
      else if x = ?a then Some (ea \<lparr> heap_index := l \<rparr>) else hget ?m x)" for x
    by (simp add: m'_def)
  have fwd: "\<exists>e. hget m' (snd (?ys ! i)) = Some e \<and> heap_index e = i" if i: "i < length ?xs" for i
  proof (cases "i = l \<or> i = r")
    case True
    then show ?thesis using yl yr ab by (auto simp: get)
  next
    case False
    then have "snd (?ys ! i) = snd (?xs ! i)" using i l r by (simp add: nth_list_swap)
    moreover have "snd (?xs ! i) \<noteq> ?a" "snd (?xs ! i) \<noteq> ?b"
      using False rp_idx_inj_iff [OF idx i r] rp_idx_inj_iff [OF idx i l] by simp_all
    ultimately show ?thesis using idx i by (simp add: get rp_idx_def)
  qed
  have bwd: "heap_index e < length ?xs \<and> snd (?ys ! heap_index e) = x" if "hget m' x = Some e" for x e
  proof (cases "x = ?a \<or> x = ?b")
    case True
    then show ?thesis using that l r yl yr ab by (auto simp: get split: if_splits)
  next
    case False
    then have e: "hget ?m x = Some e" using that by (simp add: get)
    then have h: "heap_index e < length ?xs" "snd (?xs ! heap_index e) = x"
      using idx by (auto simp: rp_idx_def)
    then have "heap_index e \<noteq> l" "heap_index e \<noteq> r" using False by auto
    then show ?thesis using h l r by (simp add: nth_list_swap)
  qed
  have "hwf m' \<and> length m' = length ?xs"
    using idx ea(1) eb(1) ab by (simp add: m'_def rp_idx_def length_hput)
  moreover have "rp_deadline (p \<lparr> rp_expiry := ?ys, rp_entries := m' \<rparr>) = rp_deadline p"
    using ea eb by (auto simp: rp_deadline_def get fun_eq_iff)
  ultimately show ?thesis using fwd bwd by (simp add: run rp_idx_def)
qed

lemma sift_up_ok:
  "rp_idx p \<Longrightarrow> i < length (rp_expiry p) \<Longrightarrow> heap_up (rp_expiry p) i \<Longrightarrow>
     ok (sift_up p i) (\<lambda>p'. rp_idx p' \<and> heap_ordered (rp_expiry p') \<and> rp_same p p')"
proof (induction p i rule: sift_up.induct)
  case (1 p i)
  let ?xs = "rp_expiry p" and ?q = "parent_of i"
  show ?case
  proof (cases "i = 0 \<or> ?xs ! ?q \<le> ?xs ! i")
    case True
    have "heap_ordered ?xs" using "1.prems" True by (intro heap_up_done [of _ i]) auto
    moreover have "?q < length ?xs" using "1.prems"(2) by (simp add: parent_of_def)
    ultimately show ?thesis
      using True "1.prems"
      by (subst sift_up.simps) (auto simp: Let_def nth_opt_def parent_of_def)
  next
    case False
    then have i: "0 < i" and lt: "?xs ! i < ?xs ! ?q" by auto
    have q: "?q < i" using i by (rule parent_less)
    obtain p' where p': "rp_swap p ?q i = Some p'" "rp_idx p'" "rp_expiry p' = list_swap ?xs ?q i"
      "rp_capacity p' = rp_capacity p" "rp_deadline p' = rp_deadline p"
      using rp_swap_ok [OF "1.prems"(1), of ?q i] q "1.prems"(2) by (auto simp: ok_iff)
    have up: "heap_up (rp_expiry p') ?q"
      unfolding p'(3) using "1.prems"(3) i "1.prems"(2) lt by (rule heap_up_swap)
    have same: "rp_same p p'" using p' q "1.prems"(2) by (simp add: rp_same_def)
    have "sift_up p i = sift_up p' ?q"
      using i q False "1.prems"(2) p'(1)
      by (subst sift_up.simps) (simp add: Let_def nth_opt_def parent_of_def)
    moreover have "ok (sift_up p' ?q) (\<lambda>p''. rp_idx p'' \<and> heap_ordered (rp_expiry p'') \<and> rp_same p' p'')"
    proof (rule "1.IH" [folded parent_of_def])
      show "i \<noteq> 0" using i by simp
      show "nth_opt ?xs ?q = Some (?xs ! ?q)" and "nth_opt ?xs i = Some (?xs ! i)"
        using q "1.prems"(2) by (simp_all add: nth_opt_def)
      show "\<not> ?xs ! ?q \<le> ?xs ! i" using lt by simp
      show "rp_swap p ?q i = Some p'" and "rp_idx p'" by fact+
      show "?q < length (rp_expiry p')" using q "1.prems"(2) p'(3) by simp
    qed (use up in simp_all)
    ultimately show ?thesis using same by (auto elim!: ok_mono intro: rp_same_trans)
  qed
qed

definition min_child :: "'a::linorder list \<Rightarrow> nat \<Rightarrow> nat" where
  "min_child xs i = (let left = i * 2 + 1; right = left + 1
                     in if right < length xs \<and> xs ! right < xs ! left then right else left)"

lemma min_child:
  assumes "i * 2 + 1 < length xs"
  shows "min_child xs i < length xs" and "0 < min_child xs i" and "parent_of (min_child xs i) = i"
    and "i < min_child xs i"
  using assms by (simp_all add: min_child_def Let_def parent_of_def)

lemma min_child_le:
  assumes "j < length xs" and "0 < j" and "parent_of j = i"
  shows "xs ! min_child xs i \<le> xs ! j"
  using children_of [OF assms(2,3)] assms(1) by (auto simp: min_child_def Let_def)

lemma sift_down_leaf: "length (rp_expiry p) \<le> i * 2 + 1 \<Longrightarrow> sift_down p i = Some p"
  by (subst sift_down.simps) simp

lemma sift_down_node:
  "i * 2 + 1 < length (rp_expiry p) \<Longrightarrow>
   sift_down p i =
     (let c = min_child (rp_expiry p) i
      in if rp_expiry p ! i \<le> rp_expiry p ! c then Some p
         else Option.bind (rp_swap p i c) (\<lambda>p'. sift_down p' c))"
  by (subst sift_down.simps) (simp add: Let_def min_child_def nth_opt_def)

lemma sift_down_ok:
  "rp_idx p \<Longrightarrow> heap_down (rp_expiry p) i \<Longrightarrow>
     ok (sift_down p i) (\<lambda>p'. rp_idx p' \<and> heap_ordered (rp_expiry p') \<and> rp_same p p')"
proof (induction "length (rp_expiry p) - i" arbitrary: p i rule: less_induct)
  case less
  let ?xs = "rp_expiry p" and ?c = "min_child (rp_expiry p) i"
  show ?case
  proof (cases "length ?xs \<le> i * 2 + 1 \<or> ?xs ! i \<le> ?xs ! ?c")
    case True
    have "?xs ! i \<le> ?xs ! j" if j: "j < length ?xs" "0 < j" "parent_of j = i" for j
      using True min_child_le [OF j] children_of [OF j(2,3)] j(1) by auto
    then have "heap_ordered ?xs" by (rule heap_down_done [OF less.prems(2)])
    moreover have "sift_down p i = Some p"
      using True by (cases "length ?xs \<le> i * 2 + 1") (simp_all add: sift_down_leaf sift_down_node)
    ultimately show ?thesis using less.prems(1) by simp
  next
    case False
    then have node: "i * 2 + 1 < length ?xs" and nle: "\<not> ?xs ! i \<le> ?xs ! ?c" by simp_all
    note c = min_child [OF node]
    obtain p' where p': "rp_swap p i ?c = Some p'" "rp_idx p'" "rp_expiry p' = list_swap ?xs i ?c"
      "rp_capacity p' = rp_capacity p" "rp_deadline p' = rp_deadline p"
      using rp_swap_ok [OF less.prems(1), of i ?c] c by (auto simp: ok_iff)
    have down: "heap_down (rp_expiry p') ?c"
      unfolding p'(3) using less.prems(2) c(1-3) min_child_le nle by (intro heap_down_swap) auto
    have same: "rp_same p p'" using p' c by (simp add: rp_same_def)
    have "sift_down p i = sift_down p' ?c"
      using nle p'(1) by (simp add: sift_down_node [OF node] Let_def)
    moreover have "ok (sift_down p' ?c)
        (\<lambda>p''. rp_idx p'' \<and> heap_ordered (rp_expiry p'') \<and> rp_same p' p'')"
      using less.hyps [OF _ p'(2) down] p'(3) c by simp
    ultimately show ?thesis using same by (auto elim!: ok_mono intro: rp_same_trans)
  qed
qed

subsection \<open>Removal\<close>

lemma rp_idx_distinct: "rp_idx p \<Longrightarrow> distinct (rp_expiry p)"
  by (metis distinct_conv_nth rp_idx_inj)

lemma heap_replace:
  fixes xs ys :: "'a::linorder list"
  assumes heap: "heap_ordered xs" and len: "length ys \<le> length xs" and i: "i < length ys"
    and same: "\<And>j. j < length ys \<Longrightarrow> j \<noteq> i \<Longrightarrow> ys ! j = xs ! j"
  shows "0 < i \<Longrightarrow> ys ! i < ys ! parent_of i \<Longrightarrow> heap_up ys i"
    and "\<not> (0 < i \<and> ys ! i < ys ! parent_of i) \<Longrightarrow> heap_down ys i"
proof -
  have ord: "xs ! parent_of j \<le> xs ! j" if "j < length ys" "0 < j" for j
    using heap len that by (simp add: heap_ordered_def)
  have skip: "xs ! parent_of i \<le> xs ! j" if "j < length ys" "0 < j" "parent_of j = i" "0 < i" for j
    using ord [of j] ord [of i] that i by auto
  have skips: "skips_up ys i"
    unfolding skips_up_def
  proof (intro allI impI)
    fix j assume j: "j < length ys" "0 < j" "parent_of j = i" "0 < i"
    have "j \<noteq> i" and "parent_of i \<noteq> i"
      using parent_less [OF j(2)] parent_less [OF j(4)] j(3) by simp_all
    moreover have "parent_of i < length ys" using parent_less [OF j(4)] i by simp
    ultimately show "ys ! parent_of i \<le> ys ! j" using skip [OF j] j(1) by (simp add: same)
  qed
  have keep: "ys ! parent_of j \<le> ys ! j" if j: "j < length ys" "0 < j" "j \<noteq> i" "parent_of j \<noteq> i" for j
    using ord [OF j(1,2)] j parent_less [OF j(2)] by (simp add: same)
  show "heap_up ys i" if up: "0 < i" "ys ! i < ys ! parent_of i"
  proof -
    have "ys ! parent_of j \<le> ys ! j" if j: "j < length ys" "0 < j" "j \<noteq> i" for j
      using keep [OF j] up skips j(1,2)
      by (cases "parent_of j = i") (auto simp: skips_up_def intro: order_trans less_imp_le)
    then show ?thesis using skips by (simp add: heap_up_def)
  qed
  show "heap_down ys i" if down: "\<not> (0 < i \<and> ys ! i < ys ! parent_of i)"
  proof -
    have "ys ! parent_of j \<le> ys ! j" if j: "j < length ys" "0 < j" "parent_of j \<noteq> i" for j
      using keep [OF j(1,2) _ j(3)] down j(2) by (cases "j = i") auto
    then show ?thesis using skips by (simp add: heap_down_def)
  qed
qed

text \<open>The state of \<open>remove_at\<close> before it restores the heap order.\<close>

lemma remove_at_idx:
  assumes idx: "rp_idx p" and i: "i < length (rp_expiry p)"
  defines "q \<equiv> p \<lparr> rp_expiry := swap_remove i (rp_expiry p),
                   rp_entries := hdel (snd (rp_expiry p ! i)) (rp_entries p) \<rparr>"
  shows "i = length (rp_expiry p) - 1 \<Longrightarrow> rp_idx q"
    and "i < length (rp_expiry p) - 1 \<Longrightarrow>
           ok (set_heap_index (rp_entries q) (snd (rp_expiry q ! i)) i)
             (\<lambda>es. rp_idx (q \<lparr> rp_entries := es \<rparr>) \<and>
                   rp_deadline (q \<lparr> rp_entries := es \<rparr>) = rp_deadline q)"
proof -
  let ?xs = "rp_expiry p" and ?m = "rp_entries p" and ?a = "snd (rp_expiry p ! i)"
  let ?n = "length (rp_expiry p) - 1"
  have ys: "rp_expiry q ! j = (if j = i then ?xs ! ?n else ?xs ! j)" if "j < ?n" for j
  proof -
    have "?xs \<noteq> []" using i by auto
    then have "last ?xs = ?xs ! ?n" by (rule last_conv_nth)
    then show ?thesis using that i by (simp add: q_def nth_swap_remove)
  qed
  obtain ea where ea: "hget ?m ?a = Some ea" "heap_index ea = i" using idx i by (rule rp_idx_entry)
  have wf: "hwf (rp_entries q)" and len: "length (rp_entries q) = ?n"
    using idx ea(1) by (auto simp: q_def rp_idx_def length_hdel_eq)
  have get: "hget (rp_entries q) x = (if x = ?a then None else hget ?m x)" for x by (simp add: q_def)
  have bwd: "heap_index e < length ?xs \<and> heap_index e \<noteq> i \<and> snd (?xs ! heap_index e) = x"
    if "hget (rp_entries q) x = Some e" for x e
    using that idx by (auto simp: get rp_idx_def split: if_splits)
  have lenq: "length (rp_expiry q) = ?n" by (simp add: q_def)
  have fwd: "\<exists>e. hget (rp_entries q) (snd (?xs ! j)) = Some e \<and> heap_index e = j"
    if "j < length ?xs" "j \<noteq> i" for j
    using that rp_idx_inj_iff [OF idx that(1) i] idx by (auto simp: get rp_idx_def)
  show "rp_idx q" if "i = ?n"
    unfolding rp_idx_def lenq using wf len
  proof (intro conjI allI impI)
    show "\<exists>e. hget (rp_entries q) (snd (rp_expiry q ! j)) = Some e \<and> heap_index e = j"
      if "j < ?n" for j using fwd [of j] ys [OF that] that \<open>i = ?n\<close> by auto
    show "heap_index e < ?n" and "snd (rp_expiry q ! heap_index e) = x"
      if "hget (rp_entries q) x = Some e" for x e
      using bwd [OF that] ys [of "heap_index e"] \<open>i = ?n\<close> by auto
  qed auto
  assume less: "i < ?n"
  let ?b = "snd (?xs ! ?n)"
  have n: "?n < length ?xs" using i by linarith
  have b: "snd (rp_expiry q ! i) = ?b" using ys [OF less] by simp
  obtain eb where eb: "hget (rp_entries q) ?b = Some eb" "heap_index eb = ?n"
    using fwd [OF n] less by (auto simp only: nat_neq_iff)
  define es where "es = hput ?b (eb \<lparr> heap_index := i \<rparr>) (rp_entries q)"
  have "rp_idx (q \<lparr> rp_entries := es \<rparr>)"
    unfolding rp_idx_def
  proof (intro conjI allI impI)
    show "hwf (rp_entries (q \<lparr> rp_entries := es \<rparr>))" using wf by (simp add: es_def)
    show "length (rp_entries (q \<lparr> rp_entries := es \<rparr>)) = length (rp_expiry (q \<lparr> rp_entries := es \<rparr>))"
      using len eb(1) by (simp add: es_def length_hput lenq)
    show "\<exists>e. hget (rp_entries (q \<lparr> rp_entries := es \<rparr>)) (snd (rp_expiry (q \<lparr> rp_entries := es \<rparr>) ! j)) = Some e
        \<and> heap_index e = j" if "j < length (rp_expiry (q \<lparr> rp_entries := es \<rparr>))" for j
      using that fwd [of j] ys [of j] lenq rp_idx_inj_iff [OF idx, of j ?n]
      by (cases "j = i") (auto simp: es_def)
    fix x e
    assume e: "hget (rp_entries (q \<lparr> rp_entries := es \<rparr>)) x = Some e"
    have "heap_index e < ?n \<and> snd (rp_expiry q ! heap_index e) = x"
    proof (cases "x = ?b")
      case True
      then show ?thesis using e less b by (auto simp: es_def)
    next
      case False
      then have h: "heap_index e < length ?xs" "heap_index e \<noteq> i" "snd (?xs ! heap_index e) = x"
        using e bwd [of x e] by (simp_all add: es_def)
      then have "heap_index e \<noteq> ?n" using False by auto
      then have "heap_index e < ?n" using h(1) by linarith
      then show ?thesis using h ys by simp
    qed
    then show "heap_index e < length (rp_expiry (q \<lparr> rp_entries := es \<rparr>))"
      and "snd (rp_expiry (q \<lparr> rp_entries := es \<rparr>) ! heap_index e) = x"
      by (simp_all add: lenq)
  qed
  moreover have "rp_deadline (q \<lparr> rp_entries := es \<rparr>) = rp_deadline q"
    using eb(1) by (auto simp: rp_deadline_def es_def fun_eq_iff)
  ultimately show "ok (set_heap_index (rp_entries q) (snd (rp_expiry q ! i)) i)
             (\<lambda>es. rp_idx (q \<lparr> rp_entries := es \<rparr>) \<and>
                   rp_deadline (q \<lparr> rp_entries := es \<rparr>) = rp_deadline q)"
    using eb(1) by (simp add: set_heap_index_def b es_def)
qed

definition removed_from :: "recent_probes \<Rightarrow> nat \<Rightarrow> recent_probes \<Rightarrow> bool" where
  "removed_from p i p' =
     (rp_idx p' \<and> heap_ordered (rp_expiry p') \<and> rp_capacity p' = rp_capacity p \<and>
      rp_deadline p' = (rp_deadline p)(snd (rp_expiry p ! i) := None) \<and>
      set (rp_expiry p') = set (rp_expiry p) - {rp_expiry p ! i} \<and>
      length (rp_expiry p') = length (rp_expiry p) - 1)"

lemma remove_at_ok:
  assumes idx: "rp_idx p" and heap: "heap_ordered (rp_expiry p)" and i: "i < length (rp_expiry p)"
  shows "ok (remove_at p i) (removed_from p i)"
proof -
  let ?q = "p \<lparr> rp_expiry := swap_remove i (rp_expiry p),
               rp_entries := hdel (snd (rp_expiry p ! i)) (rp_entries p) \<rparr>"
  let ?ys = "swap_remove i (rp_expiry p)"
  have set_q: "set ?ys = set (rp_expiry p) - {rp_expiry p ! i}"
    using rp_idx_distinct [OF idx] i by (rule set_swap_remove)
  have dl: "rp_deadline ?q = (rp_deadline p)(snd (rp_expiry p ! i) := None)"
    by (simp add: rp_deadline_def fun_eq_iff)
  show ?thesis
  proof (cases "i = length (rp_expiry p) - 1")
    case True
    have "heap_ordered ?ys"
      unfolding heap_ordered_def
    proof (intro allI impI)
      fix j assume j: "j < length ?ys" "0 < j"
      then show "?ys ! parent_of j \<le> ?ys ! j"
        using heap i True parent_less [OF j(2)] by (auto simp: nth_swap_remove heap_ordered_def)
    qed
    then show ?thesis
      using True remove_at_idx(1) [OF idx i] i set_q dl
      by (simp add: remove_at_def nth_opt_def removed_from_def)
  next
    case False
    then have less: "i < length ?ys" using i by simp
    obtain es where es: "set_heap_index (rp_entries ?q) (snd (rp_expiry ?q ! i)) i = Some es"
      "rp_idx (?q \<lparr> rp_entries := es \<rparr>)" "rp_deadline (?q \<lparr> rp_entries := es \<rparr>) = rp_deadline ?q"
      using remove_at_idx(2) [OF idx i] less by (auto simp: ok_iff)
    let ?r = "?q \<lparr> rp_entries := es \<rparr>"
    let ?up = "0 < i \<and> ?ys ! i < ?ys ! parent_of i"
    have hu: "heap_up ?ys i" if ?up
      using heap_replace(1) [OF heap _ less] that less by (simp add: nth_swap_remove)
    have hd: "heap_down ?ys i" if "\<not> ?up"
      using heap_replace(2) [OF heap _ less] that less by (simp add: nth_swap_remove)
    have sifted: "ok (if ?up then sift_up ?r i else sift_down ?r i)
        (\<lambda>p'. rp_idx p' \<and> heap_ordered (rp_expiry p') \<and> rp_same ?r p')"
    proof (cases ?up)
      case True
      show ?thesis
        unfolding if_P [OF True] by (rule sift_up_ok [OF es(2)]) (use hu [OF True] less in simp_all)
    next
      case False
      show ?thesis
        unfolding if_not_P [OF False] by (rule sift_down_ok [OF es(2)]) (use hd [OF False] in simp)
    qed
    have run: "remove_at p i = (if ?up then sift_up ?r i else sift_down ?r i)"
      using i less es(1) by (simp add: remove_at_def nth_opt_def parent_of_def)
    show ?thesis unfolding run
    proof (rule ok_mono [OF sifted])
      fix p' assume "rp_idx p' \<and> heap_ordered (rp_expiry p') \<and> rp_same ?r p'"
      then show "removed_from p i p'" using es(3) set_q dl by (simp add: removed_from_def rp_same_def)
    qed
  qed
qed

subsection \<open>The invariant and the public operations\<close>

definition rp_inv :: "recent_probes \<Rightarrow> bool" where
  "rp_inv p = (rp_idx p \<and> heap_ordered (rp_expiry p) \<and>
               length (rp_entries p) \<le> rp_capacity p \<and> 0 < rp_capacity p)"

text \<open>The deadline in the heap is never later than the one in the map.\<close>

definition rp_lazy :: "recent_probes \<Rightarrow> bool" where
  "rp_lazy p = (\<forall>(t, a)\<in>set (rp_expiry p). \<forall>d. rp_deadline p a = Some d \<longrightarrow> t \<le> d)"

lemma rp_inv_new: "rp_inv (rp_new c)" and rp_lazy_new: "rp_lazy (rp_new c)"
  by (simp_all add: rp_inv_def rp_lazy_def rp_new_def rp_idx_def heap_ordered_def)

lemma rp_inv_len: "rp_inv p \<Longrightarrow> length (rp_entries p) = length (rp_expiry p)"
  by (simp add: rp_inv_def rp_idx_def)

lemma rp_deadline_heap:
  assumes "rp_idx p" and "rp_deadline p a = Some d"
  obtains t where "(t, a) \<in> set (rp_expiry p)"
proof -
  from assms(2) obtain e where "hget (rp_entries p) a = Some e" by (auto simp: rp_deadline_def)
  then have "heap_index e < length (rp_expiry p)" "snd (rp_expiry p ! heap_index e) = a"
    using assms(1) by (auto simp: rp_idx_def)
  then show ?thesis using that by (metis nth_mem prod.collapse)
qed

lemma rp_expiry_deadline:
  assumes "rp_idx p" and "(t, a) \<in> set (rp_expiry p)"
  obtains d where "rp_deadline p a = Some d"
  using rp_idx_mem [OF assms] that by (auto simp: rp_deadline_def)

lemma removed_from_inv:
  assumes "rp_inv p" and "i < length (rp_expiry p)" and "removed_from p i p'"
  shows "rp_inv p'" and "rp_lazy p \<Longrightarrow> rp_lazy p'"
    and "length (rp_entries p') < length (rp_entries p)"
proof -
  have len: "length (rp_entries p') = length (rp_entries p) - 1"
    using assms rp_inv_len [OF assms(1)] by (simp add: removed_from_def rp_idx_def)
  moreover have "length (rp_entries p) \<le> rp_capacity p" and "0 < rp_capacity p"
    using assms(1) by (simp_all add: rp_inv_def)
  moreover have "rp_idx p'" and "heap_ordered (rp_expiry p')" and "rp_capacity p' = rp_capacity p"
    using assms(3) by (simp_all add: removed_from_def)
  ultimately show "rp_inv p'" by (simp add: rp_inv_def)
  show "length (rp_entries p') < length (rp_entries p)"
    using len assms(2) rp_inv_len [OF assms(1)] by simp
  show "rp_lazy p'" if "rp_lazy p"
    unfolding rp_lazy_def
  proof (clarify)
    fix t a d assume "(t, a) \<in> set (rp_expiry p')" and "rp_deadline p' a = Some d"
    then have "(t, a) \<in> set (rp_expiry p)" and "rp_deadline p a = Some d"
      using assms(3) by (simp_all add: removed_from_def split: if_splits)
    then show "t \<le> d" using that by (auto simp: rp_lazy_def)
  qed
qed

lemma heap_push:
  assumes "heap_ordered xs"
  shows "heap_up (xs @ [x]) (length xs)"
proof -
  have "(xs @ [x]) ! parent_of j \<le> (xs @ [x]) ! j"
    if "j < Suc (length xs)" "0 < j" "j \<noteq> length xs" for j
    using assms that parent_less [of j] by (simp add: heap_ordered_def nth_append)
  moreover have "parent_of j \<noteq> length xs" if "j < Suc (length xs)" "0 < j" for j
    using parent_less [of j] that by simp
  ultimately show ?thesis by (simp add: heap_up_def skips_up_def)
qed

lemma push_ok:
  fixes d :: instant
  assumes idx: "rp_idx p" and heap: "heap_ordered (rp_expiry p)" and fresh: "hget (rp_entries p) a = None"
  defines "q \<equiv> p \<lparr> rp_expiry := rp_expiry p @ [(d, a)],
                   rp_entries := hput a \<lparr> expires_at = d, heap_index = length (rp_expiry p) \<rparr> (rp_entries p) \<rparr>"
  shows "ok (sift_up q (length (rp_expiry p)))
           (\<lambda>p'. rp_idx p' \<and> heap_ordered (rp_expiry p') \<and> rp_capacity p' = rp_capacity p \<and>
                 rp_deadline p' = (rp_deadline p)(a \<mapsto> d) \<and>
                 set (rp_expiry p') = insert (d, a) (set (rp_expiry p)) \<and>
                 length (rp_expiry p') = Suc (length (rp_expiry p)))"
proof -
  let ?n = "length (rp_expiry p)"
  have fwd: "\<exists>e. hget (rp_entries q) (snd (rp_expiry q ! i)) = Some e \<and> heap_index e = i"
    if i: "i < Suc ?n" for i
  proof (cases "i = ?n")
    case False
    then have "i < ?n" using i by simp
    then obtain e where e: "hget (rp_entries p) (snd (rp_expiry p ! i)) = Some e" "heap_index e = i"
      by (rule rp_idx_entry [OF idx])
    moreover have "snd (rp_expiry p ! i) \<noteq> a" using e(1) fresh by auto
    ultimately show ?thesis using \<open>i < ?n\<close> by (simp add: q_def nth_append)
  qed (simp add: q_def nth_append)
  have bwd: "heap_index e < Suc ?n \<and> snd (rp_expiry q ! heap_index e) = x"
    if "hget (rp_entries q) x = Some e" for x e
    using that idx by (auto simp: q_def nth_append rp_idx_def less_Suc_eq split: if_splits)
  have "rp_idx q"
    unfolding rp_idx_def using fwd bwd idx fresh by (simp add: q_def rp_idx_def length_hput)
  moreover have "heap_up (rp_expiry q) ?n" using heap_push [OF heap] by (simp add: q_def)
  ultimately have "ok (sift_up q ?n) (\<lambda>p'. rp_idx p' \<and> heap_ordered (rp_expiry p') \<and> rp_same q p')"
    by (intro sift_up_ok) (simp_all add: q_def)
  moreover have "rp_deadline q = (rp_deadline p)(a \<mapsto> d)"
    by (simp add: q_def rp_deadline_def fun_eq_iff)
  ultimately show ?thesis by (auto elim!: ok_mono simp: rp_same_def q_def)
qed

lemma rp_idx_refresh:
  assumes idx: "rp_idx p" and e: "hget (rp_entries p) a = Some e"
  shows "rp_idx (p \<lparr> rp_entries := hput a (e \<lparr> expires_at := d \<rparr>) (rp_entries p) \<rparr>)"
    (is "rp_idx ?q")
proof -
  have get: "hget (rp_entries ?q) x = (if x = a then Some (e \<lparr> expires_at := d \<rparr>) else hget (rp_entries p) x)"
    for x by simp
  have "\<exists>e'. hget (rp_entries ?q) (snd (rp_expiry p ! i)) = Some e' \<and> heap_index e' = i"
    if i: "i < length (rp_expiry p)" for i
  proof -
    obtain e' where "hget (rp_entries p) (snd (rp_expiry p ! i)) = Some e'" "heap_index e' = i"
      using idx i by (rule rp_idx_entry)
    then show ?thesis using e unfolding get by (cases "snd (rp_expiry p ! i) = a") auto
  qed
  moreover have "heap_index e' < length (rp_expiry p) \<and> snd (rp_expiry p ! heap_index e') = x"
    if "hget (rp_entries ?q) x = Some e'" for x e'
    using that idx e unfolding get rp_idx_def by (cases "x = a") auto
  ultimately show ?thesis using idx e by (simp add: rp_idx_def length_hput)
qed

text \<open>The endpoint that \<open>record\<close> evicts at full capacity: the heap root.\<close>

definition rp_victim :: "recent_probes \<Rightarrow> socket_addr \<Rightarrow> socket_addr option" where
  "rp_victim p a = (if hget (rp_entries p) a = None \<and> length (rp_entries p) = rp_capacity p
                    then Some (snd (rp_expiry p ! 0)) else None)"

definition evict :: "('k \<Rightarrow> 'v option) \<Rightarrow> 'k option \<Rightarrow> ('k \<Rightarrow> 'v option)" where
  "evict m v = (case v of None \<Rightarrow> m | Some k \<Rightarrow> m(k := None))"

lemma record_ok [ok_specs]:
  assumes inv: "rp_inv p"
  shows "ok (rp_record p a d) (\<lambda>p'. rp_inv p' \<and> rp_capacity p' = rp_capacity p \<and>
           rp_deadline p' = (evict (rp_deadline p) (rp_victim p a))(a \<mapsto> d))"
proof (cases "hget (rp_entries p) a")
  case (Some e)
  let ?q = "p \<lparr> rp_entries := hput a (e \<lparr> expires_at := d \<rparr>) (rp_entries p) \<rparr>"
  have "rp_idx ?q"
    using inv Some by (intro rp_idx_refresh) (simp_all add: rp_inv_def)
  moreover have "rp_deadline ?q = (rp_deadline p)(a \<mapsto> d)" by (simp add: rp_deadline_def fun_eq_iff)
  ultimately show ?thesis
    using inv Some by (simp add: rp_record_def rp_inv_def rp_victim_def evict_def length_hput)
next
  case None
  define m where "m = (if length (rp_entries p) = rp_capacity p then remove_at p 0 else Some p)"
  have "ok m (\<lambda>q. rp_inv q \<and> rp_capacity q = rp_capacity p \<and> length (rp_entries q) < rp_capacity p \<and>
      rp_deadline q = evict (rp_deadline p) (rp_victim p a))"
  proof (cases "length (rp_entries p) = rp_capacity p")
    case True
    have root: "0 < length (rp_expiry p)" using inv True rp_inv_len [OF inv] by (simp add: rp_inv_def)
    have "ok (remove_at p 0) (removed_from p 0)"
      using inv root by (intro remove_at_ok) (simp_all add: rp_inv_def)
    then show ?thesis
      using True None removed_from_inv [OF inv root]
      by (auto elim!: ok_mono simp: m_def removed_from_def rp_victim_def evict_def)
  next
    case False
    then show ?thesis using inv None by (simp add: m_def rp_victim_def evict_def rp_inv_def)
  qed
  then obtain q where q: "m = Some q" "rp_inv q" "rp_capacity q = rp_capacity p"
    "length (rp_entries q) < rp_capacity p" "rp_deadline q = evict (rp_deadline p) (rp_victim p a)"
    by (auto simp: ok_iff)
  have "rp_deadline q a = None"
    using None by (simp add: q(5) evict_def rp_deadline_def split: option.splits)
  then have fresh: "hget (rp_entries q) a = None" by (simp add: rp_deadline_def)
  have "ok (rp_record p a d) (\<lambda>p'. rp_idx p' \<and> heap_ordered (rp_expiry p') \<and>
      rp_capacity p' = rp_capacity q \<and> rp_deadline p' = (rp_deadline q)(a \<mapsto> d) \<and>
      length (rp_expiry p') = Suc (length (rp_expiry q)))"
    using push_ok [OF _ _ fresh, of d] q None
    by (auto simp: rp_record_def m_def [symmetric] rp_inv_def Let_def elim!: ok_mono)
  then show ?thesis
    using q by (auto elim!: ok_mono simp: rp_inv_def rp_idx_def)
qed

lemma remove_ok [ok_specs]:
  assumes inv: "rp_inv p"
  shows "ok (rp_remove p a) (\<lambda>p'. rp_inv p' \<and> rp_capacity p' = rp_capacity p \<and>
           rp_deadline p' = (rp_deadline p)(a := None))"
proof (cases "hget (rp_entries p) a")
  case None
  then have "(rp_deadline p)(a := None) = rp_deadline p" by (simp add: rp_deadline_def fun_eq_iff)
  then show ?thesis using None inv by (simp add: rp_remove_def)
next
  case (Some e)
  then have e: "heap_index e < length (rp_expiry p)" "snd (rp_expiry p ! heap_index e) = a"
    using inv by (auto simp: rp_inv_def rp_idx_def)
  then have "ok (remove_at p (heap_index e)) (removed_from p (heap_index e))"
    using inv by (intro remove_at_ok) (simp_all add: rp_inv_def)
  then show ?thesis
    using Some e removed_from_inv(1) [OF inv e(1)]
    by (auto elim!: ok_mono simp: rp_remove_def removed_from_def)
qed

subsection \<open>Expiry\<close>

text \<open>The heap entries that are due; every iteration of the loop makes one of them not due.\<close>

definition due_entries :: "recent_probes \<Rightarrow> instant \<Rightarrow> (instant \<times> socket_addr) set" where
  "due_entries p now = {x \<in> set (rp_expiry p). fst x \<le> now}"

lemma finite_due [simp]: "finite (due_entries p now)"
  by (simp add: due_entries_def)

lemma has_due_iff:
  assumes "heap_ordered (rp_expiry p)"
  shows "has_due p now \<longleftrightarrow> due_entries p now \<noteq> {}"
proof (cases "rp_expiry p")
  case (Cons x xs)
  have "x \<le> y" if "y \<in> set (rp_expiry p)" for y using heap_ordered_root [OF assms that] Cons by simp
  then have le: "fst x \<le> fst y" if "y \<in> set (rp_expiry p)" for y
    using that by (cases x; cases y) (fastforce simp: less_eq_prod_def)
  have "fst x \<le> now" if "y \<in> due_entries p now" for y
    using that le [of y] by (simp add: due_entries_def)
  moreover have "x \<in> due_entries p now" if "fst x \<le> now"
    using that Cons by (simp add: due_entries_def)
  ultimately show ?thesis using Cons by (auto simp: has_due_def)
qed (simp add: has_due_def due_entries_def)

lemma advance_root_ok:
  assumes inv: "rp_inv p" and root: "rp_expiry p = (t, a) # rest"
    and e: "hget (rp_entries p) a = Some e" and late: "t \<le> now" "now < expires_at e"
  shows "ok (sift_down (p \<lparr> rp_expiry := (rp_expiry p)[0 := (expires_at e, a)] \<rparr>) 0)
           (\<lambda>p'. rp_inv p' \<and> rp_capacity p' = rp_capacity p \<and> rp_deadline p' = rp_deadline p \<and>
                 set (rp_expiry p') = insert (expires_at e, a) (set (rp_expiry p) - {(t, a)}) \<and>
                 length (rp_entries p') = length (rp_entries p))"
    (is "ok (sift_down ?q 0) _")
proof -
  have idx: "rp_idx p" and heap: "heap_ordered (rp_expiry p)" using inv by (simp_all add: rp_inv_def)
  have snds: "snd ((rp_expiry p)[0 := (expires_at e, a)] ! i) = snd (rp_expiry p ! i)" for i
    by (cases i) (simp_all add: root)
  have q: "rp_idx ?q" using idx by (simp add: rp_idx_def snds)
  have "heap_down (rp_expiry ?q) 0"
    using heap_replace(2) [OF heap, of "rp_expiry ?q" 0] by (simp add: root)
  then have "ok (sift_down ?q 0) (\<lambda>p'. rp_idx p' \<and> heap_ordered (rp_expiry p') \<and> rp_same ?q p')"
    by (rule sift_down_ok [OF q])
  moreover have "set (rp_expiry ?q) = insert (expires_at e, a) (set (rp_expiry p) - {(t, a)})"
    using rp_idx_distinct [OF idx] by (simp add: root)
  moreover have "rp_deadline ?q = rp_deadline p" by (simp add: rp_deadline_def fun_eq_iff)
  ultimately show ?thesis
    using inv by (auto elim!: ok_mono simp: rp_same_def rp_inv_def rp_idx_def)
qed

text \<open>What one call of \<open>expire\<close> with \<open>n\<close> iterations left promises.\<close>

definition expired_to :: "nat \<Rightarrow> recent_probes \<Rightarrow> instant \<Rightarrow> nat \<Rightarrow> nat \<times> recent_probes \<Rightarrow> bool" where
  "expired_to n p now r res = (case res of (r', p') \<Rightarrow>
     rp_inv p' \<and> rp_capacity p' = rp_capacity p \<and>
     (\<forall>a. rp_deadline p' a = rp_deadline p a \<or>
          (\<exists>d. rp_deadline p a = Some d \<and> d \<le> now \<and> rp_deadline p' a = None)) \<and>
     (rp_lazy p \<longrightarrow> rp_lazy p') \<and>
     r' + length (rp_entries p') = r + length (rp_entries p) \<and>
     card (due_entries p' now) = card (due_entries p now) - n)"

lemma expired_to_refl:
  "rp_inv p \<Longrightarrow> n = 0 \<or> due_entries p now = {} \<Longrightarrow> expired_to n p now r (r, p)"
  by (auto simp: expired_to_def)

lemma expired_to_step:
  assumes "expired_to n q now r' res"
    and "rp_capacity q = rp_capacity p" and "rp_lazy p \<Longrightarrow> rp_lazy q"
    and "r' + length (rp_entries q) = r + length (rp_entries p)"
    and "\<And>a. rp_deadline q a = rp_deadline p a \<or>
           (\<exists>d. rp_deadline p a = Some d \<and> d \<le> now \<and> rp_deadline q a = None)"
    and "due_entries q now = due_entries p now - {x}" and "x \<in> due_entries p now"
  shows "expired_to (Suc n) p now r res"
proof -
  have "card (due_entries q now) = card (due_entries p now) - 1"
    using assms(6,7) by simp
  moreover have "rp_deadline p' a = rp_deadline p a \<or>
      (\<exists>d. rp_deadline p a = Some d \<and> d \<le> now \<and> rp_deadline p' a = None)"
    if "rp_deadline p' a = rp_deadline q a \<or>
      (\<exists>d. rp_deadline q a = Some d \<and> d \<le> now \<and> rp_deadline p' a = None)" for a p'
    using that assms(5) [of a] by auto
  ultimately show ?thesis
    using assms(1-4) by (cases res) (simp add: expired_to_def)
qed

lemma expire_loop_ok: "rp_inv p \<Longrightarrow> ok (expire_loop n p now r) (expired_to n p now r)"
proof (induction n arbitrary: p r)
  case 0
  then show ?case by (simp add: expired_to_refl)
next
  case (Suc n)
  note inv = Suc.prems
  have heap: "heap_ordered (rp_expiry p)" using inv by (simp add: rp_inv_def)
  show ?case
  proof (cases "has_due p now")
    case False
    then have "due_entries p now = {}" using has_due_iff [OF heap] by blast
    then have "expired_to (Suc n) p now r (r, p)" using inv by (intro expired_to_refl) simp_all
    moreover have "expire_loop (Suc n) p now r = Some (r, p)"
      using False by (auto simp: has_due_def split: list.splits)
    ultimately show ?thesis by simp
  next
    case True
    then obtain t a rest where root: "rp_expiry p = (t, a) # rest" and t: "t \<le> now"
      by (auto simp: has_due_def split: list.splits)
    have due: "(t, a) \<in> due_entries p now" using root t by (simp add: due_entries_def)
    obtain e where e: "hget (rp_entries p) a = Some e"
      using rp_idx_mem [of p t a] inv root by (auto simp: rp_inv_def)
    then have dl: "rp_deadline p a = Some (expires_at e)" by (simp add: rp_deadline_def)
    show ?thesis
    proof (cases "expires_at e \<le> now")
      case exp: True
      have r0: "0 < length (rp_expiry p)" using root by simp
      obtain q where q: "remove_at p 0 = Some q" "removed_from p 0 q"
        using remove_at_ok [OF _ heap r0] inv by (auto simp: ok_iff rp_inv_def)
      note qi = removed_from_inv [OF inv r0 q(2)]
      have "expired_to (Suc n) p now r res" if "expired_to n q now (r + 1) res" for res
        using that
      proof (rule expired_to_step [where x = "(t, a)"])
        show "due_entries q now = due_entries p now - {(t, a)}"
          using q(2) root by (auto simp: due_entries_def removed_from_def)
        show "r + 1 + length (rp_entries q) = r + length (rp_entries p)"
          using q(2) inv rp_inv_len [OF qi(1)] rp_inv_len [OF inv] r0 by (simp add: removed_from_def)
      qed (use q(2) qi(2) dl exp root due in \<open>auto simp: removed_from_def\<close>)
      moreover have "expire_loop (Suc n) p now r = expire_loop n q now (r + 1)"
        using root t e exp q(1) by simp
      ultimately show ?thesis using Suc.IH [OF qi(1), of "r + 1"] by (auto elim: ok_mono)
    next
      case late: False
      then have lt: "now < expires_at e" by simp
      obtain q where q: "sift_down (p \<lparr> rp_expiry := (rp_expiry p)[0 := (expires_at e, a)] \<rparr>) 0 = Some q"
        "rp_inv q" "rp_capacity q = rp_capacity p" "rp_deadline q = rp_deadline p"
        "set (rp_expiry q) = insert (expires_at e, a) (set (rp_expiry p) - {(t, a)})"
        "length (rp_entries q) = length (rp_entries p)"
        using advance_root_ok [OF inv root e t lt] by (auto simp: ok_iff)
      have "expired_to (Suc n) p now r res" if "expired_to n q now r res" for res
        using that
      proof (rule expired_to_step [where x = "(t, a)"])
        show "due_entries q now = due_entries p now - {(t, a)}"
          using q(5) lt by (auto simp: due_entries_def)
        show "rp_lazy p \<Longrightarrow> rp_lazy q" using q(4,5) dl by (auto simp: rp_lazy_def)
      qed (use q due in simp_all)
      moreover have "expire_loop (Suc n) p now r = expire_loop n q now r"
        using root t e late q(1) by simp
      ultimately show ?thesis using Suc.IH [OF q(2), of r] by (auto elim: ok_mono)
    qed
  qed
qed

lemma expire_ok [ok_specs]: "rp_inv p \<Longrightarrow> ok (rp_expire p now) (expired_to 256 p now 0)"
  unfolding rp_expire_def by (rule expire_loop_ok)

text \<open>On a lazily refreshed heap without due entries every stored deadline lies in the future.\<close>

lemma not_due_fresh:
  assumes "rp_inv p" and "rp_lazy p" and "due_entries p now = {}" and "rp_deadline p a = Some d"
  shows "now < d"
proof -
  obtain t where t: "(t, a) \<in> set (rp_expiry p)"
    using rp_deadline_heap [OF _ assms(4)] assms(1) by (auto simp: rp_inv_def)
  have "t \<le> d" using assms(2,4) t by (auto simp: rp_lazy_def)
  moreover have "now < t" using assms(3) t by (auto simp: due_entries_def)
  ultimately show ?thesis by simp
qed

lemma rp_contains_iff:
  "rp_contains p a now \<longleftrightarrow> (\<exists>d. rp_deadline p a = Some d \<and> now < d)"
  by (auto simp: rp_contains_def rp_deadline_def split: option.splits)

lemma expired_to_deadline:
  "expired_to n p now r (r', p') \<Longrightarrow> rp_deadline p' a = rp_deadline p a \<or>
     (\<exists>d. rp_deadline p a = Some d \<and> d \<le> now \<and> rp_deadline p' a = None)"
  by (simp add: expired_to_def)

text \<open>Expiry never changes what \<open>contains\<close> answers at that time or later.\<close>

lemma expired_to_contains:
  "expired_to n p now r (r', p') \<Longrightarrow> now \<le> now' \<Longrightarrow> rp_contains p' a now' = rp_contains p a now'"
proof -
  assume ex: "expired_to n p now r (r', p')" and le: "now \<le> now'"
  from expired_to_deadline [OF ex, of a]
  show "rp_contains p' a now' = rp_contains p a now'"
    unfolding rp_contains_iff using le by (elim disjE exE conjE) simp_all
qed

lemma record_lazy:
  assumes inv: "rp_inv p" and lazy: "rp_lazy p"
    and later: "\<And>d0. rp_deadline p a = Some d0 \<Longrightarrow> d0 \<le> d"
  shows "ok (rp_record p a d) rp_lazy"
proof (cases "hget (rp_entries p) a")
  case (Some e)
  then have "expires_at e \<le> d" using later by (simp add: rp_deadline_def)
  then show ?thesis
    using lazy Some by (fastforce simp: rp_record_def rp_lazy_def rp_deadline_def split: if_splits)
next
  case None
  have push: "ok (sift_up (q \<lparr> rp_expiry := rp_expiry q @ [(d, a)],
      rp_entries := hput a \<lparr> expires_at = d, heap_index = length (rp_expiry q) \<rparr> (rp_entries q) \<rparr>)
      (length (rp_expiry q))) rp_lazy"
    if "rp_inv q" "rp_lazy q" "hget (rp_entries q) a = None" for q
  proof (rule ok_mono [OF push_ok [OF _ _ that(3)]])
    show q: "rp_idx q" "heap_ordered (rp_expiry q)" using that(1) by (simp_all add: rp_inv_def)
    have fresh: "b \<noteq> a" if "(t, b) \<in> set (rp_expiry q)" for t b
      using rp_idx_mem [OF q(1) that] \<open>hget (rp_entries q) a = None\<close> by auto
    fix p' :: recent_probes
    assume p': "rp_idx p' \<and> heap_ordered (rp_expiry p') \<and> rp_capacity p' = rp_capacity q \<and>
      rp_deadline p' = (rp_deadline q)(a \<mapsto> d) \<and> set (rp_expiry p') = insert (d, a) (set (rp_expiry q)) \<and>
      length (rp_expiry p') = Suc (length (rp_expiry q))"
    then show "rp_lazy p'" using that(2) fresh by (auto simp: rp_lazy_def split: if_splits)
  qed
  show ?thesis
  proof (cases "length (rp_entries p) = rp_capacity p")
    case True
    have root: "0 < length (rp_expiry p)" using inv True rp_inv_len [OF inv] by (simp add: rp_inv_def)
    obtain q where q: "remove_at p 0 = Some q" "removed_from p 0 q"
      using remove_at_ok [OF _ _ root] inv by (auto simp: ok_iff rp_inv_def)
    have "rp_deadline q a = None" using q(2) None by (simp add: removed_from_def rp_deadline_def)
    then have "hget (rp_entries q) a = None" by (simp add: rp_deadline_def)
    then show ?thesis
      using push [of q] removed_from_inv [OF inv root q(2)] lazy q(1) True None
      by (simp add: rp_record_def Let_def)
  next
    case False
    then show ?thesis using push [of p] inv lazy None by (simp add: rp_record_def Let_def)
  qed
qed

lemma remove_lazy:
  assumes inv: "rp_inv p" and lazy: "rp_lazy p"
  shows "ok (rp_remove p a) rp_lazy"
proof (cases "hget (rp_entries p) a")
  case (Some e)
  then have e: "heap_index e < length (rp_expiry p)" using inv by (auto simp: rp_inv_def rp_idx_def)
  then have "ok (remove_at p (heap_index e)) (removed_from p (heap_index e))"
    using inv by (intro remove_at_ok) (simp_all add: rp_inv_def)
  then show ?thesis
    using Some removed_from_inv(2) [OF inv e _ lazy] by (auto elim: ok_mono simp: rp_remove_def)
qed (simp add: rp_remove_def lazy)

subsection \<open>The cache contract\<close>

datatype probe_op = OpRecord socket_addr instant | OpRemove socket_addr | OpExpire instant

fun rp_step :: "recent_probes \<Rightarrow> probe_op \<Rightarrow> recent_probes option" where
  "rp_step p (OpRecord a d) = rp_record p a d"
| "rp_step p (OpRemove a) = rp_remove p a"
| "rp_step p (OpExpire now) = map_option snd (rp_expire p now)"

fun rp_run :: "recent_probes \<Rightarrow> probe_op list \<Rightarrow> recent_probes option" where
  "rp_run p [] = Some p"
| "rp_run p (e # es) = Option.bind (rp_step p e) (\<lambda>p'. rp_run p' es)"

fun probe_op_at :: "probe_op \<Rightarrow> instant" where
  "probe_op_at (OpExpire now) = now"
| "probe_op_at (OpRecord a d) = 0"
| "probe_op_at (OpRemove a) = 0"

fun probe_may_drop :: "recent_probes \<Rightarrow> probe_op \<Rightarrow> socket_addr \<Rightarrow> bool" where
  "probe_may_drop p (OpRecord a d) k = (k = a \<or> rp_victim p a = Some k)"
| "probe_may_drop p (OpRemove a) k = (k = a)"
| "probe_may_drop p (OpExpire now) k = False"

lemma rp_step_ok:
  assumes "rp_inv p"
  shows "ok (rp_step p e) (\<lambda>p'. rp_inv p' \<and> rp_capacity p' = rp_capacity p \<and>
           (\<forall>k d. rp_deadline p k = Some d \<longrightarrow> probe_op_at e < d \<longrightarrow> \<not> probe_may_drop p e k \<longrightarrow>
                  rp_deadline p' k = Some d))"
proof (cases e)
  case (OpRecord a d)
  then show ?thesis
    using record_ok [OF assms, of a d]
    by (auto elim!: ok_mono simp: evict_def split: option.splits)
next
  case (OpRemove a)
  then show ?thesis using remove_ok [OF assms, of a] by (auto elim!: ok_mono)
next
  case (OpExpire now)
  show ?thesis
    unfolding OpExpire rp_step.simps ok_map_option
  proof (rule ok_mono [OF expire_ok [OF assms, of now]])
    fix res assume ex: "expired_to 256 p now 0 res"
    then obtain r p' where ex: "expired_to 256 p now 0 (r, p')" "res = (r, p')" by (cases res) simp
    have "rp_deadline p' k = Some d" if "rp_deadline p k = Some d" "now < d" for k d
      using expired_to_deadline [OF ex(1), of k] that by auto
    then show "rp_inv (snd res) \<and> rp_capacity (snd res) = rp_capacity p \<and>
        (\<forall>k d. rp_deadline p k = Some d \<longrightarrow> probe_op_at (OpExpire now) < d \<longrightarrow>
               \<not> probe_may_drop p (OpExpire now) k \<longrightarrow> rp_deadline (snd res) k = Some d)"
      using ex by (simp add: expired_to_def)
  qed
qed

interpretation rp: ttl_cache rp_step rp_inv rp_deadline probe_op_at probe_may_drop
  "\<lambda>p. length (rp_entries p)" rp_capacity
proof
  fix s e
  assume inv: "rp_inv s"
  show "ok (rp_step s e) rp_inv" using rp_step_ok [OF inv, of e] by (rule ok_mono) simp
  show "length (rp_entries s) \<le> rp_capacity s" using inv by (simp add: rp_inv_def)
  fix s' assume step: "rp_step s e = Some s'"
  show "rp_capacity s' = rp_capacity s" using rp_step_ok [OF inv, of e] step by simp
  fix k d assume "rp_deadline s k = Some d" "probe_op_at e < d" "\<not> probe_may_drop s e k"
  then show "rp_deadline s' k = Some d" using rp_step_ok [OF inv, of e] step by simp
qed

lemma rp_run_eq: "rp_run p es = rp.run p es"
  by (induction es arbitrary: p) simp_all

text \<open>
  C3. The indexed heap of recent probes is correct under every sequence of its operations,
  starting empty: no index or map lookup ever panics, map and heap keep indexing each other, the
  heap order holds, and the number of entries stays within the configured capacity.
\<close>

theorem recent_probes_safe:
  "ok (rp_run (rp_new c) ops) (\<lambda>p. rp_inv p \<and> length (rp_entries p) \<le> max c 1)"
  using rp.run_bounded [OF rp_inv_new [of c], of ops] by (simp add: rp_run_eq rp_new_def)


text \<open>A heap whose root was refreshed in the map: the next \<open>expire\<close> drops only the other entry.\<close>

definition sample_probes :: recent_probes where
  "sample_probes =
     \<lparr> rp_entries = [(SockV4 [1, 2, 3, 4] 1, \<lparr> expires_at = 9, heap_index = 0 \<rparr>),
                     (SockV4 [1, 2, 3, 4] 2, \<lparr> expires_at = 6, heap_index = 1 \<rparr>)],
       rp_expiry = [(5, SockV4 [1, 2, 3, 4] 1), (6, SockV4 [1, 2, 3, 4] 2)],
       rp_capacity = 3 \<rparr>"

lemma sample_probes_inv: "rp_inv sample_probes" "rp_lazy sample_probes"
proof -
  have "rp_idx sample_probes"
    by (auto simp: rp_idx_def sample_probes_def hwf_def less_Suc_eq split: if_splits)
  moreover have "heap_ordered (rp_expiry sample_probes)"
    by (auto simp: heap_ordered_def sample_probes_def less_Suc_eq parent_of_def)
  ultimately show "rp_inv sample_probes" by (simp add: rp_inv_def sample_probes_def)
  show "rp_lazy sample_probes"
    by (simp add: rp_lazy_def sample_probes_def rp_deadline_def)
qed


end
