(* ===== verification/F64.thy ===== *)
theory F64
  imports Complex_Main Prelude "HOL-Library.Log_Nat"
begin

text \<open>
  IEEE 754 binary64 arithmetic on the finite values the program computes with.

  A finite \<open>f64\<close> is the rational it denotes. Every floating-point operation of the source is the
  exact operation on rationals followed by \<open>f64_round\<close>: round to nearest, ties to even, with a
  53-bit significand and gradual underflow below \<open>2\<^sup>-\<^sup>1\<^sup>0\<^sup>2\<^sup>2\<close>. Overflow to infinity, NaN and the sign of
  zero are left out: the operands of the program are \<open>u32\<close> rates, clock differences and token
  counts, which stay far below \<open>2\<^sup>1\<^sup>0\<^sup>2\<^sup>3\<close> and are never negative. The conversions of the language
  that the source uses are here too: \<open>as f64\<close>, \<open>as u32\<close>, \<open>as usize\<close>, \<open>round\<close>, \<open>floor\<close>, \<open>ceil\<close>,
  \<open>clamp\<close> and \<open>Duration::as_secs_f64\<close>.

  The lemmas: rounding is monotone, exact on representable values (hence idempotent, and the
  identity on integers up to \<open>2\<^sup>5\<^sup>3\<close>), has relative error at most \<open>2\<^sup>-\<^sup>5\<^sup>3\<close>, and subtracting a smaller
  integer from a value up to \<open>2\<^sup>5\<^sup>3\<close> is exact.
\<close>

type_synonym f64 = rat

named_theorems f64_simps \<open>exactness and sign facts about rounding\<close>

subsection \<open>Definitions\<close>

definition rne :: "rat \<Rightarrow> int" where
  "rne x = (let f = \<lfloor>x\<rfloor>; d = x - of_int f
            in if d < 1 / 2 then f else if 1 / 2 < d then f + 1 else if even f then f else f + 1)"

definition ilog2 :: "rat \<Rightarrow> int" where
  "ilog2 x = (case quotient_of x of (n, d) \<Rightarrow>
     let e = bitlen n - bitlen d in if 2 powi e \<le> x then e else e - 1)"

definition f64_exp :: "rat \<Rightarrow> int" where
  "f64_exp x = max (ilog2 \<bar>x\<bar>) (- 1022) - 52"

definition f64_round :: "rat \<Rightarrow> f64" where
  "f64_round x = (if x = 0 then 0 else of_int (rne (x / 2 powi f64_exp x)) * 2 powi f64_exp x)"

definition is_f64 :: "rat \<Rightarrow> bool" where
  "is_f64 x = (f64_round x = x)"

definition f64_of_nat :: "nat \<Rightarrow> f64" where
  "f64_of_nat n = f64_round (of_nat n)"

definition f64_add :: "f64 \<Rightarrow> f64 \<Rightarrow> f64" where
  "f64_add x y = f64_round (x + y)"

definition f64_sub :: "f64 \<Rightarrow> f64 \<Rightarrow> f64" where
  "f64_sub x y = f64_round (x - y)"

definition f64_mul :: "f64 \<Rightarrow> f64 \<Rightarrow> f64" where
  "f64_mul x y = f64_round (x * y)"

definition f64_div :: "f64 \<Rightarrow> f64 \<Rightarrow> f64" where
  "f64_div x y = f64_round (x / y)"

text \<open>\<open>Duration::as_secs_f64\<close>: whole seconds and the sub-second part are converted apart.\<close>

definition as_secs_f64 :: "duration \<Rightarrow> f64" where
  "as_secs_f64 d =
     f64_add (f64_of_nat (d div nanos_per_sec))
             (f64_div (f64_of_nat (d mod nanos_per_sec)) (of_nat nanos_per_sec))"

text \<open>\<open>f64::round\<close> on non-negative values (halves go up) and the saturating \<open>as\<close> casts.\<close>

definition f64_round_half_up :: "f64 \<Rightarrow> f64" where
  "f64_round_half_up x = of_int \<lfloor>x + 1 / 2\<rfloor>"

definition f64_to_nat :: "nat \<Rightarrow> f64 \<Rightarrow> nat" where
  "f64_to_nat w x = min (nat \<lfloor>x\<rfloor>) (2 ^ w - 1)"

definition f64_clamp :: "f64 \<Rightarrow> f64 \<Rightarrow> f64 \<Rightarrow> f64" where
  "f64_clamp lo hi x = (if x < lo then lo else if hi < x then hi else x)"

subsection \<open>Rounding to an integer\<close>

lemma rne_of_int [simp]: "rne (of_int n) = n"
  by (simp add: rne_def)

lemma rne_error: "\<bar>of_int (rne x) - x\<bar> \<le> 1 / 2"
proof -
  have "of_int \<lfloor>x\<rfloor> \<le> x" and "x < of_int \<lfloor>x\<rfloor> + 1" by linarith+
  then show ?thesis by (auto simp: rne_def Let_def)
qed

lemma rne_mono:
  assumes "x \<le> y"
  shows "rne x \<le> rne y"
proof -
  have fl: "\<lfloor>x\<rfloor> \<le> \<lfloor>y\<rfloor>" using assms by (rule floor_mono)
  show ?thesis
  proof (cases "\<lfloor>x\<rfloor> = \<lfloor>y\<rfloor>")
    case True
    then show ?thesis using assms by (auto simp: rne_def Let_def)
  next
    case False
    then have "\<lfloor>x\<rfloor> + 1 \<le> \<lfloor>y\<rfloor>" using fl by linarith
    moreover have "rne x \<le> \<lfloor>x\<rfloor> + 1" and "\<lfloor>y\<rfloor> \<le> rne y" by (auto simp: rne_def Let_def)
    ultimately show ?thesis by linarith
  qed
qed

lemma rne_le_int: "x \<le> of_int n \<Longrightarrow> rne x \<le> n"
  using rne_mono [of x "of_int n"] by simp

lemma rne_ge_int: "of_int n \<le> x \<Longrightarrow> n \<le> rne x"
  using rne_mono [of "of_int n" x] by simp

subsection \<open>The binary exponent\<close>

lemma powi_2_pos [simp]: "0 < (2 :: rat) powi e"
  by simp

lemma powi_2_mono: "e \<le> e' \<Longrightarrow> (2 :: rat) powi e \<le> 2 powi e'"
  by (rule power_int_increasing) simp_all

lemma powi_2_less_iff: "(2 :: rat) powi e < 2 powi e' \<longleftrightarrow> e < e'"
proof
  show "e < e' \<Longrightarrow> (2 :: rat) powi e < 2 powi e'" by (rule power_int_strict_increasing) simp_all
  show "(2 :: rat) powi e < 2 powi e' \<Longrightarrow> e < e'" using powi_2_mono [of e' e] by linarith
qed

lemma powi_2_nat: "0 \<le> e \<Longrightarrow> (2 :: rat) powi e = of_int (2 ^ nat e)"
  by (simp add: power_int_def)

lemma bitlen_powi:
  assumes "0 < n"
  shows "(2 :: rat) powi (bitlen n - 1) \<le> of_int n" and "of_int n < (2 :: rat) powi bitlen n"
proof -
  have b: "2 ^ nat (bitlen n - 1) \<le> n" "n < 2 ^ nat (bitlen n)"
    using bitlen_bounds [OF assms] by auto
  have p: "0 < bitlen n" using assms bitlen_nonneg [of n] bitlen_eq_zero_iff [of n] by linarith
  show "(2 :: rat) powi (bitlen n - 1) \<le> of_int n"
    using b(1) p by (simp add: powi_2_nat del: of_int_power)
  show "of_int n < (2 :: rat) powi bitlen n"
    using b(2) p by (simp add: powi_2_nat del: of_int_power)
qed

lemma ilog2_bounds:
  assumes "0 < x"
  shows "2 powi ilog2 x \<le> x" and "x < 2 powi (ilog2 x + 1)"
proof -
  obtain n d where q: "quotient_of x = (n, d)" by fastforce
  have d: "0 < d" using q by (rule quotient_of_denom_pos)
  have x: "x = of_int n / of_int d" using q by (rule quotient_of_div)
  have n: "0 < n" using assms d x by (simp add: zero_less_divide_iff)
  let ?k = "bitlen n" and ?l = "bitlen d"
  have lo: "2 powi (?k - ?l - 1) \<le> x"
  proof -
    have "2 powi (?k - ?l - 1) * of_int d \<le> 2 powi (?k - ?l - 1) * (2 powi ?l :: rat)"
      using bitlen_powi(2) [OF d] by simp
    also have "\<dots> = 2 powi (?k - 1)" by (simp flip: power_int_add)
    also have "\<dots> \<le> of_int n" by (rule bitlen_powi(1) [OF n])
    finally show ?thesis using d by (simp add: x pos_le_divide_eq)
  qed
  have hi: "x < 2 powi (?k - ?l + 1)"
  proof -
    have "of_int n < (2 :: rat) powi ?k" by (rule bitlen_powi(2) [OF n])
    also have "\<dots> = 2 powi (?k - ?l + 1) * 2 powi (?l - 1)" by (simp flip: power_int_add)
    also have "\<dots> \<le> 2 powi (?k - ?l + 1) * of_int d" using bitlen_powi(1) [OF d] by simp
    finally show ?thesis using d by (simp add: x pos_divide_less_eq)
  qed
  show "2 powi ilog2 x \<le> x" using lo by (simp add: ilog2_def q Let_def)
  show "x < 2 powi (ilog2 x + 1)" using hi by (simp add: ilog2_def q Let_def)
qed

lemma ilog2_unique:
  assumes "2 powi e \<le> x" and "x < 2 powi (e + 1)"
  shows "ilog2 x = e"
proof -
  have pos: "0 < x" using assms(1) powi_2_pos [of e] by linarith
  have "2 powi e < (2 :: rat) powi (ilog2 x + 1)"
    using assms(1) ilog2_bounds(2) [OF pos] by linarith
  moreover have "2 powi ilog2 x < (2 :: rat) powi (e + 1)"
    using assms(2) ilog2_bounds(1) [OF pos] by linarith
  ultimately show ?thesis unfolding powi_2_less_iff by linarith
qed

lemma ilog2_less: "0 < x \<Longrightarrow> x < 2 powi e \<Longrightarrow> ilog2 x < e"
  using ilog2_bounds(1) [of x] powi_2_less_iff [of "ilog2 x" e] by linarith

lemma ilog2_ge: "0 < x \<Longrightarrow> 2 powi e \<le> x \<Longrightarrow> e \<le> ilog2 x"
  using ilog2_bounds(2) [of x] powi_2_less_iff [of e "ilog2 x + 1"] by linarith

lemma f64_exp_ge: "- 1074 \<le> f64_exp x"
  by (simp add: f64_exp_def)

lemma f64_exp_upper: "x \<noteq> 0 \<Longrightarrow> \<bar>x\<bar> < 2 powi (f64_exp x + 53)"
proof -
  assume "x \<noteq> 0"
  then have "\<bar>x\<bar> < 2 powi (ilog2 \<bar>x\<bar> + 1)" by (intro ilog2_bounds) simp
  also have "\<dots> \<le> 2 powi (f64_exp x + 53)" by (rule powi_2_mono) (simp add: f64_exp_def)
  finally show ?thesis .
qed

lemma f64_exp_lower:
  assumes "x \<noteq> 0" and "- 1074 < f64_exp x"
  shows "2 powi (f64_exp x + 52) \<le> \<bar>x\<bar>"
proof -
  have "f64_exp x + 52 = ilog2 \<bar>x\<bar>" using assms(2) by (simp add: f64_exp_def)
  then show ?thesis using assms(1) by (simp add: ilog2_bounds)
qed

lemma f64_exp_mono: "0 < x \<Longrightarrow> x \<le> y \<Longrightarrow> f64_exp x \<le> f64_exp y"
  using ilog2_bounds(1) [of x] ilog2_ge [of y "ilog2 x"] by (simp add: f64_exp_def)

subsection \<open>Properties of rounding\<close>

lemma f64_round_0 [simp, f64_simps]: "f64_round 0 = 0"
  by (simp add: f64_round_def)

lemma scaled_less:
  assumes "x \<noteq> 0"
  shows "\<bar>x / 2 powi f64_exp x\<bar> < 2 ^ 53"
proof -
  have "\<bar>x\<bar> < 2 powi 53 * 2 powi f64_exp x"
    using f64_exp_upper [OF assms] by (simp add: power_int_add mult.commute)
  then show ?thesis by (simp add: abs_divide pos_divide_less_eq)
qed

lemma f64_round_nonneg [simp]: "0 \<le> x \<Longrightarrow> 0 \<le> f64_round x"
proof -
  assume "0 \<le> x"
  then have "0 \<le> rne (x / 2 powi f64_exp x)" by (intro rne_ge_int) simp
  then show ?thesis by (simp add: f64_round_def)
qed

lemma f64_round_le_binade:
  assumes "0 < x"
  shows "f64_round x \<le> 2 powi (f64_exp x + 53)"
proof -
  let ?e = "f64_exp x"
  have "x / 2 powi ?e \<le> of_int (2 ^ 53)"
    using scaled_less [of x] assms by (simp add: abs_of_pos)
  then have "rne (x / 2 powi ?e) \<le> 2 ^ 53" by (rule rne_le_int)
  then have "of_int (rne (x / 2 powi ?e)) \<le> (of_int (2 ^ 53) :: rat)" by (simp only: of_int_le_iff)
  then have "of_int (rne (x / 2 powi ?e)) * 2 powi ?e \<le> 2 powi 53 * (2 powi ?e :: rat)"
    by (intro mult_right_mono) simp_all
  also have "\<dots> = 2 powi (?e + 53)" by (simp add: power_int_add mult.commute)
  finally show ?thesis using assms by (simp add: f64_round_def)
qed

lemma f64_round_ge_binade:
  assumes "0 < x" and "- 1074 < f64_exp x"
  shows "2 powi (f64_exp x + 52) \<le> f64_round x"
proof -
  let ?e = "f64_exp x"
  have "2 powi 52 * 2 powi ?e \<le> x"
    using f64_exp_lower [OF _ assms(2)] assms(1) by (simp add: power_int_add mult.commute)
  then have "of_int (2 ^ 52) \<le> x / 2 powi ?e" by (simp add: pos_le_divide_eq)
  then have "2 ^ 52 \<le> rne (x / 2 powi ?e)" by (rule rne_ge_int)
  then have "of_int (2 ^ 52) \<le> (of_int (rne (x / 2 powi ?e)) :: rat)" by (simp only: of_int_le_iff)
  then have "2 powi 52 * (2 powi ?e :: rat) \<le> of_int (rne (x / 2 powi ?e)) * 2 powi ?e"
    by (intro mult_right_mono) simp_all
  moreover have "2 powi (?e + 52) = 2 powi 52 * (2 powi ?e :: rat)"
    by (simp add: power_int_add mult.commute)
  ultimately show ?thesis using assms(1) by (simp add: f64_round_def)
qed

lemma f64_round_mono:
  assumes "0 \<le> x" and "x \<le> y"
  shows "f64_round x \<le> f64_round y"
proof (cases "x = 0")
  case True
  then show ?thesis using assms by simp
next
  case False
  then have x: "0 < x" and y: "0 < y" using assms by simp_all
  let ?a = "f64_exp x" and ?b = "f64_exp y"
  show ?thesis
  proof (cases "?a = ?b")
    case True
    have "x / 2 powi ?b \<le> y / 2 powi ?b" using assms(2) by (simp add: divide_right_mono)
    then have "rne (x / 2 powi ?b) \<le> rne (y / 2 powi ?b)" by (rule rne_mono)
    then show ?thesis using x y True by (simp add: f64_round_def)
  next
    case False
    then have ab: "?a + 1 \<le> ?b" using f64_exp_mono [OF x assms(2)] by linarith
    then have b: "- 1074 < ?b" using f64_exp_ge [of x] by linarith
    have "f64_round x \<le> 2 powi (?a + 53)" using x by (rule f64_round_le_binade)
    also have "\<dots> \<le> 2 powi (?b + 52)" using ab by (intro powi_2_mono) simp
    also have "\<dots> \<le> f64_round y" using y b by (rule f64_round_ge_binade)
    finally show ?thesis .
  qed
qed

lemma f64_round_scaled:
  assumes "x = of_int m * 2 powi e" and "f64_exp x \<le> e"
  shows "f64_round x = x"
proof -
  have "x / 2 powi f64_exp x = of_int m * 2 powi (e - f64_exp x)"
    by (subst assms(1)) (simp add: power_int_diff)
  also have "\<dots> = of_int (m * 2 ^ nat (e - f64_exp x))"
    using assms(2) by (simp add: powi_2_nat)
  finally have sc: "x / 2 powi f64_exp x = of_int (m * 2 ^ nat (e - f64_exp x))" .
  have "of_int (rne (x / 2 powi f64_exp x)) = x / 2 powi f64_exp x"
    unfolding sc rne_of_int ..
  then show ?thesis by (simp add: f64_round_def)
qed

lemma f64_exact:
  assumes "\<bar>m\<bar> \<le> 2 ^ 53" and "- 1074 \<le> e"
  shows "f64_round (of_int m * 2 powi e) = of_int m * 2 powi e"
proof (cases "m = 0")
  case False
  let ?x = "of_int m * 2 powi e :: rat"
  have abs: "\<bar>?x\<bar> = of_int \<bar>m\<bar> * 2 powi e" by (simp add: abs_mult)
  show ?thesis
  proof (cases "\<bar>m\<bar> = 2 ^ 53")
    case True
    have "\<bar>?x\<bar> = 2 powi (e + 53)" unfolding abs True by (simp add: power_int_add)
    then have "ilog2 \<bar>?x\<bar> = e + 53" by (simp add: ilog2_unique powi_2_less_iff)
    then have "f64_exp ?x = e + 1" using assms(2) by (simp add: f64_exp_def)
    moreover have "even m" using True by (metis dvd_abs_iff dvd_power zero_less_numeral)
    then have "?x = of_int (m div 2) * 2 powi (e + 1)"
      by (auto elim!: evenE simp: power_int_add)
    ultimately show ?thesis by (intro f64_round_scaled [of _ "m div 2" "e + 1"]) simp_all
  next
    case False
    then have "\<bar>m\<bar> < 2 ^ 53" using assms(1) by simp
    then have "of_int \<bar>m\<bar> < (of_int (2 ^ 53) :: rat)" by (simp only: of_int_less_iff)
    then have "\<bar>?x\<bar> < 2 powi (e + 53)" unfolding abs by (simp add: power_int_add)
    then have "ilog2 \<bar>?x\<bar> < e + 53" using \<open>m \<noteq> 0\<close> by (intro ilog2_less) simp_all
    then have "f64_exp ?x \<le> e" using assms(2) by (simp add: f64_exp_def)
    then show ?thesis by (intro f64_round_scaled [of _ m e]) simp_all
  qed
qed simp

lemma f64_exact_int [f64_simps]: "\<bar>m\<bar> \<le> 2 ^ 53 \<Longrightarrow> f64_round (of_int m) = of_int m"
  using f64_exact [of m 0] by simp

lemma f64_exact_nat [f64_simps]: "n \<le> 2 ^ 53 \<Longrightarrow> f64_round (of_nat n) = of_nat n"
proof -
  assume "n \<le> 2 ^ 53"
  then have "int n \<le> int (2 ^ 53)" by (simp only: of_nat_le_iff)
  then show ?thesis using f64_exact_int [of "int n"] by simp
qed

lemma f64_of_nat_exact: "n \<le> 2 ^ 53 \<Longrightarrow> f64_of_nat n = of_nat n"
  by (simp only: f64_of_nat_def f64_exact_nat)

lemma f64_round_1 [simp, f64_simps]: "f64_round 1 = 1"
  using f64_exact_nat [of 1] by simp

lemma f64_of_nat_0 [simp]: "f64_of_nat 0 = 0"
  by (simp add: f64_of_nat_def)

lemma f64_round_form:
  obtains m where "f64_round x = of_int m * 2 powi f64_exp x" and "\<bar>m\<bar> \<le> 2 ^ 53"
proof (cases "x = 0")
  case True
  then show ?thesis using that [of 0] by simp
next
  case False
  let ?y = "x / 2 powi f64_exp x"
  have b: "?y \<le> 2 ^ 53" "- (2 ^ 53) \<le> ?y"
    using scaled_less [OF False] unfolding abs_less_iff by linarith+
  have "rne ?y \<le> 2 ^ 53" using b(1) by (intro rne_le_int) simp
  moreover have "- (2 ^ 53) \<le> rne ?y" using b(2) by (intro rne_ge_int) simp
  ultimately have "\<bar>rne ?y\<bar> \<le> 2 ^ 53" by linarith
  then show ?thesis using that [of "rne ?y"] False by (simp add: f64_round_def)
qed

lemma f64_round_idem [simp, f64_simps]: "f64_round (f64_round x) = f64_round x"
  by (metis f64_exact f64_exp_ge f64_round_form)

lemma is_f64_round [simp]: "is_f64 (f64_round x)"
  by (simp add: is_f64_def)

lemma is_f64_0 [simp]: "is_f64 0"
  by (simp add: is_f64_def)

lemma f64_round_le: "0 \<le> x \<Longrightarrow> x \<le> y \<Longrightarrow> is_f64 y \<Longrightarrow> f64_round x \<le> y"
  using f64_round_mono [of x y] by (simp add: is_f64_def)

lemma f64_round_ge: "0 \<le> y \<Longrightarrow> y \<le> x \<Longrightarrow> is_f64 y \<Longrightarrow> y \<le> f64_round x"
  using f64_round_mono [of y x] by (simp add: is_f64_def)

lemma f64_round_error: "\<bar>f64_round x - x\<bar> \<le> 2 powi (f64_exp x - 1)"
proof (cases "x = 0")
  case False
  let ?p = "2 powi f64_exp x :: rat"
  have "f64_round x - x = (of_int (rne (x / ?p)) - x / ?p) * ?p"
    using False by (simp add: f64_round_def left_diff_distrib)
  then have "\<bar>f64_round x - x\<bar> = \<bar>of_int (rne (x / ?p)) - x / ?p\<bar> * ?p"
    by (simp add: abs_mult)
  also have "\<dots> \<le> 1 / 2 * ?p" by (intro mult_right_mono rne_error) simp
  finally show ?thesis by (simp add: power_int_diff)
qed simp

lemma f64_round_rel_error:
  assumes "2 powi (- 1022) \<le> \<bar>x\<bar>"
  shows "\<bar>f64_round x - x\<bar> \<le> \<bar>x\<bar> / 2 ^ 53"
proof -
  have x: "0 < \<bar>x\<bar>" using assms powi_2_pos [of "- 1022"] by linarith
  then have "- 1022 \<le> ilog2 \<bar>x\<bar>" using assms by (intro ilog2_ge)
  then have e: "f64_exp x = ilog2 \<bar>x\<bar> - 52" by (simp add: f64_exp_def)
  have "\<bar>f64_round x - x\<bar> \<le> 2 powi (ilog2 \<bar>x\<bar> - 53)"
    using f64_round_error [of x] by (simp add: e)
  also have "\<dots> = 2 powi ilog2 \<bar>x\<bar> / 2 ^ 53" by (simp add: power_int_diff)
  also have "\<dots> \<le> \<bar>x\<bar> / 2 ^ 53" using ilog2_bounds(1) [OF x] by (intro divide_right_mono) simp_all
  finally show ?thesis .
qed

text \<open>The upper half of the error bound, in the form the token bucket uses.\<close>

lemma f64_round_upper:
  assumes "x = 0 \<or> 2 powi (- 1022) \<le> x"
  shows "f64_round x \<le> x + x / 2 ^ 53"
proof (cases "x = 0")
  case False
  then have x: "2 powi (- 1022) \<le> x" using assms by simp
  then have "0 < x" using powi_2_pos [of "- 1022"] by linarith
  then have "\<bar>f64_round x - x\<bar> \<le> x / 2 ^ 53" using f64_round_rel_error [of x] x by simp
  then show ?thesis by linarith
qed simp

text \<open>Subtracting an integer from a larger representable value up to \<open>2\<^sup>5\<^sup>3\<close> loses nothing.\<close>

lemma is_f64_sub_nat:
  assumes "is_f64 t" and "of_nat n \<le> t" and "t \<le> 2 ^ 53"
  shows "is_f64 (t - of_nat n)"
proof (cases "t = 0 \<or> t = 2 ^ 53")
  case True
  then consider "t = 0" | "t = 2 ^ 53" by blast
  then show ?thesis
  proof cases
    case 1
    then show ?thesis using assms(2) by simp
  next
    case 2
    then have "(of_nat n :: rat) \<le> of_nat (2 ^ 53)" using assms(2) by simp
    then have "n \<le> 2 ^ 53" by (simp only: of_nat_le_iff)
    moreover have "t - of_nat n = of_nat (2 ^ 53 - n)" using 2 calculation by (simp add: of_nat_diff)
    ultimately show ?thesis unfolding is_f64_def by (simp only: f64_exact_nat diff_le_self)
  qed
next
  case False
  have "0 \<le> t" using assms(2) of_nat_0_le_iff [where 'a = rat, of n] by linarith
  then have t: "0 < t" "t < 2 powi 53" using False assms(3) by simp_all
  let ?e = "f64_exp t"
  have "ilog2 t < 53" using t by (intro ilog2_less)
  then have e: "?e \<le> 0" using t(1) by (simp add: f64_exp_def)
  obtain m where m: "f64_round t = of_int m * 2 powi ?e" "\<bar>m\<bar> \<le> 2 ^ 53" by (rule f64_round_form)
  then have tm: "t = of_int m * 2 powi ?e" using assms(1) by (simp add: is_f64_def)
  define k where "k = m - int n * 2 ^ nat (- ?e)"
  have "(2 :: rat) ^ nat (- ?e) = 2 powi (- ?e)" using e powi_2_nat [of "- ?e"] by simp
  then have one: "(2 :: rat) ^ nat (- ?e) * 2 powi ?e = 1" by (simp flip: power_int_add)
  have k: "t - of_nat n = of_int k * 2 powi ?e"
    by (subst tm) (simp add: k_def left_diff_distrib mult.assoc one)
  have "0 \<le> of_int k * (2 powi ?e :: rat)" using assms(2) k by linarith
  then have "0 \<le> k" by (metis not_le of_int_0_le_iff powi_2_pos zero_le_mult_iff)
  moreover have "k \<le> m" by (simp add: k_def)
  ultimately have "\<bar>k\<bar> \<le> 2 ^ 53" using m(2) by linarith
  then show ?thesis unfolding is_f64_def k by (rule f64_exact [OF _ f64_exp_ge])
qed

lemma is_f64_of_nat: "n \<le> 2 ^ 53 \<Longrightarrow> is_f64 (of_nat n)"
  by (simp only: is_f64_def f64_exact_nat)

subsection \<open>Elapsed time\<close>

lemma as_secs_f64_nonneg [simp]: "0 \<le> as_secs_f64 d"
  by (simp add: as_secs_f64_def f64_add_def f64_of_nat_def f64_div_def)

lemma as_secs_f64_0 [simp]: "as_secs_f64 0 = 0"
  by (simp add: as_secs_f64_def f64_add_def f64_div_def)

lemma as_secs_f64_ge_secs:
  assumes "secs n \<le> d" and "n \<le> 2 ^ 53"
  shows "of_nat n \<le> as_secs_f64 d"
proof -
  have "n \<le> d div nanos_per_sec" using div_le_mono [OF assms(1), of nanos_per_sec] by simp
  then have "f64_round (of_nat n) \<le> f64_of_nat (d div nanos_per_sec)"
    unfolding f64_of_nat_def by (intro f64_round_mono) simp_all
  moreover have "0 \<le> f64_div (f64_of_nat (d mod nanos_per_sec)) (of_nat nanos_per_sec)"
    by (simp add: f64_div_def f64_of_nat_def)
  ultimately have "of_nat n \<le> f64_of_nat (d div nanos_per_sec)
      + f64_div (f64_of_nat (d mod nanos_per_sec)) (of_nat nanos_per_sec)"
    using f64_exact_nat [OF assms(2)] by linarith
  then show ?thesis
    unfolding as_secs_f64_def f64_add_def
    by (intro f64_round_ge is_f64_of_nat assms(2)) simp_all
qed

text \<open>Values that are zero or not tiny, so that the relative error bound applies to them.\<close>

definition not_tiny :: "nat \<Rightarrow> rat \<Rightarrow> bool" where
  "not_tiny k x = (x = 0 \<or> 2 powi (- int k) \<le> x)"

lemma not_tiny_nonneg: "not_tiny k x \<Longrightarrow> 0 \<le> x"
  using powi_2_pos [of "- int k"] unfolding not_tiny_def by linarith

lemma not_tiny_add: "not_tiny k x \<Longrightarrow> not_tiny k y \<Longrightarrow> not_tiny k (x + y)"
  using not_tiny_nonneg [of k x] not_tiny_nonneg [of k y] by (auto simp: not_tiny_def)

lemma not_tiny_weaken: "not_tiny j x \<Longrightarrow> j \<le> k \<Longrightarrow> not_tiny k x"
  using powi_2_mono [of "- int k" "- int j"] by (auto simp: not_tiny_def)

lemma not_tiny_mult: "not_tiny j x \<Longrightarrow> not_tiny k y \<Longrightarrow> not_tiny (j + k) (x * y)"
proof -
  assume x: "not_tiny j x" and y: "not_tiny k y"
  show ?thesis
  proof (cases "x = 0 \<or> y = 0")
    case False
    then have "2 powi (- int j) * 2 powi (- int k) \<le> x * y"
      using x y by (intro mult_mono) (auto simp: not_tiny_def not_tiny_nonneg)
    moreover have "2 powi (- int (j + k)) = 2 powi (- int j) * (2 powi (- int k) :: rat)"
      by (simp flip: power_int_add)
    ultimately show ?thesis by (simp add: not_tiny_def)
  qed (auto simp: not_tiny_def)
qed

lemma not_tiny_round: "not_tiny k x \<Longrightarrow> k \<le> 1022 \<Longrightarrow> not_tiny k (f64_round x)"
proof -
  assume x: "not_tiny k x" and k: "k \<le> 1022"
  have "is_f64 (2 powi (- int k))" using f64_exact [of 1 "- int k"] k by (simp add: is_f64_def)
  then show ?thesis using x by (auto simp: not_tiny_def intro!: f64_round_ge)
qed

lemma not_tiny_upper: "not_tiny k x \<Longrightarrow> k \<le> 1022 \<Longrightarrow> f64_round x \<le> x + x / 2 ^ 53"
  using not_tiny_weaken [of k x 1022] by (intro f64_round_upper) (simp add: not_tiny_def)

lemma not_tiny_of_nat: "not_tiny k (of_nat n)"
proof (cases n)
  case (Suc m)
  have "2 powi (- int k) \<le> (2 powi 0 :: rat)" by (rule powi_2_mono) simp
  also have "\<dots> \<le> of_nat n" by (simp add: Suc)
  finally show ?thesis by (simp add: not_tiny_def)
qed (simp add: not_tiny_def)

lemma not_tiny_nanos: "not_tiny 30 (of_nat n / of_nat nanos_per_sec)"
proof (cases n)
  case (Suc m)
  have "2 powi (- int 30) \<le> (1 / of_nat nanos_per_sec :: rat)" by (simp add: power_int_def power_one_over)
  also have "\<dots> \<le> of_nat n / of_nat nanos_per_sec" by (simp add: Suc)
  finally show ?thesis by (simp add: not_tiny_def)
qed (simp add: not_tiny_def)

lemma as_secs_f64_parts:
  fixes d :: nat
  defines "a \<equiv> d div nanos_per_sec" and "b \<equiv> d mod nanos_per_sec"
  shows "as_secs_f64 d = f64_round (f64_round (of_nat a) + f64_round (of_nat b / of_nat nanos_per_sec))"
proof -
  have "b < nanos_per_sec" unfolding b_def by (rule mod_less_divisor) simp
  then have "b \<le> 2 ^ 53" by simp
  then show ?thesis
    unfolding as_secs_f64_def f64_add_def f64_div_def a_def [symmetric] b_def [symmetric]
    by (simp only: f64_of_nat_exact f64_of_nat_def f64_exact_nat)
qed

lemma as_secs_f64_not_tiny: "not_tiny 30 (as_secs_f64 d)"
  unfolding as_secs_f64_parts
  by (intro not_tiny_round not_tiny_add not_tiny_nanos not_tiny_of_nat) simp_all

text \<open>The computed number of seconds exceeds the true one by at most a factor \<open>1 + 2\<^sup>-\<^sup>5\<^sup>1\<close>.\<close>

lemma as_secs_f64_upper: "as_secs_f64 d \<le> of_nat d / of_nat nanos_per_sec * (1 + 1 / 2 ^ 51)"
proof -
  let ?a = "of_nat (d div nanos_per_sec) :: rat"
  let ?b = "of_nat (d mod nanos_per_sec) / of_nat nanos_per_sec :: rat"
  let ?s = "f64_round ?a + f64_round ?b"
  have "d = nanos_per_sec * (d div nanos_per_sec) + d mod nanos_per_sec" by simp
  then have "(of_nat d :: rat) =
      of_nat nanos_per_sec * of_nat (d div nanos_per_sec) + of_nat (d mod nanos_per_sec)"
    by (metis of_nat_add of_nat_mult)
  then have ab: "of_nat d / of_nat nanos_per_sec = ?a + ?b" by (simp add: add_divide_distrib)
  have "f64_round ?a \<le> ?a + ?a / 2 ^ 53" by (rule not_tiny_upper [OF not_tiny_of_nat [of 0]]) simp
  moreover have "f64_round ?b \<le> ?b + ?b / 2 ^ 53" by (rule not_tiny_upper [OF not_tiny_nanos]) simp
  ultimately have s: "?s \<le> (?a + ?b) * (1 + 1 / 2 ^ 53)" by (simp add: field_simps)
  have "not_tiny 30 ?s"
    by (intro not_tiny_add not_tiny_round not_tiny_nanos not_tiny_of_nat) simp_all
  then have "f64_round ?s \<le> ?s + ?s / 2 ^ 53" by (rule not_tiny_upper) simp
  also have "\<dots> = ?s * (1 + 1 / 2 ^ 53)"
    by (simp only: distrib_left mult_1_right times_divide_eq_right)
  also have "\<dots> \<le> (?a + ?b) * (1 + 1 / 2 ^ 53) * (1 + 1 / 2 ^ 53)"
    using s by (intro mult_right_mono) simp_all
  also have "\<dots> \<le> (?a + ?b) * (1 + 1 / 2 ^ 51)"
    unfolding mult.assoc by (intro mult_left_mono) simp_all
  finally show ?thesis unfolding as_secs_f64_parts ab .
qed

text \<open>Below a bound of at least one, the absolute error is at most \<open>2\<^sup>-\<^sup>5\<^sup>3\<close> of the bound.\<close>

lemma f64_round_upper_bounded:
  assumes "0 \<le> x" and "x \<le> c" and "1 \<le> c"
  shows "f64_round x \<le> x + c / 2 ^ 53"
proof (cases "2 powi (- 1022) \<le> x")
  case True
  then have "f64_round x \<le> x + x / 2 ^ 53" by (intro f64_round_upper) simp
  then show ?thesis using assms(2) by (simp add: field_simps)
next
  case False
  have "ilog2 x < - 1022" if "x \<noteq> 0" using False assms(1) that by (intro ilog2_less) simp_all
  then have e: "f64_exp x = - 1074" if "x \<noteq> 0" using assms(1) that by (simp add: f64_exp_def)
  have "(2 :: rat) powi (- 1075) \<le> 2 powi (- 53)" by (rule powi_2_mono) simp
  also have "\<dots> = 1 / 2 ^ 53" by (simp add: power_int_def power_one_over)
  also have "\<dots> \<le> c / 2 ^ 53" using assms(3) by (simp add: divide_right_mono)
  finally have tiny: "(2 :: rat) powi (- 1075) \<le> c / 2 ^ 53" .
  show ?thesis
  proof (cases "x = 0")
    case False
    then have "\<bar>f64_round x - x\<bar> \<le> 2 powi (- 1075)" using f64_round_error [of x] e by simp
    then show ?thesis using tiny by linarith
  qed (use assms(3) in simp)
qed

end
