(* ===== verification/Rate_Bucket.thy ===== *)
theory Rate_Bucket
  imports F64
begin

text \<open>
  The token bucket of \<open>src/src/budget.rs\<close>, in the binary64 arithmetic the source computes in.

  \<open>rate_bucket\<close> is the struct \<open>RateBucket\<close>; \<open>per_second\<close>, \<open>per_minute\<close> and \<open>rb_new\<close> its constructors,
  \<open>refill\<close>, \<open>try_take_exact\<close>, \<open>try_take_one\<close>, \<open>try_take\<close>, \<open>refund\<close>, \<open>refund_one\<close> and
  \<open>set_per_second_rate\<close> its methods; each returns the updated bucket next to its result.
  \<open>rb_wf\<close> is the invariant: the token count is a representable number between zero and the
  capacity. The locale \<open>metered\<close> is the contract of a budget whose grants are paid for by its
  level, its income over time and a bounded rounding slack; it is interpreted on the bucket.
\<close>

record rate_bucket =
  rb_rate_per_sec :: f64
  rb_capacity :: f64
  rb_tokens :: f64
  rb_last_refill :: instant

definition f64_of_u32 :: "u32 \<Rightarrow> f64" where
  "f64_of_u32 n = of_nat (unat n)"

definition rb_new :: "f64 \<Rightarrow> f64 \<Rightarrow> bool \<Rightarrow> instant \<Rightarrow> rate_bucket" where
  "rb_new rate_per_sec capacity initially_full now =
     (let capacity = (if rate_per_sec \<le> 0 then 0 else max capacity 1)
      in \<lparr> rb_rate_per_sec = rate_per_sec,
           rb_capacity = capacity,
           rb_tokens = (if initially_full then capacity else 0),
           rb_last_refill = now \<rparr>)"

definition per_second :: "u32 \<Rightarrow> u32 \<Rightarrow> bool \<Rightarrow> instant \<Rightarrow> rate_bucket" where
  "per_second rate_per_sec burst initially_full now =
     rb_new (f64_of_u32 rate_per_sec) (f64_of_u32 burst) initially_full now"

definition per_minute :: "u32 \<Rightarrow> u32 \<Rightarrow> bool \<Rightarrow> instant \<Rightarrow> rate_bucket" where
  "per_minute rate_per_minute burst initially_full now =
     rb_new (f64_div (f64_of_u32 rate_per_minute) 60) (f64_of_u32 burst) initially_full now"

definition refill :: "rate_bucket \<Rightarrow> instant \<Rightarrow> rate_bucket" where
  "refill b now =
     (let elapsed = as_secs_f64 (now - rb_last_refill b)
      in if 0 < elapsed
         then b \<lparr> rb_tokens := min (f64_add (rb_tokens b) (f64_mul elapsed (rb_rate_per_sec b)))
                                 (rb_capacity b),
                  rb_last_refill := now \<rparr>
         else b)"

definition set_per_second_rate :: "rate_bucket \<Rightarrow> u32 \<Rightarrow> instant \<Rightarrow> rate_bucket" where
  "set_per_second_rate b rate_per_sec now =
     (let b = (refill b now) \<lparr> rb_rate_per_sec := f64_of_u32 rate_per_sec \<rparr>
      in if rb_rate_per_sec b \<le> 0 then b \<lparr> rb_tokens := 0 \<rparr>
         else b \<lparr> rb_tokens := min (rb_tokens b) (rb_capacity b) \<rparr>)"

definition try_take_exact :: "rate_bucket \<Rightarrow> nat \<Rightarrow> instant \<Rightarrow> bool \<times> rate_bucket" where
  "try_take_exact b count now =
     (if count = 0 then (True, b)
      else if rb_rate_per_sec b \<le> 0 \<or> rb_capacity b \<le> 0 then (False, b)
      else let b = refill b now
           in if rb_tokens b < f64_of_nat count then (False, b)
              else (True, b \<lparr> rb_tokens := f64_sub (rb_tokens b) (f64_of_nat count) \<rparr>))"

definition try_take_one :: "rate_bucket \<Rightarrow> instant \<Rightarrow> bool \<times> rate_bucket" where
  "try_take_one b now = try_take_exact b 1 now"

definition try_take :: "rate_bucket \<Rightarrow> nat \<Rightarrow> instant \<Rightarrow> nat \<times> rate_bucket" where
  "try_take b mx now =
     (if mx = 0 \<or> rb_rate_per_sec b \<le> 0 \<or> rb_capacity b \<le> 0 then (0, b)
      else let b = refill b now;
               taken = min (f64_to_nat 64 (rb_tokens b)) mx
           in (taken, b \<lparr> rb_tokens := f64_sub (rb_tokens b) (f64_of_nat taken) \<rparr>))"

definition refund :: "rate_bucket \<Rightarrow> nat \<Rightarrow> rate_bucket" where
  "refund b count =
     b \<lparr> rb_tokens := min (f64_add (rb_tokens b) (f64_of_nat count)) (rb_capacity b) \<rparr>"

definition refund_one :: "rate_bucket \<Rightarrow> rate_bucket" where
  "refund_one b = refund b 1"

subsection \<open>The invariant\<close>

definition rb_wf :: "rate_bucket \<Rightarrow> bool" where
  "rb_wf b = (not_tiny 6 (rb_rate_per_sec b) \<and>
              (rb_capacity b = 0 \<or> 1 \<le> rb_capacity b \<and> rb_capacity b < 2 ^ 32) \<and>
              is_f64 (rb_capacity b) \<and> is_f64 (rb_tokens b) \<and>
              0 \<le> rb_tokens b \<and> rb_tokens b \<le> rb_capacity b)"

lemma f64_of_u32_less: "f64_of_u32 n < 2 ^ 32"
proof -
  have "unat n < 2 ^ 32" using unsigned_less [of n, where ?'a = nat] by simp
  then have "(of_nat (unat n) :: rat) < of_nat (2 ^ 32)" by (simp only: of_nat_less_iff)
  then show ?thesis by (simp add: f64_of_u32_def)
qed

lemma is_f64_of_u32 [simp]: "is_f64 (f64_of_u32 n)"
proof -
  have "unat n < 2 ^ 32" using unsigned_less [of n, where ?'a = nat] by simp
  then show ?thesis unfolding f64_of_u32_def by (intro is_f64_of_nat) simp
qed

lemma not_tiny_u32: "not_tiny k (f64_of_u32 n)"
  unfolding f64_of_u32_def by (rule not_tiny_of_nat)

lemma f64_of_u32_nonneg [simp]: "0 \<le> f64_of_u32 n"
  unfolding f64_of_u32_def by (rule of_nat_0_le_iff)

lemma not_tiny_per_minute: "not_tiny 6 (f64_div (f64_of_u32 n) 60)"
proof -
  have "not_tiny 6 (f64_of_u32 n / 60)"
  proof (cases "unat n")
    case (Suc m)
    have "2 powi (- int 6) \<le> (1 / 60 :: rat)" by (simp add: power_int_def power_one_over)
    also have "\<dots> \<le> f64_of_u32 n / 60" by (simp add: f64_of_u32_def Suc)
    finally show ?thesis by (simp add: not_tiny_def)
  qed (simp add: f64_of_u32_def not_tiny_def)
  then show ?thesis unfolding f64_div_def by (rule not_tiny_round) simp
qed

lemma rb_wf_new:
  assumes "not_tiny 6 r" and "is_f64 c" and "0 \<le> c" and "c < 2 ^ 32"
  shows "rb_wf (rb_new r c full now)"
  using assms by (auto simp: rb_wf_def rb_new_def Let_def max_def is_f64_def)

lemma rb_wf_per_second [simp]: "rb_wf (per_second r c full now)"
  unfolding per_second_def
  by (intro rb_wf_new not_tiny_u32 is_f64_of_u32 f64_of_u32_less f64_of_u32_nonneg)

lemma rb_wf_per_minute [simp]: "rb_wf (per_minute r c full now)"
  unfolding per_minute_def
  by (intro rb_wf_new not_tiny_per_minute is_f64_of_u32 f64_of_u32_less f64_of_u32_nonneg)

lemma rb_wf_cap_nonneg: "rb_wf b \<Longrightarrow> 0 \<le> rb_capacity b"
  by (auto simp: rb_wf_def)

lemma rb_wf_rate_nonneg: "rb_wf b \<Longrightarrow> 0 \<le> rb_rate_per_sec b"
  by (auto simp: rb_wf_def dest: not_tiny_nonneg)

lemma rb_wf_set_tokens:
  "rb_wf b \<Longrightarrow> is_f64 t \<Longrightarrow> 0 \<le> t \<Longrightarrow> t \<le> rb_capacity b \<Longrightarrow> rb_wf (b \<lparr> rb_tokens := t \<rparr>)"
  by (simp add: rb_wf_def)

lemma is_f64_min: "is_f64 x \<Longrightarrow> is_f64 y \<Longrightarrow> is_f64 (min x y)"
  by (simp add: min_def)

lemma rb_wf_refill [simp]: "rb_wf b \<Longrightarrow> rb_wf (refill b now)"
proof -
  assume wf: "rb_wf b"
  let ?t = "f64_add (rb_tokens b) (f64_mul (as_secs_f64 (now - rb_last_refill b)) (rb_rate_per_sec b))"
  have "0 \<le> ?t" using wf rb_wf_rate_nonneg [OF wf] by (simp add: f64_add_def f64_mul_def rb_wf_def)
  moreover have "is_f64 ?t" by (simp add: f64_add_def)
  ultimately show ?thesis
    using wf rb_wf_cap_nonneg [OF wf] by (simp add: refill_def Let_def rb_wf_def is_f64_min)
qed

lemma refill_static [simp]:
  "rb_rate_per_sec (refill b now) = rb_rate_per_sec b"
  "rb_capacity (refill b now) = rb_capacity b"
  by (simp_all add: refill_def Let_def)

lemma take_exact_tokens:
  assumes "rb_wf b" and "f64_of_nat n \<le> rb_tokens b"
  shows "f64_of_nat n = of_nat n"
    and "f64_sub (rb_tokens b) (f64_of_nat n) = rb_tokens b - of_nat n"
proof -
  have t: "rb_tokens b < 2 ^ 53" "is_f64 (rb_tokens b)" using assms(1) by (auto simp: rb_wf_def)
  have "n \<le> 2 ^ 53"
  proof (rule ccontr)
    assume "\<not> n \<le> 2 ^ 53"
    then have "(of_nat (2 ^ 53) :: rat) \<le> of_nat n" by (simp only: of_nat_le_iff)
    then have "of_nat (2 ^ 53) \<le> f64_of_nat n"
      unfolding f64_of_nat_def by (intro f64_round_ge is_f64_of_nat) simp_all
    then show False using assms(2) t(1) by simp
  qed
  then show n: "f64_of_nat n = of_nat n" by (rule f64_of_nat_exact)
  show "f64_sub (rb_tokens b) (f64_of_nat n) = rb_tokens b - of_nat n"
    using is_f64_sub_nat [OF t(2), of n] assms(2) t(1) by (simp add: n f64_sub_def is_f64_def)
qed

lemma rb_wf_take:
  assumes "rb_wf b" and "f64_of_nat n \<le> rb_tokens b"
  shows "rb_wf (b \<lparr> rb_tokens := f64_sub (rb_tokens b) (f64_of_nat n) \<rparr>)"
proof (rule rb_wf_set_tokens [OF assms(1)])
  note eq = take_exact_tokens [OF assms]
  show "is_f64 (f64_sub (rb_tokens b) (f64_of_nat n))" by (simp add: f64_sub_def)
  show "0 \<le> f64_sub (rb_tokens b) (f64_of_nat n)" using assms(2) eq by simp
  have "(0 :: rat) \<le> of_nat n" by (rule of_nat_0_le_iff)
  then show "f64_sub (rb_tokens b) (f64_of_nat n) \<le> rb_capacity b"
    unfolding eq(2) using assms(1) by (simp add: rb_wf_def)
qed

lemma rb_wf_try_take_exact [simp]: "rb_wf b \<Longrightarrow> rb_wf (snd (try_take_exact b n now))"
  by (simp add: try_take_exact_def Let_def rb_wf_take)

lemma rb_wf_try_take_one [simp]: "rb_wf b \<Longrightarrow> rb_wf (snd (try_take_one b now))"
  by (simp add: try_take_one_def)

lemma f64_to_nat_le: "0 \<le> x \<Longrightarrow> x < 2 ^ 53 \<Longrightarrow> f64_of_nat (min (f64_to_nat 64 x) m) \<le> x"
proof -
  assume x: "0 \<le> x" "x < 2 ^ 53"
  have "of_int \<lfloor>x\<rfloor> \<le> x" by (rule of_int_floor_le)
  then have fl: "(of_nat (nat \<lfloor>x\<rfloor>) :: rat) \<le> x" using x(1) by simp
  have le: "min (f64_to_nat 64 x) m \<le> nat \<lfloor>x\<rfloor>" by (simp add: f64_to_nat_def)
  then have r: "(of_nat (min (f64_to_nat 64 x) m) :: rat) \<le> x" using fl by (meson of_nat_mono order_trans)
  then have "(of_nat (min (f64_to_nat 64 x) m) :: rat) \<le> of_nat (2 ^ 53)" using x(2) by simp
  then have "min (f64_to_nat 64 x) m \<le> 2 ^ 53" by (simp only: of_nat_le_iff)
  then show ?thesis using r by (simp only: f64_of_nat_exact)
qed

lemma try_take_fits:
  "rb_wf b \<Longrightarrow> f64_of_nat (min (f64_to_nat 64 (rb_tokens b)) m) \<le> rb_tokens b"
  by (rule f64_to_nat_le) (auto simp: rb_wf_def)

lemma rb_wf_try_take [simp]: "rb_wf b \<Longrightarrow> rb_wf (snd (try_take b n now))"
  by (simp add: try_take_def Let_def rb_wf_take try_take_fits)

lemma rb_wf_refund [simp]: "rb_wf b \<Longrightarrow> rb_wf (refund b n)"
  unfolding refund_def
  by (rule rb_wf_set_tokens)
     (auto simp: f64_add_def f64_of_nat_def rb_wf_def is_f64_min)

lemma rb_wf_refund_one [simp]: "rb_wf b \<Longrightarrow> rb_wf (refund_one b)"
  by (simp add: refund_one_def)

lemma rb_wf_set_per_second_rate [simp]: "rb_wf b \<Longrightarrow> rb_wf (set_per_second_rate b r now)"
proof -
  assume "rb_wf b"
  then have "rb_wf (refill b now)" by simp
  then show ?thesis
    by (auto simp: set_per_second_rate_def Let_def rb_wf_def not_tiny_u32 is_f64_min)
qed

subsection \<open>Metering\<close>

text \<open>
  A metered budget: an operation has a net grant (tokens handed out less tokens returned), and
  what it grants is paid for by the drop of the level, by income proportional to the time its
  clock advanced, and by a fixed slack per operation.
\<close>

locale metered =
  fixes op :: "'b \<Rightarrow> 'e \<Rightarrow> int \<times> 'b"
    and wf :: "'b \<Rightarrow> bool"
    and level :: "'b \<Rightarrow> rat"
    and clock :: "'b \<Rightarrow> nat"
    and income :: "'b \<Rightarrow> rat"
    and slack :: "'b \<Rightarrow> rat"
  assumes op_wf: "wf b \<Longrightarrow> wf (snd (op b e))"
    and level_nonneg: "wf b \<Longrightarrow> 0 \<le> level b"
    and clock_mono: "clock b \<le> clock (snd (op b e))"
    and op_static: "income (snd (op b e)) = income b" "slack (snd (op b e)) = slack b"
    and op_paid: "wf b \<Longrightarrow> of_int (fst (op b e)) + level (snd (op b e))
                    \<le> level b + income b * of_nat (clock (snd (op b e)) - clock b) + slack b"
begin

fun run :: "'b \<Rightarrow> 'e list \<Rightarrow> int \<times> 'b" where
  "run b [] = (0, b)"
| "run b (e # es) = (let (g, b') = op b e; (h, b'') = run b' es in (g + h, b''))"

lemma run_wf: "wf b \<Longrightarrow> wf (snd (run b es))"
  by (induction es arbitrary: b) (auto simp: case_prod_beta Let_def op_wf)

lemma run_clock: "clock b \<le> clock (snd (run b es))"
proof (induction es arbitrary: b)
  case (Cons e es)
  have "clock b \<le> clock (snd (run (snd (op b e)) es))"
    using clock_mono Cons by (rule order_trans)
  then show ?case by (simp add: case_prod_beta Let_def)
qed simp

lemma run_paid:
  assumes "wf b"
  shows "of_int (fst (run b es)) + level (snd (run b es))
           \<le> level b + income b * of_nat (clock (snd (run b es)) - clock b)
             + of_nat (length es) * slack b"
  using assms
proof (induction es arbitrary: b)
  case (Cons e es)
  let ?b = "snd (op b e)" and ?r = "run (snd (op b e)) es"
  have "of_int (fst ?r) + level (snd ?r)
      \<le> level ?b + income b * of_nat (clock (snd ?r) - clock ?b) + of_nat (length es) * slack b"
    using Cons.IH [OF op_wf [OF Cons.prems]] by (simp add: op_static)
  moreover have "of_int (fst (op b e)) + level ?b
      \<le> level b + income b * of_nat (clock ?b - clock b) + slack b"
    using Cons.prems by (rule op_paid)
  moreover have "clock (snd ?r) - clock b = (clock (snd ?r) - clock ?b) + (clock ?b - clock b)"
    using clock_mono [of b e] run_clock [of ?b es] by simp
  ultimately show ?case by (simp add: case_prod_beta Let_def algebra_simps)
qed simp

lemma run_granted:
  assumes "wf b"
  shows "of_int (fst (run b es))
           \<le> level b + income b * of_nat (clock (snd (run b es)) - clock b)
             + of_nat (length es) * slack b"
  using run_paid [OF assms, of es] level_nonneg [OF run_wf [OF assms, of es]] by linarith

end

datatype bucket_op = TakeExact nat instant | TakeUpTo nat instant | Refund nat

fun bucket_step :: "rate_bucket \<Rightarrow> bucket_op \<Rightarrow> int \<times> rate_bucket" where
  "bucket_step b (TakeExact n now) =
     (let (granted, b') = try_take_exact b n now in (if granted then int n else 0, b'))"
| "bucket_step b (TakeUpTo n now) = (let (taken, b') = try_take b n now in (int taken, b'))"
| "bucket_step b (Refund n) = (- int n, refund b n)"

definition bucket_income :: "rate_bucket \<Rightarrow> rat" where
  "bucket_income b = rb_rate_per_sec b / of_nat nanos_per_sec * (1 + 1 / 2 ^ 50)"

definition bucket_slack :: "rate_bucket \<Rightarrow> rat" where
  "bucket_slack b = rb_capacity b / 2 ^ 53"

lemma refill_clock: "rb_last_refill b \<le> rb_last_refill (refill b now)"
proof (cases "now \<le> rb_last_refill b")
  case True
  then show ?thesis by (simp add: refill_def Let_def)
qed (simp add: refill_def Let_def)

lemma refill_increment:
  assumes "rb_wf b"
  shows "f64_mul (as_secs_f64 d) (rb_rate_per_sec b) \<le> bucket_income b * of_nat d"
proof -
  let ?e = "as_secs_f64 d" and ?r = "rb_rate_per_sec b"
  have r: "0 \<le> ?r" using assms by (rule rb_wf_rate_nonneg)
  have "not_tiny (30 + 6) (?e * ?r)"
    using assms by (intro not_tiny_mult as_secs_f64_not_tiny) (simp add: rb_wf_def)
  then have "f64_round (?e * ?r) \<le> ?e * ?r + ?e * ?r / 2 ^ 53" by (rule not_tiny_upper) simp
  also have "\<dots> = ?e * (?r * (1 + 1 / 2 ^ 53))" by (simp add: algebra_simps)
  also have "\<dots> \<le> of_nat d / of_nat nanos_per_sec * (1 + 1 / 2 ^ 51) * (?r * (1 + 1 / 2 ^ 53))"
    using r by (intro mult_right_mono as_secs_f64_upper) simp
  also have "\<dots> = of_nat d / of_nat nanos_per_sec * ?r * ((1 + 1 / 2 ^ 51) * (1 + 1 / 2 ^ 53))"
    by (simp only: ac_simps)
  also have "\<dots> \<le> of_nat d / of_nat nanos_per_sec * ?r * (1 + 1 / 2 ^ 50)"
    using r by (intro mult_left_mono) simp_all
  also have "\<dots> = bucket_income b * of_nat d" by (simp add: bucket_income_def)
  finally show ?thesis by (simp only: f64_mul_def)
qed

lemma add_capped:
  assumes "rb_wf b" and "0 \<le> x"
  shows "min (f64_add (rb_tokens b) x) (rb_capacity b) \<le> rb_tokens b + x + bucket_slack b"
proof (cases "rb_tokens b + x \<le> rb_capacity b \<and> rb_capacity b \<noteq> 0")
  case True
  then have "f64_add (rb_tokens b) x \<le> rb_tokens b + x + rb_capacity b / 2 ^ 53"
    unfolding f64_add_def using assms
    by (intro f64_round_upper_bounded) (auto simp: rb_wf_def)
  then show ?thesis by (simp add: bucket_slack_def)
next
  case False
  have "0 \<le> bucket_slack b" using rb_wf_cap_nonneg [OF assms(1)] by (simp add: bucket_slack_def)
  then have "rb_capacity b \<le> rb_tokens b + x + bucket_slack b"
    using False assms by (auto simp: rb_wf_def)
  then show ?thesis by simp
qed

lemma refill_paid:
  assumes "rb_wf b"
  shows "rb_tokens (refill b now) \<le> rb_tokens b
           + bucket_income b * of_nat (rb_last_refill (refill b now) - rb_last_refill b)
           + bucket_slack b"
proof (cases "0 < as_secs_f64 (now - rb_last_refill b)")
  case True
  let ?x = "f64_mul (as_secs_f64 (now - rb_last_refill b)) (rb_rate_per_sec b)"
  have "0 \<le> ?x" using rb_wf_rate_nonneg [OF assms] by (simp add: f64_mul_def)
  then have "rb_tokens (refill b now) \<le> rb_tokens b + ?x + bucket_slack b"
    using add_capped [OF assms] True by (simp add: refill_def)
  moreover have "rb_last_refill (refill b now) = now" using True by (simp add: refill_def)
  ultimately show ?thesis
    using refill_increment [OF assms, of "now - rb_last_refill b"] by simp
next
  case False
  then show ?thesis using rb_wf_cap_nonneg [OF assms] by (simp add: refill_def bucket_slack_def)
qed

lemma bucket_income_nonneg: "rb_wf b \<Longrightarrow> 0 \<le> bucket_income b"
  by (simp add: bucket_income_def rb_wf_rate_nonneg)

lemma refund_paid: "rb_wf b \<Longrightarrow> rb_tokens (refund b n) \<le> rb_tokens b + of_nat n + bucket_slack b"
proof -
  assume wf: "rb_wf b"
  have slack: "0 \<le> bucket_slack b" using rb_wf_cap_nonneg [OF wf] by (simp add: bucket_slack_def)
  show ?thesis
  proof (cases "n \<le> 2 ^ 53")
    case True
    then show ?thesis using add_capped [OF wf, of "of_nat n"] by (simp add: refund_def f64_of_nat_exact)
  next
    case False
    then have "(of_nat (2 ^ 53) :: rat) \<le> of_nat n" by (simp only: of_nat_le_iff)
    then have "rb_capacity b \<le> of_nat n" using wf by (auto simp: rb_wf_def)
    then show ?thesis using slack wf by (simp add: refund_def rb_wf_def min_def)
  qed
qed

lemma try_take_exact_paid:
  assumes "rb_wf b"
  shows "(if fst (try_take_exact b n now) then of_nat n else 0) + rb_tokens (snd (try_take_exact b n now))
     \<le> rb_tokens b + bucket_income b *
         of_nat (rb_last_refill (snd (try_take_exact b n now)) - rb_last_refill b) + bucket_slack b"
  using refill_paid [OF assms, of now] rb_wf_cap_nonneg [OF assms]
    take_exact_tokens [OF rb_wf_refill [OF assms], of n now]
  by (simp add: try_take_exact_def Let_def bucket_slack_def not_less)

lemma try_take_paid:
  assumes "rb_wf b"
  shows "of_nat (fst (try_take b n now)) + rb_tokens (snd (try_take b n now))
     \<le> rb_tokens b + bucket_income b *
         of_nat (rb_last_refill (snd (try_take b n now)) - rb_last_refill b) + bucket_slack b"
proof (cases "n = 0 \<or> rb_rate_per_sec b \<le> 0 \<or> rb_capacity b \<le> 0")
  case True
  then show ?thesis using rb_wf_cap_nonneg [OF assms] by (auto simp: try_take_def bucket_slack_def)
next
  case False
  have wf: "rb_wf (refill b now)" using assms by simp
  have "of_nat (fst (try_take b n now)) + rb_tokens (snd (try_take b n now)) = rb_tokens (refill b now)"
    using False take_exact_tokens(2) [OF wf try_take_fits [OF wf]]
    by (simp add: try_take_def Let_def)
  then show ?thesis
    using refill_paid [OF assms, of now] False by (simp add: try_take_def Let_def)
qed

lemma bucket_step_static:
  "rb_rate_per_sec (snd (bucket_step b e)) = rb_rate_per_sec b"
  "rb_capacity (snd (bucket_step b e)) = rb_capacity b"
  by (cases e; auto simp: case_prod_beta Let_def try_take_exact_def try_take_def refund_def)+

interpretation rb: metered bucket_step rb_wf rb_tokens rb_last_refill bucket_income bucket_slack
proof
  fix b e
  show "rb_wf b \<Longrightarrow> rb_wf (snd (bucket_step b e))"
    by (cases e) (simp_all add: case_prod_beta Let_def)
  show "rb_wf b \<Longrightarrow> 0 \<le> rb_tokens b"
    by (simp add: rb_wf_def)
  show "rb_last_refill b \<le> rb_last_refill (snd (bucket_step b e))"
    by (cases e)
       (simp_all add: case_prod_beta Let_def try_take_exact_def try_take_def refund_def refill_clock)
  show "bucket_income (snd (bucket_step b e)) = bucket_income b"
    and "bucket_slack (snd (bucket_step b e)) = bucket_slack b"
    by (simp_all add: bucket_income_def bucket_slack_def bucket_step_static)
  assume "rb_wf b"
  then show "of_int (fst (bucket_step b e)) + rb_tokens (snd (bucket_step b e))
      \<le> rb_tokens b + bucket_income b *
          of_nat (rb_last_refill (snd (bucket_step b e)) - rb_last_refill b) + bucket_slack b"
  proof (cases e)
    case (TakeExact n now)
    then show ?thesis
      using try_take_exact_paid [OF \<open>rb_wf b\<close>, of n now] by (auto simp: case_prod_beta Let_def)
  next
    case (TakeUpTo n now)
    then show ?thesis
      using try_take_paid [OF \<open>rb_wf b\<close>, of n now] by (simp add: case_prod_beta Let_def)
  next
    case (Refund n)
    then show ?thesis using refund_paid [OF \<open>rb_wf b\<close>, of n] by (simp add: refund_def)
  qed
qed

fun bucket_run :: "rate_bucket \<Rightarrow> bucket_op list \<Rightarrow> int \<times> rate_bucket" where
  "bucket_run b [] = (0, b)"
| "bucket_run b (e # es) =
     (let (g, b') = bucket_step b e; (h, b'') = bucket_run b' es in (g + h, b''))"

fun op_time :: "bucket_op \<Rightarrow> instant" where
  "op_time (TakeExact n now) = now"
| "op_time (TakeUpTo n now) = now"
| "op_time (Refund n) = 0"

lemma bucket_run_eq: "bucket_run b es = rb.run b es"
  by (induction es arbitrary: b) (simp_all add: Let_def case_prod_beta)

lemma refill_clock_le: "rb_last_refill (refill b now) \<le> max (rb_last_refill b) now"
  by (simp add: refill_def Let_def)

lemma bucket_step_clock_le:
  "rb_last_refill (snd (bucket_step b e)) \<le> max (rb_last_refill b) (op_time e)"
  using refill_clock_le
  by (cases e) (auto simp: case_prod_beta Let_def try_take_exact_def try_take_def refund_def)

lemma bucket_run_clock_le:
  "\<forall>e\<in>set es. op_time e \<le> t \<Longrightarrow>
     rb_last_refill (snd (bucket_run b es)) \<le> max (rb_last_refill b) t"
proof (induction es arbitrary: b)
  case (Cons e es)
  let ?b = "snd (bucket_step b e)"
  have "rb_last_refill (snd (bucket_run ?b es)) \<le> max (rb_last_refill ?b) t" using Cons by simp
  also have "\<dots> \<le> max (rb_last_refill b) t"
    using bucket_step_clock_le [of b e] Cons.prems by auto
  finally show ?case by (simp add: Let_def case_prod_beta)
qed simp

lemma per_second_fields:
  "rb_rate_per_sec (per_second r c full t) = f64_of_u32 r"
  "rb_last_refill (per_second r c full t) = t"
  "rb_capacity (per_second r c full t) \<le> max (f64_of_u32 c) 1"
  "rb_tokens (per_second r c full t) \<le> max (f64_of_u32 c) 1"
  using f64_of_u32_nonneg [of c] by (auto simp: per_second_def rb_new_def Let_def max_def)

text \<open>
  C1. Rate limiting. Whatever sequence of takes and refunds a fresh per-second bucket sees up to
  time \<open>t1\<close>, the tokens it hands out less those returned to it never exceed its burst plus its rate
  times the elapsed time, up to the rounding of binary64 arithmetic: a factor \<open>1 + 2\<^sup>-\<^sup>5\<^sup>0\<close> on the
  income and \<open>2\<^sup>-\<^sup>5\<^sup>3\<close> of the capacity per operation.
\<close>

theorem bucket_conservation:
  assumes "\<forall>e\<in>set es. op_time e \<le> t1"
  shows "of_int (fst (bucket_run (per_second rate burst full t0) es))
           \<le> max (f64_of_u32 burst) 1
             + f64_of_u32 rate / of_nat nanos_per_sec * (1 + 1 / 2 ^ 50) * of_nat (t1 - t0)
             + of_nat (length es) * (max (f64_of_u32 burst) 1 / 2 ^ 53)"
proof -
  let ?b = "per_second rate burst full t0"
  have "of_nat (rb_last_refill (snd (bucket_run ?b es)) - t0) \<le> (of_nat (t1 - t0) :: rat)"
    using bucket_run_clock_le [OF assms, of ?b] by (simp only: of_nat_le_iff per_second_fields)
  then have "bucket_income ?b * of_nat (rb_last_refill (snd (bucket_run ?b es)) - t0)
      \<le> bucket_income ?b * of_nat (t1 - t0)"
    by (intro mult_left_mono bucket_income_nonneg rb_wf_per_second)
  moreover have "of_nat (length es) * bucket_slack ?b
      \<le> of_nat (length es) * (max (f64_of_u32 burst) 1 / 2 ^ 53)"
    unfolding bucket_slack_def
    by (intro mult_left_mono divide_right_mono per_second_fields) simp_all
  ultimately show ?thesis
    using rb.run_granted [of ?b es] per_second_fields(4) [of rate burst full t0]
    by (simp add: bucket_run_eq per_second_fields(1,2) bucket_income_def)
qed

theorem bucket_conservation_witness:
  "fst (bucket_run (per_second 10 5 True 0) [TakeUpTo 9 0, TakeExact 2 1000000000]) = 7 \<and>
   of_int (fst (bucket_run (per_second 10 5 True 0) [TakeUpTo 9 0, TakeExact 2 1000000000]))
     \<le> max (f64_of_u32 5) 1
        + f64_of_u32 10 / of_nat nanos_per_sec * (1 + 1 / 2 ^ 50) * of_nat (1000000000 - 0)
        + of_nat (length [TakeUpTo 9 0, TakeExact 2 1000000000]) *
            (max (f64_of_u32 5) 1 / 2 ^ 53)"
proof
  show "fst (bucket_run (per_second 10 5 True 0) [TakeUpTo 9 0, TakeExact 2 1000000000]) = 7"
    by code_simp
qed (rule bucket_conservation, simp)

text \<open>
  C8. The token count is always a representable number between zero and the capacity: every
  constructor establishes \<open>rb_wf\<close> and every method keeps it.
\<close>

theorem bucket_well_formed:
  "rb_wf (per_second r c full t) \<and> rb_wf (per_minute r c full t) \<and>
   (rb_wf b \<longrightarrow>
      rb_wf (refill b now) \<and> rb_wf (snd (try_take_exact b n now)) \<and>
      rb_wf (snd (try_take_one b now)) \<and> rb_wf (snd (try_take b n now)) \<and>
      rb_wf (refund b n) \<and> rb_wf (refund_one b) \<and> rb_wf (set_per_second_rate b r now))"
  by simp

theorem bucket_well_formed_witness:
  "rb_wf (per_second 10 5 True 0) \<and>
   rb_wf (snd (try_take_exact (per_second 10 5 True 0) 3 1000000000)) \<and>
   rb_tokens (snd (try_take_exact (per_second 10 5 True 0) 3 1000000000)) = 2"
proof (intro conjI)
  have wf: "rb_wf (per_second 10 5 True 0)" using bucket_well_formed [of 10 5 True 0] by blast
  then show "rb_wf (per_second 10 5 True 0)" .
  show "rb_wf (snd (try_take_exact (per_second 10 5 True 0) 3 1000000000))"
    using bucket_well_formed [of 10 5 True 0 "per_second 10 5 True 0" 1000000000 3] wf by blast
  show "rb_tokens (snd (try_take_exact (per_second 10 5 True 0) 3 1000000000)) = 2"
    by code_simp
qed

lemma tokens_bound: "rb_wf b \<Longrightarrow> of_nat n \<le> rb_capacity b \<Longrightarrow> n \<le> 2 ^ 53"
proof -
  assume "rb_wf b" and "of_nat n \<le> rb_capacity b"
  then have "of_nat n \<le> (of_nat (2 ^ 53) :: rat)" by (auto simp: rb_wf_def)
  then show ?thesis by (simp only: of_nat_le_iff)
qed

lemma refill_wait:
  assumes "rb_wf b" and "rb_last_refill b + secs k \<le> now" and "k \<le> 2 ^ 53"
    and "of_nat n \<le> rb_rate_per_sec b * of_nat k" and "of_nat n \<le> rb_capacity b"
  shows "of_nat n \<le> rb_tokens (refill b now)"
proof (cases "n = 0")
  case True
  then show ?thesis using rb_wf_refill [OF assms(1), of now] by (simp add: rb_wf_def)
next
  case False
  let ?e = "as_secs_f64 (now - rb_last_refill b)"
  have k: "of_nat k \<le> ?e" using assms(2,3) by (intro as_secs_f64_ge_secs) simp_all
  have r: "0 \<le> rb_rate_per_sec b" using assms(1) by (rule rb_wf_rate_nonneg)
  have n: "is_f64 (of_nat n)" using assms(1,5) by (intro is_f64_of_nat tokens_bound)
  have "0 < k" using False assms(4) by (cases k) simp_all
  then have e: "0 < ?e" using k by (simp add: less_le_trans [OF _ k])
  have "of_nat n \<le> ?e * rb_rate_per_sec b"
    using assms(4) mult_left_mono [OF k r] by (simp add: mult.commute)
  then have "of_nat n \<le> f64_mul ?e (rb_rate_per_sec b)"
    unfolding f64_mul_def using n by (intro f64_round_ge) simp_all
  moreover have "0 \<le> rb_tokens b" using assms(1) by (simp add: rb_wf_def)
  ultimately have "of_nat n \<le> f64_add (rb_tokens b) (f64_mul ?e (rb_rate_per_sec b))"
    unfolding f64_add_def using n by (intro f64_round_ge) simp_all
  then show ?thesis using e assms(5) by (simp add: refill_def)
qed

text \<open>
  C9. Progress. A request for at most \<open>n\<close> tokens succeeds once \<open>k\<close> seconds have passed since the
  last refill, provided \<open>n\<close> is within the capacity and within the rate times \<open>k\<close>: rounding never
  starves a caller of its nominal rate.
\<close>

theorem bucket_progress:
  assumes "rb_wf b" and "rb_last_refill b + secs k \<le> now" and "k \<le> 2 ^ 53"
    and "of_nat n \<le> rb_rate_per_sec b * of_nat k" and "of_nat n \<le> rb_capacity b"
  shows "fst (try_take_exact b n now)"
proof (cases "n = 0")
  case False
  have tok: "of_nat n \<le> rb_tokens (refill b now)" using assms by (rule refill_wait)
  have "n \<le> 2 ^ 53" using assms(1,5) by (rule tokens_bound)
  moreover have "0 < rb_capacity b" and "0 < rb_rate_per_sec b"
  proof -
    have n: "0 < (of_nat n :: rat)" using False by simp
    then show "0 < rb_capacity b" using assms(5) by linarith
    have "rb_rate_per_sec b \<noteq> 0" using n assms(4) by auto
    then show "0 < rb_rate_per_sec b" using rb_wf_rate_nonneg [OF assms(1)] by simp
  qed
  ultimately show ?thesis
    using tok by (simp add: try_take_exact_def Let_def f64_of_nat_exact not_less)
qed (simp add: try_take_exact_def)

theorem bucket_progress_witness:
  "fst (try_take_exact (per_second 3 10 False 0) 6 2000000000) \<and>
   \<not> fst (try_take_exact (per_second 3 10 False 0) 7 2000000000)"
proof
  show "fst (try_take_exact (per_second 3 10 False 0) 6 2000000000)"
    by (rule bucket_progress [of _ 2], rule rb_wf_per_second)
       (simp_all add: per_second_def rb_new_def f64_of_u32_def)
  show "\<not> fst (try_take_exact (per_second 3 10 False 0) 7 2000000000)"
    by code_simp
qed

end
