(* ===== verification/Node_Pool.thy ===== *)
theory Node_Pool
  imports Recent_Probes Rate_Bucket
begin

text \<open>
  \<open>NodePool\<close> of \<open>src/src/node_pool.rs\<close>: the bounded FIFO of nodes waiting to be probed, with the
  set of queued addresses, the recently probed endpoints and the replacement budget.

  The pool measures how long each expiry of recent probes took; that wall-clock cost is the
  parameter \<open>cost\<close> (microseconds, as a function of the state being expired) of the operations that
  expire. The loop of \<open>prepare_recent_slot\<close> is a \<open>partial_function\<close>, so that not terminating would
  be \<open>None\<close> like a panic; \<open>prepare_slot_ok\<close> shows that it always returns.
\<close>

datatype admission_outcome = Admitted | Replaced | Duplicate | RateLimited | Invalid

record queued_node =
  qn_node :: node_tuple
  qn_queued_at :: instant

record node_pool =
  np_queue :: "queued_node list"
  np_queued :: "socket_addr set"
  np_recent :: recent_probes
  np_recent_expired :: nat
  np_recent_expiry_micros :: nat
  np_recent_expiry_calls :: nat
  np_replacement_budget :: rate_bucket
  np_recent_ttl :: duration
  np_capacity :: nat
  np_warmed :: bool

type_synonym expiry_cost = "recent_probes \<Rightarrow> instant \<Rightarrow> nat"

definition np_new :: "nat \<Rightarrow> u32 \<Rightarrow> duration \<Rightarrow> nat \<Rightarrow> instant \<Rightarrow> node_pool" where
  "np_new capacity replacements_per_minute recent_ttl recent_capacity now =
     (let capacity = max capacity 1;
          replacement_burst = max (word_of_nat (div_ceil (unat replacements_per_minute) 60)) 1
      in \<lparr> np_queue = [], np_queued = {}, np_recent = rp_new recent_capacity,
           np_recent_expired = 0, np_recent_expiry_micros = 0, np_recent_expiry_calls = 0,
           np_replacement_budget = per_minute replacements_per_minute replacement_burst True now,
           np_recent_ttl = recent_ttl, np_capacity = capacity, np_warmed = False \<rparr>)"

definition pop_front_internal :: "node_pool \<Rightarrow> queued_node option \<times> node_pool" where
  "pop_front_internal pool =
     (case np_queue pool of
        [] \<Rightarrow> (None, pool)
      | entry # rest \<Rightarrow>
          (Some entry, pool \<lparr> np_queue := rest,
                             np_queued := np_queued pool - {nt_addr (qn_node entry)} \<rparr>))"

definition expire_recent :: "expiry_cost \<Rightarrow> node_pool \<Rightarrow> instant \<Rightarrow> node_pool option" where
  "expire_recent cost pool now =
     (if has_due (np_recent pool) now then do {
        (removed, recent) \<leftarrow> rp_expire (np_recent pool) now;
        Some (pool \<lparr> np_recent := recent,
                     np_recent_expired := np_recent_expired pool + removed,
                     np_recent_expiry_micros :=
                       sat_add64 (np_recent_expiry_micros pool) (min (cost (np_recent pool) now) (2 ^ 64 - 1)),
                     np_recent_expiry_calls := np_recent_expiry_calls pool + 1 \<rparr>)
      } else Some pool)"

partial_function (option) prepare_loop ::
  "expiry_cost \<Rightarrow> socket_addr \<Rightarrow> instant \<Rightarrow> node_pool \<Rightarrow> node_pool option" where
  "prepare_loop cost addr now pool =
     (if rp_capacity (np_recent pool) \<le> length (rp_entries (np_recent pool)) \<and>
         hget (rp_entries (np_recent pool)) addr = None \<and>
         has_due (np_recent pool) now
      then Option.bind (expire_recent cost pool now) (prepare_loop cost addr now)
      else Some pool)"

declare prepare_loop.simps [code]

definition prepare_recent_slot ::
  "expiry_cost \<Rightarrow> node_pool \<Rightarrow> socket_addr \<Rightarrow> instant \<Rightarrow> node_pool option" where
  "prepare_recent_slot cost pool addr now = do {
     pool \<leftarrow> expire_recent cost pool now;
     prepare_loop cost addr now pool
   }"

text \<open>The last part of \<open>admit\<close>: displace the oldest node of a full queue and enqueue the new one.\<close>

definition admit_enqueue :: "node_pool \<Rightarrow> node_tuple \<Rightarrow> instant \<Rightarrow> admission_outcome \<times> node_pool" where
  "admit_enqueue pool node now =
     (let (replaced, pool) =
            (if np_capacity pool \<le> length (np_queue pool)
             then let (popped, pool) = pop_front_internal pool in (popped \<noteq> None, pool)
             else (False, pool));
          pool = pool \<lparr> np_queued := insert (nt_addr node) (np_queued pool),
                        np_queue := np_queue pool @ [\<lparr> qn_node = node, qn_queued_at = now \<rparr>] \<rparr>;
          pool = (if np_capacity pool \<le> length (np_queue pool)
                  then pool \<lparr> np_warmed := True \<rparr> else pool)
      in (if replaced then Replaced else Admitted, pool))"

definition admit ::
  "expiry_cost \<Rightarrow> node_pool \<Rightarrow> node_tuple \<Rightarrow> instant \<Rightarrow> (admission_outcome \<times> node_pool) option" where
  "admit cost pool node now =
     (if \<not> is_valid_node_addr (nt_addr node) then Some (Invalid, pool)
      else do {
        pool \<leftarrow> expire_recent cost pool now;
        if nt_addr node \<in> np_queued pool \<or> rp_contains (np_recent pool) (nt_addr node) now
        then Some (Duplicate, pool)
        else
          let (granted, budget) = (if np_warmed pool then try_take_one (np_replacement_budget pool) now
                                   else (True, np_replacement_budget pool));
              pool = pool \<lparr> np_replacement_budget := budget \<rparr>
          in if \<not> granted then Some (RateLimited, pool)
             else Some (admit_enqueue pool node now)
      })"

definition np_front :: "node_pool \<Rightarrow> node_tuple option" where
  "np_front pool = (case np_queue pool of [] \<Rightarrow> None | entry # _ \<Rightarrow> Some (qn_node entry))"

definition rotate_front_to_back :: "node_pool \<Rightarrow> bool \<times> node_pool" where
  "rotate_front_to_back pool =
     (if length (np_queue pool) \<le> 1 then (False, pool)
      else (True, pool \<lparr> np_queue := rotate1 (np_queue pool) \<rparr>))"

definition take_front_for_probe ::
  "expiry_cost \<Rightarrow> node_pool \<Rightarrow> instant \<Rightarrow> (node_tuple option \<times> node_pool) option" where
  "take_front_for_probe cost pool now =
     (case pop_front_internal pool of
        (None, pool) \<Rightarrow> Some (None, pool)
      | (Some entry, pool) \<Rightarrow> do {
          let deadline = now + np_recent_ttl pool;
          pool \<leftarrow> prepare_recent_slot cost pool (nt_addr (qn_node entry)) now;
          recent \<leftarrow> rp_record (np_recent pool) (nt_addr (qn_node entry)) deadline;
          Some (Some (qn_node entry), pool \<lparr> np_recent := recent \<rparr>)
        })"

definition restore_front :: "node_pool \<Rightarrow> node_tuple \<Rightarrow> instant \<Rightarrow> node_pool option" where
  "restore_front pool node queued_at = do {
     recent \<leftarrow> rp_remove (np_recent pool) (nt_addr node);
     Some (pool \<lparr> np_recent := recent,
                  np_queued := insert (nt_addr node) (np_queued pool),
                  np_queue := \<lparr> qn_node = node, qn_queued_at = queued_at \<rparr> # np_queue pool \<rparr>)
   }"

definition contains_recent ::
  "expiry_cost \<Rightarrow> node_pool \<Rightarrow> socket_addr \<Rightarrow> instant \<Rightarrow> (bool \<times> node_pool) option" where
  "contains_recent cost pool addr now = do {
     pool \<leftarrow> expire_recent cost pool now;
     Some (rp_contains (np_recent pool) addr now, pool)
   }"

definition np_record_probe ::
  "expiry_cost \<Rightarrow> node_pool \<Rightarrow> socket_addr \<Rightarrow> instant \<Rightarrow> node_pool option" where
  "np_record_probe cost pool addr now = do {
     let deadline = now + np_recent_ttl pool;
     pool \<leftarrow> prepare_recent_slot cost pool addr now;
     recent \<leftarrow> rp_record (np_recent pool) addr deadline;
     Some (pool \<lparr> np_recent := recent \<rparr>)
   }"

definition np_len :: "node_pool \<Rightarrow> nat" where
  "np_len pool = length (np_queue pool)"

definition oldest_age :: "node_pool \<Rightarrow> instant \<Rightarrow> duration" where
  "oldest_age pool now = (case np_queue pool of [] \<Rightarrow> 0 | entry # _ \<Rightarrow> now - qn_queued_at entry)"

definition recent_state :: "node_pool \<Rightarrow> nat \<times> nat \<times> nat" where
  "recent_state pool =
     (length (rp_entries (np_recent pool)), rp_capacity (np_recent pool), length (rp_expiry (np_recent pool)))"

definition take_recent_expiry_stats :: "node_pool \<Rightarrow> (nat \<times> nat \<times> nat) \<times> node_pool" where
  "take_recent_expiry_stats pool =
     ((np_recent_expired pool, np_recent_expiry_micros pool, np_recent_expiry_calls pool),
      pool \<lparr> np_recent_expired := 0, np_recent_expiry_micros := 0, np_recent_expiry_calls := 0 \<rparr>)"

subsection \<open>The invariant\<close>

abbreviation queue_addrs :: "node_pool \<Rightarrow> socket_addr list" where
  "queue_addrs pool \<equiv> map (\<lambda>entry. nt_addr (qn_node entry)) (np_queue pool)"

definition queue_inv :: "node_pool \<Rightarrow> bool" where
  "queue_inv pool = (np_queued pool = set (queue_addrs pool) \<and> distinct (queue_addrs pool) \<and>
                     (\<forall>a\<in>set (queue_addrs pool). is_valid_node_addr a) \<and>
                     length (np_queue pool) \<le> np_capacity pool \<and> 0 < np_capacity pool)"

definition np_inv :: "node_pool \<Rightarrow> bool" where
  "np_inv pool = (queue_inv pool \<and> rp_inv (np_recent pool) \<and> rb_wf (np_replacement_budget pool))"

lemma np_inv_new: "np_inv (np_new c r ttl rc now)"
  by (simp add: np_new_def Let_def np_inv_def queue_inv_def rp_inv_new)

lemma queue_inv_recent [simp]: "queue_inv (pool \<lparr> np_recent := r \<rparr>) = queue_inv pool"
  by (simp add: queue_inv_def)

text \<open>What \<open>expire_recent\<close> may change: statistics, and entries of \<open>recent\<close> that have expired.\<close>

definition same_queue :: "node_pool \<Rightarrow> node_pool \<Rightarrow> bool" where
  "same_queue pool pool' =
     (np_queue pool' = np_queue pool \<and> np_queued pool' = np_queued pool \<and>
      np_capacity pool' = np_capacity pool \<and> np_warmed pool' = np_warmed pool \<and>
      np_recent_ttl pool' = np_recent_ttl pool \<and>
      np_replacement_budget pool' = np_replacement_budget pool)"

definition expired_pool :: "node_pool \<Rightarrow> instant \<Rightarrow> node_pool \<Rightarrow> bool" where
  "expired_pool pool now pool' =
     (same_queue pool pool' \<and> rp_inv (np_recent pool') \<and>
      rp_capacity (np_recent pool') = rp_capacity (np_recent pool) \<and>
      (rp_lazy (np_recent pool) \<longrightarrow> rp_lazy (np_recent pool')) \<and>
      (\<forall>a. rp_deadline (np_recent pool') a = rp_deadline (np_recent pool) a \<or>
           (\<exists>d. rp_deadline (np_recent pool) a = Some d \<and> d \<le> now \<and>
                rp_deadline (np_recent pool') a = None)))"

lemma expired_pool_refl: "rp_inv (np_recent pool) \<Longrightarrow> expired_pool pool now pool"
  by (simp add: expired_pool_def same_queue_def)

lemma expired_pool_trans:
  assumes "expired_pool p now q" and "expired_pool q now r"
  shows "expired_pool p now r"
proof -
  have "rp_deadline (np_recent r) a = rp_deadline (np_recent p) a \<or>
      (\<exists>d. rp_deadline (np_recent p) a = Some d \<and> d \<le> now \<and> rp_deadline (np_recent r) a = None)" for a
  proof -
    have "rp_deadline (np_recent q) a = rp_deadline (np_recent p) a \<or>
        (\<exists>d. rp_deadline (np_recent p) a = Some d \<and> d \<le> now \<and> rp_deadline (np_recent q) a = None)"
      using assms(1) by (simp add: expired_pool_def)
    moreover have "rp_deadline (np_recent r) a = rp_deadline (np_recent q) a \<or>
        (\<exists>d. rp_deadline (np_recent q) a = Some d \<and> d \<le> now \<and> rp_deadline (np_recent r) a = None)"
      using assms(2) by (simp add: expired_pool_def)
    ultimately show ?thesis by (elim disjE exE conjE) simp_all
  qed
  then show ?thesis using assms by (simp add: expired_pool_def same_queue_def)
qed

lemma expire_recent_ok:
  assumes "rp_inv (np_recent pool)"
  shows "ok (expire_recent cost pool now) (\<lambda>pool'. expired_pool pool now pool' \<and>
           card (due_entries (np_recent pool') now) = card (due_entries (np_recent pool) now) - 256)"
proof (cases "has_due (np_recent pool) now")
  case True
  show ?thesis
  proof -
    obtain res where res: "rp_expire (np_recent pool) now = Some res"
      "expired_to 256 (np_recent pool) now 0 res"
      using expire_ok [OF assms, of now] by (auto simp: ok_iff)
    obtain removed recent where "res = (removed, recent)" by fastforce
    then show ?thesis
      using True res by (simp add: expire_recent_def expired_to_def expired_pool_def same_queue_def)
  qed
next
  case False
  have "heap_ordered (rp_expiry (np_recent pool))" using assms by (simp add: rp_inv_def)
  then have "due_entries (np_recent pool) now = {}" using False has_due_iff by blast
  then show ?thesis using False assms by (simp add: expire_recent_def expired_pool_refl)
qed

text \<open>After \<open>prepare_recent_slot\<close> a full table holds no due entry, so \<open>record\<close> evicts only then.\<close>

definition slot_ready :: "node_pool \<Rightarrow> socket_addr \<Rightarrow> instant \<Rightarrow> bool" where
  "slot_ready pool addr now =
     (hget (rp_entries (np_recent pool)) addr \<noteq> None \<or>
      length (rp_entries (np_recent pool)) < rp_capacity (np_recent pool) \<or>
      due_entries (np_recent pool) now = {})"

lemma prepare_loop_ok:
  "rp_inv (np_recent pool) \<Longrightarrow>
     ok (prepare_loop cost addr now pool) (\<lambda>pool'. expired_pool pool now pool' \<and> slot_ready pool' addr now)"
proof (induction "card (due_entries (np_recent pool) now)" arbitrary: pool rule: less_induct)
  case less
  let ?r = "np_recent pool"
  have heap: "heap_ordered (rp_expiry ?r)" using less.prems by (simp add: rp_inv_def)
  show ?case
  proof (cases "rp_capacity ?r \<le> length (rp_entries ?r) \<and> hget (rp_entries ?r) addr = None \<and> has_due ?r now")
    case True
    obtain q where q: "expire_recent cost pool now = Some q" "expired_pool pool now q"
      "card (due_entries (np_recent q) now) = card (due_entries ?r now) - 256"
      using expire_recent_ok [OF less.prems, of cost now] by (auto simp: ok_iff)
    have "0 < card (due_entries ?r now)" using True has_due_iff [OF heap] by (simp add: card_gt_0_iff)
    then have "card (due_entries (np_recent q) now) < card (due_entries ?r now)" using q(3) by simp
    moreover have "rp_inv (np_recent q)" using q(2) by (simp add: expired_pool_def)
    ultimately have "ok (prepare_loop cost addr now q)
        (\<lambda>pool'. expired_pool q now pool' \<and> slot_ready pool' addr now)" by (rule less.hyps)
    moreover have "prepare_loop cost addr now pool = prepare_loop cost addr now q"
      using True q(1) by (subst prepare_loop.simps) simp
    ultimately show ?thesis using expired_pool_trans [OF q(2)] by (auto elim!: ok_mono)
  next
    case False
    then have "prepare_loop cost addr now pool = Some pool" by (subst prepare_loop.simps) (simp only: if_False)
    moreover have "slot_ready pool addr now"
      using False has_due_iff [OF heap] by (auto simp: slot_ready_def)
    ultimately show ?thesis using less.prems by (simp add: expired_pool_refl)
  qed
qed

lemma prepare_slot_ok:
  assumes "rp_inv (np_recent pool)"
  shows "ok (prepare_recent_slot cost pool addr now)
           (\<lambda>pool'. expired_pool pool now pool' \<and> slot_ready pool' addr now)"
proof -
  obtain q where q: "expire_recent cost pool now = Some q" "expired_pool pool now q"
    using expire_recent_ok [OF assms, of cost now] by (auto simp: ok_iff)
  then have inv: "rp_inv (np_recent q)" by (simp add: expired_pool_def)
  have "ok (prepare_loop cost addr now q) (\<lambda>pool'. expired_pool pool now pool' \<and> slot_ready pool' addr now)"
    by (rule ok_mono [OF prepare_loop_ok [OF inv]]) (use expired_pool_trans [OF q(2)] in blast)
  then show ?thesis using q(1) by (simp add: prepare_recent_slot_def)
qed

lemma expired_pool_inv:
  "np_inv pool \<Longrightarrow> expired_pool pool now pool' \<Longrightarrow> np_inv pool'"
  by (simp add: np_inv_def queue_inv_def expired_pool_def same_queue_def)

lemma expired_pool_contains:
  assumes "expired_pool pool now pool'" and "now \<le> t"
  shows "rp_contains (np_recent pool') a t = rp_contains (np_recent pool) a t"
proof -
  have "rp_deadline (np_recent pool') a = rp_deadline (np_recent pool) a \<or>
      (\<exists>d. rp_deadline (np_recent pool) a = Some d \<and> d \<le> now \<and> rp_deadline (np_recent pool') a = None)"
    using assms(1) by (simp add: expired_pool_def)
  then show ?thesis unfolding rp_contains_iff using assms(2) by (elim disjE exE conjE) simp_all
qed

subsection \<open>Admission\<close>

definition may_enter :: "node_pool \<Rightarrow> node_tuple \<Rightarrow> instant \<Rightarrow> bool" where
  "may_enter pool node now =
     (is_valid_node_addr (nt_addr node) \<and> nt_addr node \<notin> np_queued pool \<and>
      \<not> rp_contains (np_recent pool) (nt_addr node) now)"

text \<open>What \<open>admit\<close> promises: the outcome, and the queue it leaves behind.\<close>

definition admitted_as ::
  "node_pool \<Rightarrow> node_tuple \<Rightarrow> instant \<Rightarrow> admission_outcome \<Rightarrow> node_pool \<Rightarrow> bool" where
  "admitted_as pool node now out pool' =
     (let entry = \<lparr> qn_node = node, qn_queued_at = now \<rparr> in
      case out of
        Invalid \<Rightarrow> \<not> is_valid_node_addr (nt_addr node) \<and> pool' = pool
      | Duplicate \<Rightarrow> is_valid_node_addr (nt_addr node) \<and>
          (nt_addr node \<in> np_queued pool \<or> rp_contains (np_recent pool) (nt_addr node) now) \<and>
          np_queue pool' = np_queue pool
      | RateLimited \<Rightarrow> may_enter pool node now \<and> np_warmed pool \<and>
          \<not> fst (try_take_one (np_replacement_budget pool) now) \<and> np_queue pool' = np_queue pool
      | Replaced \<Rightarrow> may_enter pool node now \<and> length (np_queue pool) = np_capacity pool \<and>
          np_queue pool' = tl (np_queue pool) @ [entry]
      | Admitted \<Rightarrow> may_enter pool node now \<and> length (np_queue pool) < np_capacity pool \<and>
          np_queue pool' = np_queue pool @ [entry])"

lemma admit_enqueue_ok:
  assumes inv: "np_inv pool" and enter: "may_enter pool node now"
  shows "case admit_enqueue pool node now of (out, pool') \<Rightarrow>
           np_inv pool' \<and> admitted_as pool node now out pool'"
proof -
  let ?entry = "\<lparr> qn_node = node, qn_queued_at = now \<rparr>"
  have q: "queue_inv pool" using inv by (simp add: np_inv_def)
  show ?thesis
  proof (cases "np_capacity pool \<le> length (np_queue pool)")
    case True
    then obtain entry rest where front: "np_queue pool = entry # rest"
      using q by (cases "np_queue pool") (auto simp: queue_inv_def)
    let ?a = "nt_addr (qn_node entry)"
    define p' where "p' = pool \<lparr> np_queue := rest @ [?entry], np_warmed := True,
      np_queued := insert (nt_addr node) (np_queued pool - {?a}) \<rparr>"
    have "length (np_queue pool) = np_capacity pool" using True q by (simp add: queue_inv_def)
    moreover have "queue_inv p'" using q enter front by (auto simp: queue_inv_def may_enter_def p'_def)
    moreover have "admit_enqueue pool node now = (Replaced, p')"
      using True front by (simp add: admit_enqueue_def pop_front_internal_def p'_def)
    ultimately show ?thesis
      using inv enter front by (simp add: admitted_as_def np_inv_def p'_def)
  next
    case False
    define p' where "p' = pool \<lparr> np_queue := np_queue pool @ [?entry],
      np_queued := insert (nt_addr node) (np_queued pool) \<rparr>"
    define w where "w = (np_warmed pool \<or> np_capacity pool \<le> length (np_queue pool @ [?entry]))"
    have "queue_inv (p' \<lparr> np_warmed := w \<rparr>)"
      using q enter False by (auto simp: queue_inv_def may_enter_def p'_def)
    moreover have "admit_enqueue pool node now = (Admitted, p' \<lparr> np_warmed := w \<rparr>)"
      using False by (cases pool) (simp add: admit_enqueue_def Let_def p'_def w_def)
    ultimately show ?thesis
      using inv enter False by (simp add: admitted_as_def np_inv_def p'_def)
  qed
qed

lemma admitted_as_expired:
  assumes "expired_pool pool now q"
    and "admitted_as (q \<lparr> np_replacement_budget := b \<rparr>) node now out pool'" and "out \<in> {Admitted, Replaced}"
  shows "admitted_as pool node now out pool'"
  using assms expired_pool_contains [OF assms(1) order_refl]
  by (auto simp: admitted_as_def may_enter_def expired_pool_def same_queue_def)

lemma admit_enqueue_outcome: "fst (admit_enqueue pool node now) \<in> {Admitted, Replaced}"
  by (simp add: admit_enqueue_def Let_def case_prod_beta)

lemma admit_ok:
  assumes inv: "np_inv pool"
  shows "ok (admit cost pool node now) (\<lambda>(out, pool'). np_inv pool' \<and> admitted_as pool node now out pool')"
proof (cases "is_valid_node_addr (nt_addr node)")
  case False
  then show ?thesis using inv by (simp add: admit_def admitted_as_def)
next
  case valid: True
  obtain q where q: "expire_recent cost pool now = Some q" "expired_pool pool now q"
    using expire_recent_ok [of pool cost now] inv by (auto simp: ok_iff np_inv_def)
  have invq: "np_inv q" using inv q(2) by (rule expired_pool_inv)
  have same: "np_queue q = np_queue pool" "np_queued q = np_queued pool" "np_warmed q = np_warmed pool"
    "np_replacement_budget q = np_replacement_budget pool"
    using q(2) by (simp_all add: expired_pool_def same_queue_def)
  have contains: "rp_contains (np_recent q) a now = rp_contains (np_recent pool) a now" for a
    using q(2) order_refl by (rule expired_pool_contains)
  define res where "res = (if np_warmed q then try_take_one (np_replacement_budget q) now
      else (True, np_replacement_budget q))"
  obtain granted budget where bud: "res = (granted, budget)" by fastforce
  have "rb_wf (snd res)" using invq by (simp add: np_inv_def res_def)
  then have wf: "rb_wf budget" by (simp add: bud)
  let ?q = "q \<lparr> np_replacement_budget := budget \<rparr>"
  have invq': "np_inv ?q" using invq wf by (simp add: np_inv_def queue_inv_def)
  show ?thesis
  proof (cases "nt_addr node \<in> np_queued q \<or> rp_contains (np_recent q) (nt_addr node) now")
    case True
    then show ?thesis using q(1) valid invq same contains by (simp add: admit_def admitted_as_def)
  next
    case fresh: False
    then have enter: "may_enter ?q node now" using valid by (simp add: may_enter_def)
    have run: "admit cost pool node now =
        (if granted then Some (admit_enqueue ?q node now) else Some (RateLimited, ?q))"
      using q(1) valid fresh by (simp add: admit_def res_def [symmetric] bud)
    show ?thesis
    proof (cases granted)
      case False
      then have "np_warmed pool" "\<not> fst (try_take_one (np_replacement_budget pool) now)"
        using bud same by (auto simp: res_def split: if_splits)
      then show ?thesis
        using False valid fresh invq' same contains by (simp add: run admitted_as_def may_enter_def)
    next
      case True
      then show ?thesis
        using admit_enqueue_ok [OF invq' enter] admit_enqueue_outcome [of ?q node now]
          admitted_as_expired [OF q(2), of budget node]
        by (auto simp: run split: prod.splits)
    qed
  qed
qed

subsection \<open>Probing\<close>

text \<open>\<open>recorded pool addr now pool'\<close>: \<open>addr\<close> is now recent, and a live endpoint was forgotten only
  if the table is full of live endpoints.\<close>

definition recorded :: "node_pool \<Rightarrow> socket_addr \<Rightarrow> instant \<Rightarrow> node_pool \<Rightarrow> bool" where
  "recorded pool addr now pool' =
     (same_queue pool pool' \<and> rp_inv (np_recent pool') \<and>
      rp_capacity (np_recent pool') = rp_capacity (np_recent pool) \<and>
      rp_deadline (np_recent pool') addr = Some (now + np_recent_ttl pool) \<and>
      (\<forall>a d. a \<noteq> addr \<longrightarrow> rp_deadline (np_recent pool) a = Some d \<longrightarrow> now < d \<longrightarrow>
         rp_deadline (np_recent pool') a \<noteq> Some d \<longrightarrow> rp_lazy (np_recent pool) \<longrightarrow>
           (\<forall>b e. b \<noteq> addr \<longrightarrow> rp_deadline (np_recent pool') b = Some e \<longrightarrow> now < e) \<and>
           length (rp_entries (np_recent pool')) = rp_capacity (np_recent pool')))"

lemma record_ok_length:
  assumes inv: "rp_inv p" and "rp_victim p a \<noteq> None"
  shows "ok (rp_record p a d) (\<lambda>p'. length (rp_entries p') = rp_capacity p)"
proof -
  have fresh: "hget (rp_entries p) a = None" and full: "length (rp_entries p) = rp_capacity p"
    using assms(2) by (auto simp: rp_victim_def split: if_splits)
  have root: "0 < length (rp_expiry p)" using inv full rp_inv_len [OF inv] by (simp add: rp_inv_def)
  obtain q where q: "remove_at p 0 = Some q" "removed_from p 0 q"
    using remove_at_ok [OF _ _ root] inv by (auto simp: ok_iff rp_inv_def)
  note qi = removed_from_inv [OF inv root q(2)]
  have "rp_deadline q a = None" using q(2) fresh by (simp add: removed_from_def rp_deadline_def)
  then have fresh_q: "hget (rp_entries q) a = None" by (simp add: rp_deadline_def)
  have "length (rp_expiry q) = length (rp_expiry p) - 1" using q(2) by (simp add: removed_from_def)
  then have "Suc (length (rp_expiry q)) = rp_capacity p"
    using root full rp_inv_len [OF inv] by linarith
  then show ?thesis
    using push_ok [OF _ _ fresh_q, of d] qi(1) q(1) fresh full
    by (auto elim!: ok_mono simp: rp_record_def Let_def rp_inv_def rp_idx_def)
qed

lemma record_in_slot:
  assumes ex: "expired_pool pool now q" and ready: "slot_ready q addr now"
  shows "ok (rp_record (np_recent q) addr (now + np_recent_ttl q))
           (\<lambda>r. recorded pool addr now (q \<lparr> np_recent := r \<rparr>))"
proof -
  have inv: "rp_inv (np_recent q)" using ex by (simp add: expired_pool_def)
  let ?v = "rp_victim (np_recent q) addr"
  obtain r where r: "rp_record (np_recent q) addr (now + np_recent_ttl q) = Some r" "rp_inv r"
    "rp_capacity r = rp_capacity (np_recent q)"
    "rp_deadline r = (evict (rp_deadline (np_recent q)) ?v)(addr \<mapsto> now + np_recent_ttl q)"
    using record_ok [OF inv, of addr "now + np_recent_ttl q"] by (auto simp: ok_iff)
  have live: "(\<forall>b e. b \<noteq> addr \<longrightarrow> rp_deadline r b = Some e \<longrightarrow> now < e) \<and>
      length (rp_entries r) = rp_capacity r"
    if a: "a \<noteq> addr" "rp_deadline (np_recent pool) a = Some d" "now < d" "rp_deadline r a \<noteq> Some d"
      and lazy: "rp_lazy (np_recent pool)" for a d
  proof -
    have "rp_deadline (np_recent q) a = Some d"
      using ex a(2,3) unfolding expired_pool_def by (metis leD option.inject)
    then have v: "?v = Some a" using a(1,4) r(4) by (auto simp: evict_def split: option.splits if_splits)
    then have "hget (rp_entries (np_recent q)) addr = None"
      "length (rp_entries (np_recent q)) = rp_capacity (np_recent q)"
      by (auto simp: rp_victim_def split: if_splits)
    then have none: "due_entries (np_recent q) now = {}" using ready by (simp add: slot_ready_def)
    have lazy_q: "rp_lazy (np_recent q)" using ex lazy by (simp add: expired_pool_def)
    have "now < e" if "b \<noteq> addr" "rp_deadline r b = Some e" for b e
      using not_due_fresh [OF inv lazy_q none] that r(4) by (simp add: evict_def v split: if_splits)
    moreover have "length (rp_entries r) = rp_capacity r"
      using record_ok_length [OF inv, of addr "now + np_recent_ttl q"] v r by simp
    ultimately show ?thesis by blast
  qed
  have "recorded pool addr now (q \<lparr> np_recent := r \<rparr>)"
    unfolding recorded_def using ex r live by (simp add: expired_pool_def same_queue_def)
  then show ?thesis using r(1) by simp
qed

lemma record_probe_ok:
  assumes "rp_inv (np_recent pool)"
  shows "ok (np_record_probe cost pool addr now) (recorded pool addr now)"
proof -
  obtain q where q: "prepare_recent_slot cost pool addr now = Some q" "expired_pool pool now q"
    "slot_ready q addr now" using prepare_slot_ok [OF assms, of cost addr now] by (auto simp: ok_iff)
  then have "np_recent_ttl q = np_recent_ttl pool" by (simp add: expired_pool_def same_queue_def)
  then show ?thesis
    using record_in_slot [OF q(2,3)] q(1) by (simp add: np_record_probe_def)
qed

lemma recorded_inv: "np_inv pool \<Longrightarrow> recorded pool addr now pool' \<Longrightarrow> np_inv pool'"
  by (simp add: np_inv_def queue_inv_def recorded_def same_queue_def)

text \<open>The pool after its head \<open>entry\<close> was taken, before the probe is recorded.\<close>

definition without_front :: "node_pool \<Rightarrow> queued_node \<Rightarrow> node_pool" where
  "without_front pool entry = pool \<lparr> np_queue := tl (np_queue pool),
     np_queued := np_queued pool - {nt_addr (qn_node entry)} \<rparr>"

lemma without_front_inv:
  "np_inv pool \<Longrightarrow> np_queue pool = entry # rest \<Longrightarrow> np_inv (without_front pool entry)"
  by (auto simp: np_inv_def queue_inv_def without_front_def)

lemma take_front_ok:
  assumes inv: "np_inv pool"
  shows "ok (take_front_for_probe cost pool now) (\<lambda>(res, pool').
           case np_queue pool of
             [] \<Rightarrow> res = None \<and> pool' = pool
           | entry # rest \<Rightarrow> res = Some (qn_node entry) \<and> np_inv pool' \<and>
               recorded (without_front pool entry) (nt_addr (qn_node entry)) now pool')"
proof (cases "np_queue pool")
  case Nil
  then show ?thesis by (simp add: take_front_for_probe_def pop_front_internal_def)
next
  case (Cons entry rest)
  let ?w = "without_front pool entry"
  have w: "np_inv ?w" using inv Cons by (rule without_front_inv)
  then have rw: "rp_inv (np_recent ?w)" by (simp add: np_inv_def)
  have "ok (np_record_probe cost ?w (nt_addr (qn_node entry)) now)
      (\<lambda>p'. np_inv p' \<and> recorded ?w (nt_addr (qn_node entry)) now p')"
    by (rule ok_mono [OF record_probe_ok [OF rw]]) (use recorded_inv [OF w] in blast)
  moreover have "take_front_for_probe cost pool now =
      Option.bind (np_record_probe cost ?w (nt_addr (qn_node entry)) now) (\<lambda>p'. Some (Some (qn_node entry), p'))"
    using Cons
    by (simp add: take_front_for_probe_def pop_front_internal_def np_record_probe_def without_front_def)
  ultimately show ?thesis using Cons by (auto elim!: ok_mono)
qed

lemma restore_front_ok:
  assumes inv: "np_inv pool" and "is_valid_node_addr (nt_addr node)" and "nt_addr node \<notin> np_queued pool"
    and "length (np_queue pool) < np_capacity pool"
  shows "ok (restore_front pool node now) (\<lambda>pool'. np_inv pool' \<and>
           np_queue pool' = \<lparr> qn_node = node, qn_queued_at = now \<rparr> # np_queue pool \<and>
           rp_deadline (np_recent pool') (nt_addr node) = None)"
proof -
  have "rp_inv (np_recent pool)" using inv by (simp add: np_inv_def)
  from remove_ok [OF this, of "nt_addr node"] obtain r where r: "rp_remove (np_recent pool) (nt_addr node) = Some r"
    "rp_inv r" "rp_deadline r = (rp_deadline (np_recent pool))(nt_addr node := None)" by (auto simp: ok_iff)
  then show ?thesis using assms by (auto simp: restore_front_def np_inv_def queue_inv_def)
qed

subsection \<open>Runs of the pool\<close>

text \<open>
  The ways the crawl engine uses the pool. \<open>PoolProbe now sent\<close> takes the head for a probe and, when
  the query could not be dispatched, puts it back, as \<open>schedule_one\<close> does.
\<close>

datatype pool_op =
    PoolAdmit node_tuple instant
  | PoolRotate
  | PoolProbe instant bool
  | PoolRecord socket_addr instant
  | PoolContains socket_addr instant
  | PoolStats

fun pool_step :: "expiry_cost \<Rightarrow> node_pool \<Rightarrow> pool_op \<Rightarrow> node_pool option" where
  "pool_step cost pool (PoolAdmit node now) = map_option snd (admit cost pool node now)"
| "pool_step cost pool PoolRotate = Some (snd (rotate_front_to_back pool))"
| "pool_step cost pool (PoolProbe now sent) = do {
     (taken, pool) \<leftarrow> take_front_for_probe cost pool now;
     case taken of
       None \<Rightarrow> Some pool
     | Some node \<Rightarrow> if sent then Some pool else restore_front pool node now
   }"
| "pool_step cost pool (PoolRecord addr now) = np_record_probe cost pool addr now"
| "pool_step cost pool (PoolContains addr now) = map_option snd (contains_recent cost pool addr now)"
| "pool_step cost pool PoolStats = Some (snd (take_recent_expiry_stats pool))"

fun pool_run :: "expiry_cost \<Rightarrow> node_pool \<Rightarrow> pool_op list \<Rightarrow> node_pool option" where
  "pool_run cost pool [] = Some pool"
| "pool_run cost pool (e # es) = Option.bind (pool_step cost pool e) (\<lambda>p. pool_run cost p es)"

text \<open>The facts a run keeps: the invariant and both capacities.\<close>

definition pool_ok :: "nat \<Rightarrow> nat \<Rightarrow> node_pool \<Rightarrow> bool" where
  "pool_ok c rc pool = (np_inv pool \<and> np_capacity pool = c \<and> rp_capacity (np_recent pool) = rc)"

lemma rotate_ok: "pool_ok c rc pool \<Longrightarrow> pool_ok c rc (snd (rotate_front_to_back pool))"
  by (simp add: pool_ok_def np_inv_def queue_inv_def rotate_front_to_back_def rotate1_map [symmetric])

lemma admitted_capacity:
  "np_inv pool \<Longrightarrow>
   ok (admit cost pool node now) (\<lambda>(out, pool'). np_capacity pool' = np_capacity pool \<and>
     rp_capacity (np_recent pool') = rp_capacity (np_recent pool))"
  using expire_recent_ok [of pool cost now]
  by (auto simp: admit_def admit_enqueue_def pop_front_internal_def Let_def case_prod_beta ok_iff np_inv_def
      expired_pool_def same_queue_def split: list.splits if_splits)

lemma pool_step_ok:
  assumes "pool_ok c rc pool"
  shows "ok (pool_step cost pool e) (pool_ok c rc)"
proof (cases e)
  case (PoolAdmit node now)
  have inv: "np_inv pool" using assms by (simp add: pool_ok_def)
  show ?thesis
    unfolding PoolAdmit pool_step.simps ok_map_option
    by (rule ok_mono [OF ok_conjI [OF admit_ok [OF inv] admitted_capacity [OF inv]]])
       (use assms in \<open>auto simp: pool_ok_def\<close>)
next
  case PoolRotate
  then show ?thesis using rotate_ok [OF assms] by simp
next
  case (PoolProbe now sent)
  have inv: "np_inv pool" using assms by (simp add: pool_ok_def)
  show ?thesis
  proof (cases "np_queue pool")
    case Nil
    then show ?thesis using PoolProbe assms take_front_ok [OF inv, of cost now] by (auto elim!: ok_mono)
  next
    case (Cons entry rest)
    let ?a = "nt_addr (qn_node entry)" and ?w = "without_front pool entry"
    obtain q where q: "take_front_for_probe cost pool now = Some (Some (qn_node entry), q)" "np_inv q"
      "recorded ?w ?a now q"
      using take_front_ok [OF inv, of cost now] Cons by (auto simp: ok_iff)
    have okq: "pool_ok c rc q"
      using q assms by (simp add: pool_ok_def recorded_def same_queue_def without_front_def)
    have "is_valid_node_addr ?a" "?a \<notin> np_queued q" "length (np_queue q) < np_capacity q"
      using q(3) inv Cons by (auto simp: recorded_def same_queue_def without_front_def np_inv_def queue_inv_def)
    from restore_front_ok [OF q(2) this]
    have "ok (restore_front q (qn_node entry) now) (pool_ok c rc)"
      using okq remove_ok [of "np_recent q" ?a] q(2)
      by (auto simp: restore_front_def ok_iff pool_ok_def np_inv_def)
    then show ?thesis using PoolProbe q(1) okq by simp
  qed
next
  case (PoolRecord addr now)
  have inv: "np_inv pool" using assms by (simp add: pool_ok_def)
  then have "rp_inv (np_recent pool)" by (simp add: np_inv_def)
  then have "ok (np_record_probe cost pool addr now) (\<lambda>p'. recorded pool addr now p' \<and> np_inv p')"
    by (rule ok_mono [OF record_probe_ok]) (use recorded_inv [OF inv] in blast)
  then show ?thesis
    using PoolRecord assms by (auto elim!: ok_mono simp: pool_ok_def recorded_def same_queue_def)
next
  case (PoolContains addr now)
  have "np_inv pool" using assms by (simp add: pool_ok_def)
  then show ?thesis
    using PoolContains assms expire_recent_ok [of pool cost now] expired_pool_inv [of pool now]
    by (auto elim!: ok_mono simp: contains_recent_def pool_ok_def np_inv_def [of pool] expired_pool_def same_queue_def)
next
  case PoolStats
  then show ?thesis
    using assms by (simp add: take_recent_expiry_stats_def pool_ok_def np_inv_def queue_inv_def)
qed

interpretation np: guarded_machine "pool_step cost" "pool_ok c rc" for cost c rc
  by unfold_locales (rule pool_step_ok)

lemma pool_run_eq: "pool_run cost pool es = np.run cost pool es"
  by (induction es arbitrary: pool) simp_all




text \<open>
  C7. Recording a probe forgets an endpoint that is still inside its window only when the table
  is full and every other endpoint in it is inside its window too: a lazily refreshed heap head
  never hides an expired neighbour. The loop that makes room always ends.
\<close>

theorem node_pool_evicts_live_last:
  assumes "np_inv pool" and "rp_lazy (np_recent pool)"
  shows "ok (np_record_probe cost pool addr now) (\<lambda>pool'.
           rp_deadline (np_recent pool') addr = Some (now + np_recent_ttl pool) \<and>
           (\<forall>a d. a \<noteq> addr \<longrightarrow> rp_deadline (np_recent pool) a = Some d \<longrightarrow> now < d \<longrightarrow>
              rp_deadline (np_recent pool') a \<noteq> Some d \<longrightarrow>
              length (rp_entries (np_recent pool')) = rp_capacity (np_recent pool') \<and>
              (\<forall>b e. b \<noteq> addr \<longrightarrow> rp_deadline (np_recent pool') b = Some e \<longrightarrow> now < e)))"
proof -
  have "rp_inv (np_recent pool)" using assms(1) by (simp add: np_inv_def)
  then show ?thesis
    by (rule ok_mono [OF record_probe_ok]) (use assms(2) in \<open>simp add: recorded_def\<close>)
qed

subsection \<open>Concrete runs\<close>

definition node_a :: node_tuple where
  "node_a = \<lparr> nt_id = replicate 20 1, nt_addr = SockV4 [8, 8, 8, 8] 6881 \<rparr>"

definition node_b :: node_tuple where
  "node_b = \<lparr> nt_id = replicate 20 2, nt_addr = SockV4 [9, 9, 9, 9] 6881 \<rparr>"

definition one_slot_pool :: node_pool where
  "one_slot_pool = np_new 1 60 100 1 0"

lemma one_slot_inv: "np_inv one_slot_pool" "rp_lazy (np_recent one_slot_pool)"
  by (simp_all add: one_slot_pool_def np_inv_new) (simp add: np_new_def Let_def rp_lazy_new)

definition pool_with_a :: node_pool where
  "pool_with_a = snd (the (admit (\<lambda>_ _. 0) one_slot_pool node_a 0))"

lemma pool_with_a_run: "admit (\<lambda>_ _. 0) one_slot_pool node_a 0 = Some (Admitted, pool_with_a)"
proof -
  have "map_option fst (admit (\<lambda>_ _. 0) one_slot_pool node_a 0) = Some Admitted" by code_simp
  then show ?thesis by (auto simp: pool_with_a_def)
qed



theorem node_pool_evicts_live_last_witness:
  "\<exists>pool'. np_record_probe (\<lambda>_ _. 0) one_slot_pool (nt_addr node_b) 3 = Some pool' \<and>
           rp_deadline (np_recent pool') (nt_addr node_b) = Some 103"
proof -
  have "np_recent_ttl one_slot_pool = 100" by (simp add: one_slot_pool_def np_new_def Let_def)
  then show ?thesis
    using node_pool_evicts_live_last [OF one_slot_inv, of "\<lambda>_ _. 0" "nt_addr node_b" 3] by (auto simp: ok_iff)
qed

end
