(* ===== verification/Routing_Snapshot.thy ===== *)
theory Routing_Snapshot
  imports Net_Types "HOL-Library.Multiset"
begin

text \<open>
  \<open>src/src/routing_snapshot.rs\<close>: the immutable routing table. \<open>prefix_index\<close> is the Patricia trie over
  sorted node ids, laid out in an array of branches that refer to each other by position;
  \<open>build\<close>, \<open>visit\<close>, \<open>append_nearest\<close>, \<open>from_nodes\<close>, \<open>random_nodes\<close>, \<open>closest_nodes\<close> and
  \<open>xor_distance_cmp\<close> follow the source. \<open>build\<close> and \<open>visit\<close> recurse through array positions and are
  partial functions: a result of \<open>None\<close> stands for an index out of bounds or a recursion that does
  not end, and the lemmas show that neither happens.

  The data abstraction is \<open>ptree\<close>, a tree that an array of branches \<open>represents\<close>. The main theorem:
  a query for the closest nodes returns the same list as sorting all nodes of the snapshot by
  their XOR distance to the target (ties by address) and keeping the first ones.
\<close>

unbundle bit_operations_syntax

datatype prefix_branch = Leaf nat nat | Split nat nat nat

record prefix_index =
  pi_nodes :: "node_tuple list"
  pi_branches :: "prefix_branch list"
  pi_root :: "nat option"

definition pi_default :: prefix_index where
  "pi_default = \<lparr> pi_nodes = [], pi_branches = [], pi_root = None \<rparr>"

definition slice :: "nat \<Rightarrow> nat \<Rightarrow> 'a list \<Rightarrow> 'a list" where
  "slice i j xs = take (j - i) (drop i xs)"

text \<open>\<open>zip\<close> and \<open>position\<close>: the first index at which two lists differ.\<close>

fun first_diff :: "'a list \<Rightarrow> 'a list \<Rightarrow> nat option" where
  "first_diff (x # xs) (y # ys) = (if x \<noteq> y then Some 0 else map_option Suc (first_diff xs ys))"
| "first_diff [] ys = None"
| "first_diff xs [] = None"

definition leading_zeros8 :: "u8 \<Rightarrow> nat" where
  "leading_zeros8 w = length (takeWhile (\<lambda>i. \<not> bit w (7 - i)) [0..<8])"

definition node_key :: "node_tuple \<Rightarrow> bytes \<times> socket_addr" where
  "node_key n = (nt_id n, nt_addr n)"

partial_function (option) build ::
  "node_tuple list \<Rightarrow> prefix_branch list \<Rightarrow> nat \<Rightarrow> nat \<Rightarrow> (nat \<times> prefix_branch list) option" where
  "build nodes br start en =
     (if \<not> (start < length nodes \<and> 0 < en \<and> en \<le> length nodes \<and> start \<le> en) then None
      else let first = nt_id (nodes ! start); last = nt_id (nodes ! (en - 1)) in
        case first_diff first last of
          None \<Rightarrow> Some (length br, br @ [Leaf start en])
        | Some byte \<Rightarrow>
            let b = byte * 8 + leading_zeros8 (first ! byte XOR last ! byte);
                mask = push_bit (7 - b mod 8) (1 :: u8);
                middle = start + length (takeWhile (\<lambda>node. nt_id node ! byte AND mask = 0) (slice start en nodes))
            in Option.bind (build nodes br start middle) (\<lambda>zero.
               Option.bind (build nodes (snd zero) middle en) (\<lambda>one.
               Some (length (snd one), snd one @ [Split b (fst zero) (fst one)]))))"

declare build.simps [code]

definition pi_new :: "node_tuple list \<Rightarrow> prefix_index option" where
  "pi_new nodes =
     (let nodes = sort_key node_key nodes in
      if nodes = [] then Some \<lparr> pi_nodes = nodes, pi_branches = [], pi_root = None \<rparr>
      else do {
        (root, branches) \<leftarrow> build nodes [] 0 (length nodes);
        Some \<lparr> pi_nodes = nodes, pi_branches = branches, pi_root = Some root \<rparr>
      })"

partial_function (option) visit ::
  "prefix_index \<Rightarrow> nat \<Rightarrow> bytes \<Rightarrow> nat \<Rightarrow> node_tuple list \<Rightarrow> (nat \<times> node_tuple list) option" where
  "visit idx branch target limit output =
     (if limit \<le> length output then Some (0, output)
      else if length (pi_branches idx) \<le> branch then None
      else case pi_branches idx ! branch of
          Leaf start en \<Rightarrow>
            let stop = min en (start + limit - length output) in
            if start \<le> stop \<and> stop \<le> length (pi_nodes idx)
            then Some (1, output @ slice start stop (pi_nodes idx)) else None
        | Split b zero one \<Rightarrow>
            let near = (if target ! (b div 8) AND push_bit (7 - b mod 8) 1 = 0 then zero else one);
                far = (if target ! (b div 8) AND push_bit (7 - b mod 8) 1 = 0 then one else zero)
            in Option.bind (visit idx near target limit output) (\<lambda>r.
               Option.bind (visit idx far target limit (snd r)) (\<lambda>r'.
               Some (1 + fst r + fst r', snd r'))))"

declare visit.simps [code]

definition append_nearest ::
  "prefix_index \<Rightarrow> bytes \<Rightarrow> nat \<Rightarrow> node_tuple list \<Rightarrow> (nat \<times> node_tuple list) option" where
  "append_nearest idx target cnt output =
     (case pi_root idx of
        None \<Rightarrow> Some (0, output)
      | Some root \<Rightarrow> visit idx root target (length output + min cnt (length (pi_nodes idx))) output)"

record routing_snapshot =
  rs_v4 :: prefix_index
  rs_v6 :: prefix_index

definition from_nodes :: "node_tuple list \<Rightarrow> nat \<Rightarrow> routing_snapshot option" where
  "from_nodes nodes limit =
     (let nodes = take limit nodes;
          v6_count = length (filter (\<lambda>node. is_ipv6 (nt_addr node)) nodes)
      in if v6_count = 0 then do {
           v4 \<leftarrow> pi_new nodes;
           Some \<lparr> rs_v4 = v4, rs_v6 = pi_default \<rparr>
         } else if v6_count = length nodes then do {
           v6 \<leftarrow> pi_new nodes;
           Some \<lparr> rs_v4 = pi_default, rs_v6 = v6 \<rparr>
         } else do {
           v4 \<leftarrow> pi_new (filter (\<lambda>node. \<not> is_ipv6 (nt_addr node)) nodes);
           v6 \<leftarrow> pi_new (filter (\<lambda>node. is_ipv6 (nt_addr node)) nodes);
           Some \<lparr> rs_v4 = v4, rs_v6 = v6 \<rparr>
         })"

datatype ordering = Less | Equal | Greater

fun cmp_bytes :: "nat list \<Rightarrow> bytes \<Rightarrow> bytes \<Rightarrow> bytes \<Rightarrow> ordering" where
  "cmp_bytes [] left right target = Equal"
| "cmp_bytes (i # is) left right target =
     (let l = left ! i XOR target ! i; r = right ! i XOR target ! i
      in if l < r then Less else if r < l then Greater else cmp_bytes is left right target)"

definition xor_distance_cmp :: "bytes \<Rightarrow> bytes \<Rightarrow> bytes \<Rightarrow> ordering" where
  "xor_distance_cmp left right target = cmp_bytes [0..<20] left right target"

text \<open>\<open>sort_unstable_by\<close> with a comparison that orders the elements totally.\<close>

fun insort_by :: "('a \<Rightarrow> 'a \<Rightarrow> bool) \<Rightarrow> 'a \<Rightarrow> 'a list \<Rightarrow> 'a list" where
  "insort_by le x [] = [x]"
| "insort_by le x (y # ys) = (if le x y then x # y # ys else y # insort_by le x ys)"

definition sort_by :: "('a \<Rightarrow> 'a \<Rightarrow> bool) \<Rightarrow> 'a list \<Rightarrow> 'a list" where
  "sort_by le xs = foldr (insort_by le) xs []"

definition closer_or_equal :: "bytes \<Rightarrow> node_tuple \<Rightarrow> node_tuple \<Rightarrow> bool" where
  "closer_or_equal target left right =
     (case xor_distance_cmp (nt_id left) (nt_id right) target of
        Less \<Rightarrow> True | Greater \<Rightarrow> False | Equal \<Rightarrow> nt_addr left \<le> nt_addr right)"

definition closest_nodes ::
  "routing_snapshot \<Rightarrow> bytes \<Rightarrow> nat \<Rightarrow> bool option \<Rightarrow> node_tuple list option" where
  "closest_nodes snap target cnt filter_ipv6 =
     (if cnt = 0 then Some []
      else case filter_ipv6 of
          Some True \<Rightarrow> map_option snd (append_nearest (rs_v6 snap) target cnt [])
        | Some False \<Rightarrow> map_option snd (append_nearest (rs_v4 snap) target cnt [])
        | None \<Rightarrow> do {
            (_, nodes) \<leftarrow> append_nearest (rs_v4 snap) target cnt [];
            (_, nodes) \<leftarrow> append_nearest (rs_v6 snap) target cnt nodes;
            Some (take cnt (sort_by (closer_or_equal target) nodes))
          })"

text \<open>
  The random choices of \<open>rand\<close> are parameters: \<open>choose_multiple\<close>, \<open>sample total n\<close>
  the indices drawn by \<open>index::sample\<close>.
\<close>

definition random_nodes ::
  "(node_tuple list \<Rightarrow> nat \<Rightarrow> node_tuple list) \<Rightarrow> (nat \<Rightarrow> nat \<Rightarrow> nat list) \<Rightarrow>
   routing_snapshot \<Rightarrow> nat \<Rightarrow> bool option \<Rightarrow> node_tuple list" where
  "random_nodes choose_multiple sample snap cnt filter_ipv6 =
     (let v4 = pi_nodes (rs_v4 snap); v6 = pi_nodes (rs_v6 snap) in
      case filter_ipv6 of
        Some True \<Rightarrow> choose_multiple v6 cnt
      | Some False \<Rightarrow> choose_multiple v4 cnt
      | None \<Rightarrow> let total = length v4 + length v6 in
          map (\<lambda>index. if index < length v4 then v4 ! index else v6 ! (index - length v4))
              (sample total (min cnt total)))"

subsection \<open>Bits of a byte\<close>

lemma leading_zeros8:
  assumes "w \<noteq> 0"
  shows "leading_zeros8 w < 8" and "bit w (7 - leading_zeros8 w)"
    and "7 - leading_zeros8 w < j \<Longrightarrow> \<not> bit w j"
proof -
  let ?P = "\<lambda>i. \<not> bit w (7 - i)" and ?n = "leading_zeros8 w"
  have below: "\<not> bit w (7 - i)" if "i < ?n" for i
  proof -
    have "takeWhile ?P [0..<8] ! i = [0..<8] ! i" and "i < 8"
      using that length_takeWhile_le [of ?P "[0..<8]"]
      by (auto simp: leading_zeros8_def takeWhile_nth)
    moreover have "takeWhile ?P [0..<8] ! i \<in> set (takeWhile ?P [0..<8])"
      using that by (intro nth_mem) (simp add: leading_zeros8_def)
    ultimately show ?thesis by (auto dest: set_takeWhileD)
  qed
  show n: "?n < 8"
  proof (rule ccontr)
    assume "\<not> ?n < 8"
    then have "\<not> bit w j" if "j < 8" for j using below [of "7 - j"] that by simp
    then have "w = 0" by (intro bit_word_eqI) auto
    then show False using assms by simp
  qed
  have "?n < length [0..<8]" using n by simp
  then have "\<not> ?P ([0..<8] ! ?n)"
    unfolding leading_zeros8_def by (rule nth_length_takeWhile)
  then show "bit w (7 - ?n)" using n by simp
  show "\<not> bit w j" if "7 - ?n < j"
  proof (cases "j < 8")
    case True
    then show ?thesis using below [of "7 - j"] that by simp
  next
    case False
    then show ?thesis by (auto dest: bit_imp_le_length)
  qed
qed

lemma mask_bit: "(x :: u8) AND push_bit k 1 = 0 \<longleftrightarrow> \<not> bit x k"
  by (simp add: and_exp_eq_0_iff_not_bit)

lemma nat_bit_less:
  fixes a b k :: nat
  assumes "a div 2 ^ Suc k = b div 2 ^ Suc k" and "even (a div 2 ^ k)" and "odd (b div 2 ^ k)"
  shows "a < b"
proof -
  have "a div 2 ^ k = 2 * (a div 2 ^ Suc k)" and "b div 2 ^ k = 2 * (b div 2 ^ Suc k) + 1"
    using assms(2,3) by (simp_all add: div_mult2_eq power_Suc2 odd_two_times_div_two_succ del: power_Suc)
  then have "a div 2 ^ k < b div 2 ^ k" using assms(1) by simp
  then show ?thesis using div_le_mono [of b a "2 ^ k"] by (meson not_le)
qed

lemma unat_drop_bit8: "unat (drop_bit n (a :: u8)) = unat a div 2 ^ n"
  unfolding unsigned_drop_bit_eq by (simp add: drop_bit_eq_div take_bit_nat_eq_self)

lemma bit_unat8: "bit (a :: u8) k \<longleftrightarrow> odd (unat a div 2 ^ k)"
proof -
  have "bit (unat a) k \<longleftrightarrow> bit a k" by (auto simp: bit_unsigned_iff dest: bit_imp_le_length)
  then show ?thesis by (simp add: bit_iff_odd)
qed

lemma byte_bit_less:
  fixes a b :: u8
  assumes "drop_bit (Suc k) a = drop_bit (Suc k) b" and "\<not> bit a k" and "bit b k"
  shows "a < b"
proof -
  have "unat a div 2 ^ Suc k = unat b div 2 ^ Suc k"
    using arg_cong [OF assms(1), of unat] by (simp only: unat_drop_bit8)
  then show ?thesis
    unfolding word_less_nat_alt using assms(2,3) unfolding bit_unat8 by (intro nat_bit_less) simp_all
qed

lemma byte_between:
  fixes f x l :: u8
  assumes "f \<le> x" and "x \<le> l" and "drop_bit n f = drop_bit n l"
  shows "drop_bit n x = drop_bit n f"
proof -
  have "unat f div 2 ^ n = unat l div 2 ^ n"
    using arg_cong [OF assms(3), of unat] by (simp only: unat_drop_bit8)
  moreover have "unat f div 2 ^ n \<le> unat x div 2 ^ n" and "unat x div 2 ^ n \<le> unat l div 2 ^ n"
    using assms(1,2) by (simp_all add: word_le_nat_alt div_le_mono)
  ultimately have "unat x div 2 ^ n = unat f div 2 ^ n" by linarith
  then show ?thesis
    unfolding word_unat_eq_iff by (simp only: unat_drop_bit8)
qed

lemma first_differing_bit:
  fixes f l :: u8
  assumes "f < l"
  defines "k \<equiv> 7 - leading_zeros8 (f XOR l)"
  shows "drop_bit (Suc k) f = drop_bit (Suc k) l" and "\<not> bit f k" and "bit l k"
proof -
  have nz: "f XOR l \<noteq> 0"
  proof
    assume "f XOR l = 0"
    then have "bit (f XOR l) n = False" for n by simp
    then have "f = l" by (intro bit_eqI) (simp add: bit_xor_iff)
    then show False using assms(1) by simp
  qed
  have "bit f j = bit l j" if "k < j" for j
    using leading_zeros8(3) [OF nz, of j] that by (simp add: k_def bit_xor_iff)
  then show high: "drop_bit (Suc k) f = drop_bit (Suc k) l"
    by (intro bit_eqI) (simp add: bit_drop_bit_eq)
  have "bit f k \<noteq> bit l k" using leading_zeros8(2) [OF nz] by (simp add: k_def bit_xor_iff)
  moreover have "\<not> (bit f k \<and> \<not> bit l k)"
    using byte_bit_less [OF high [symmetric]] less_asym [OF assms(1)] by blast
  ultimately show "\<not> bit f k" and "bit l k" by blast+
qed

subsection \<open>Lexicographic comparison\<close>

lemma lex_less_at:
  fixes xs ys :: "'a::linorder list"
  shows "take i xs = take i ys \<Longrightarrow> i < length xs \<Longrightarrow> i < length ys \<Longrightarrow> xs ! i < ys ! i \<Longrightarrow> xs < ys"
proof (induction i arbitrary: xs ys)
  case 0
  then show ?case by (cases xs; cases ys) simp_all
next
  case (Suc i)
  then show ?case by (cases xs; cases ys) simp_all
qed

lemma lex_between:
  fixes f x l :: "'a::linorder list"
  shows "f \<le> x \<Longrightarrow> x \<le> l \<Longrightarrow> take i f = take i l \<Longrightarrow> i \<le> length f \<Longrightarrow> take i x = take i f"
proof (induction i arbitrary: f x l)
  case (Suc i)
  from Suc.prems(3,4) obtain a f' l' where f: "f = a # f'" and l: "l = a # l'" and t: "take i f' = take i l'"
    by (cases f; cases l) auto
  from Suc.prems(1) f obtain c x' where x: "x = c # x'" by (cases x) auto
  from Suc.prems(1,2) have c: "c = a" and le: "f' \<le> x'" "x' \<le> l'" by (auto simp: f l x)
  have "i \<le> length f'" using Suc.prems(4) f by simp
  with le t have "take i x' = take i f'" by (rule Suc.IH)
  then show ?case by (simp add: f x c)
qed simp

lemma lex_le_at:
  fixes xs ys :: "'a::linorder list"
  assumes "xs \<le> ys" and "take i xs = take i ys" and "i < length xs" and "i < length ys"
  shows "xs ! i \<le> ys ! i"
  using lex_less_at [of i ys xs] assms by (metis leD not_le_imp_less)

lemma first_diff_Some:
  "first_diff xs ys = Some i \<Longrightarrow> i < length xs \<and> i < length ys \<and> take i xs = take i ys \<and> xs ! i \<noteq> ys ! i"
  by (induction xs ys arbitrary: i rule: first_diff.induct) (auto split: if_splits)

lemma first_diff_None: "first_diff xs ys = None \<Longrightarrow> length xs = length ys \<Longrightarrow> xs = ys"
  by (induction xs ys rule: first_diff.induct) (auto split: if_splits)

subsection \<open>Trees and their array layout\<close>

datatype ptree = PLeaf nat nat | PSplit nat ptree ptree

fun represents :: "prefix_branch list \<Rightarrow> nat \<Rightarrow> ptree \<Rightarrow> bool" where
  "represents br pos (PLeaf s e) = (pos < length br \<and> br ! pos = Leaf s e)"
| "represents br pos (PSplit b l r) =
     (pos < length br \<and> (\<exists>zero one. br ! pos = Split b zero one \<and> represents br zero l \<and> represents br one r))"

lemma represents_append: "represents br pos t \<Longrightarrow> represents (br @ ext) pos t"
  by (induction t arbitrary: pos) (auto simp: nth_append)

text \<open>
  \<open>splits nodes b st mid en\<close>: the ids in \<open>[st, en)\<close> agree before bit \<open>b\<close>, those before \<open>mid\<close> have that bit
  clear and those from \<open>mid\<close> on have it set.
\<close>

definition splits :: "node_tuple list \<Rightarrow> nat \<Rightarrow> nat \<Rightarrow> nat \<Rightarrow> nat \<Rightarrow> bool" where
  "splits nodes b st mid en =
     (b div 8 < 20 \<and> (\<forall>i\<in>{st..<mid}. \<forall>j\<in>{mid..<en}.
        take (b div 8) (nt_id (nodes ! i)) = take (b div 8) (nt_id (nodes ! j)) \<and>
        drop_bit (Suc (7 - b mod 8)) (nt_id (nodes ! i) ! (b div 8)) =
          drop_bit (Suc (7 - b mod 8)) (nt_id (nodes ! j) ! (b div 8)) \<and>
        \<not> bit (nt_id (nodes ! i) ! (b div 8)) (7 - b mod 8) \<and>
        bit (nt_id (nodes ! j) ! (b div 8)) (7 - b mod 8)))"

fun tree_wf :: "node_tuple list \<Rightarrow> ptree \<Rightarrow> nat \<Rightarrow> nat \<Rightarrow> bool" where
  "tree_wf nodes (PLeaf s e) st en =
     (s = st \<and> e = en \<and> st < en \<and> en \<le> length nodes \<and>
      (\<forall>j\<in>{st..<en}. nt_id (nodes ! j) = nt_id (nodes ! st)))"
| "tree_wf nodes (PSplit b l r) st en =
     (\<exists>mid. tree_wf nodes l st mid \<and> tree_wf nodes r mid en \<and> splits nodes b st mid en)"

lemma tree_wf_range: "tree_wf nodes t st en \<Longrightarrow> st < en \<and> en \<le> length nodes"
proof (induction t arbitrary: st en)
  case (PSplit b l r)
  then obtain mid where "st < mid" "mid < en" "en \<le> length nodes" by fastforce
  then show ?case by simp
qed simp

definition nodes_wf :: "node_tuple list \<Rightarrow> bool" where
  "nodes_wf nodes = (sorted (map node_key nodes) \<and> (\<forall>n\<in>set nodes. length (nt_id n) = 20))"

lemma nodes_wf_ids:
  assumes "nodes_wf nodes" and "i \<le> j" and "j < length nodes"
  shows "nt_id (nodes ! i) \<le> nt_id (nodes ! j)"
proof -
  have "map node_key nodes ! i \<le> map node_key nodes ! j"
    using assms by (intro sorted_nth_mono) (simp_all add: nodes_wf_def)
  then show ?thesis using assms by (auto simp: node_key_def less_eq_prod_def)
qed

lemma nodes_wf_len: "nodes_wf nodes \<Longrightarrow> i < length nodes \<Longrightarrow> length (nt_id (nodes ! i)) = 20"
  by (simp add: nodes_wf_def)

lemma nth_slice: "i < j - st \<Longrightarrow> j \<le> length xs \<Longrightarrow> slice st j xs ! i = xs ! (st + i)"
  by (simp add: slice_def)

lemma length_slice [simp]: "j \<le> length xs \<Longrightarrow> length (slice i j xs) = j - i"
  by (simp add: slice_def)

text \<open>A predicate that, once false, stays false is split by \<open>takeWhile\<close> (\<open>partition_point\<close>).\<close>

lemma takeWhile_partition:
  assumes mono: "\<And>i j. i \<le> j \<Longrightarrow> j < length xs \<Longrightarrow> P (xs ! j) \<Longrightarrow> P (xs ! i)"
  defines "n \<equiv> length (takeWhile P xs)"
  shows "i < n \<Longrightarrow> P (xs ! i)" and "n \<le> i \<Longrightarrow> i < length xs \<Longrightarrow> \<not> P (xs ! i)"
proof -
  show "P (xs ! i)" if "i < n"
    using that nth_mem [of i "takeWhile P xs"] by (auto simp: n_def takeWhile_nth dest: set_takeWhileD)
  show "\<not> P (xs ! i)" if i: "n \<le> i" "i < length xs"
  proof
    assume "P (xs ! i)"
    then have "P (xs ! n)" using mono i by blast
    moreover have "n < length xs" using i by simp
    then have "\<not> P (xs ! n)" unfolding n_def by (rule nth_length_takeWhile)
    ultimately show False by simp
  qed
qed

text \<open>The facts one step of \<open>build\<close> relies on: ids between \<open>first\<close> and \<open>last\<close> share their prefix.\<close>

lemma build_split:
  fixes nodes :: "node_tuple list"
  assumes wf: "nodes_wf nodes" and r: "st < en" "en \<le> length nodes"
    and diff: "first_diff (nt_id (nodes ! st)) (nt_id (nodes ! (en - 1))) = Some byte"
  defines "k \<equiv> 7 - leading_zeros8 (nt_id (nodes ! st) ! byte XOR nt_id (nodes ! (en - 1)) ! byte)"
  shows "byte < 20"
    and "\<not> bit (nt_id (nodes ! st) ! byte) k" and "bit (nt_id (nodes ! (en - 1)) ! byte) k"
    and "\<And>i. st \<le> i \<Longrightarrow> i < en \<Longrightarrow> take byte (nt_id (nodes ! i)) = take byte (nt_id (nodes ! st)) \<and>
           drop_bit (Suc k) (nt_id (nodes ! i) ! byte) = drop_bit (Suc k) (nt_id (nodes ! st) ! byte)"
    and "\<And>i j. st \<le> i \<Longrightarrow> i \<le> j \<Longrightarrow> j < en \<Longrightarrow> \<not> bit (nt_id (nodes ! j) ! byte) k \<Longrightarrow>
           \<not> bit (nt_id (nodes ! i) ! byte) k"
proof -
  let ?id = "\<lambda>i. nt_id (nodes ! i)"
  have len: "length (?id i) = 20" if "i < en" for i using nodes_wf_len [OF wf, of i] that r by simp
  have ord: "?id i \<le> ?id j" if "i \<le> j" "j < en" for i j using nodes_wf_ids [OF wf that(1)] that r by simp
  have d: "byte < 20" "take byte (?id st) = take byte (?id (en - 1))" "?id st ! byte \<noteq> ?id (en - 1) ! byte"
    using first_diff_Some [OF diff] len [OF r(1)] by simp_all
  then show "byte < 20" by simp
  have last: "en - 1 < en" "st \<le> en - 1" using r by simp_all
  have pre: "take byte (?id i) = take byte (?id st)" if "st \<le> i" "i < en" for i
    using that d(1) len [OF r(1)] by (intro lex_between [OF ord [of st i] ord [of i "en - 1"] d(2)]) simp_all
  have at: "?id i ! byte \<le> ?id j ! byte" if "st \<le> i" "i \<le> j" "j < en" for i j
    using that d(1) len [of i] len [of j] pre [of i] pre [of j] ord [of i j] by (intro lex_le_at) simp_all
  have "?id st ! byte < ?id (en - 1) ! byte" using at [of st "en - 1"] last d(3) by simp
  note bits = first_differing_bit [OF this, folded k_def]
  show "\<not> bit (?id st ! byte) k" and "bit (?id (en - 1) ! byte) k" by (fact bits(2,3))+
  have high: "drop_bit (Suc k) (?id i ! byte) = drop_bit (Suc k) (?id st ! byte)" if "st \<le> i" "i < en" for i
    using that by (intro byte_between [OF at [of st i] at [of i "en - 1"] bits(1)]) simp_all
  show "take byte (?id i) = take byte (?id st) \<and>
      drop_bit (Suc k) (?id i ! byte) = drop_bit (Suc k) (?id st ! byte)" if "st \<le> i" "i < en" for i
    using pre high that by blast
  show "\<not> bit (?id i ! byte) k" if ij: "st \<le> i" "i \<le> j" "j < en" "\<not> bit (?id j ! byte) k" for i j
  proof
    assume b: "bit (?id i ! byte) k"
    have "drop_bit (Suc k) (?id j ! byte) = drop_bit (Suc k) (?id i ! byte)"
      using high [of i] high [of j] ij by simp
    then have "?id j ! byte < ?id i ! byte" using ij(4) b by (rule byte_bit_less)
    then show False using at [of i j] ij by simp
  qed
qed

lemma build_middle:
  assumes wf: "nodes_wf nodes" and r: "st < en" "en \<le> length nodes"
    and diff: "first_diff (nt_id (nodes ! st)) (nt_id (nodes ! (en - 1))) = Some byte"
  defines "b \<equiv> byte * 8 + leading_zeros8 (nt_id (nodes ! st) ! byte XOR nt_id (nodes ! (en - 1)) ! byte)"
  defines "mid \<equiv> st + length (takeWhile (\<lambda>node. nt_id node ! byte AND push_bit (7 - b mod 8) 1 = 0)
                                   (slice st en nodes))"
  shows "st < mid" and "mid < en" and "splits nodes b st mid en"
proof -
  let ?id = "\<lambda>i. nt_id (nodes ! i)"
  let ?w = "?id st ! byte XOR ?id (en - 1) ! byte"
  note sp = build_split [OF wf r diff]
  have "?w \<noteq> 0" using sp(2,3) by (metis xor_self_eq bit_0_eq bot_apply bot_bool_def bit_xor_iff)
  then have "leading_zeros8 ?w < 8" by (rule leading_zeros8(1))
  then have b: "b div 8 = byte" "b mod 8 = leading_zeros8 ?w" by (simp_all add: b_def)
  define k where "k = 7 - leading_zeros8 ?w"
  have k: "7 - b mod 8 = k" by (simp add: k_def b)
  let ?P = "\<lambda>node. \<not> bit (nt_id node ! byte) k" and ?xs = "slice st en nodes"
  have mid: "mid = st + length (takeWhile ?P ?xs)" by (simp only: mid_def mask_bit k)
  have nth: "?xs ! i = nodes ! (st + i)" if "i < en - st" for i using that r(2) by (rule nth_slice)
  have mono: "?P (?xs ! i)" if "i \<le> j" "j < length ?xs" "?P (?xs ! j)" for i j
    using that r nth [of i] nth [of j] sp(5) [of "st + i" "st + j", folded k_def] by simp
  have part: "?P (?xs ! i)" if "i < length (takeWhile ?P ?xs)" for i
    using that by (rule takeWhile_partition(1) [rotated]) (rule mono)
  have part': "\<not> ?P (?xs ! i)" if "length (takeWhile ?P ?xs) \<le> i" "i < length ?xs" for i
    using that by (rule takeWhile_partition(2) [rotated]) (rule mono)
  have low: "\<not> bit (?id i ! byte) k" if "st \<le> i" "i < mid" for i
  proof -
    have "i - st < length (takeWhile ?P ?xs)" using that by (simp add: mid)
    then have "?P (?xs ! (i - st))" by (rule part)
    moreover have "i - st < en - st"
      using \<open>i - st < length (takeWhile ?P ?xs)\<close> length_takeWhile_le [of ?P ?xs] r(2) by simp
    ultimately show ?thesis using nth [of "i - st"] that(1) by simp
  qed
  have high: "bit (?id i ! byte) k" if "mid \<le> i" "i < en" for i
  proof -
    have "length (takeWhile ?P ?xs) \<le> i - st" and "i - st < length ?xs"
      using that r by (simp_all add: mid)
    then have "\<not> ?P (?xs ! (i - st))" by (rule part')
    then show ?thesis using nth [of "i - st"] that mid by simp
  qed
  show m1: "st < mid" using high [of st] sp(2) [folded k_def] r(1) by (meson not_le order_refl)
  show m2: "mid < en" using low [of "en - 1"] sp(3) [folded k_def] r(1) by (cases "mid < en") auto
  show "splits nodes b st mid en"
    unfolding splits_def b(1) k
  proof (intro conjI ballI sp(1))
    fix i j assume i: "i \<in> {st..<mid}" and j: "j \<in> {mid..<en}"
    then have ri: "st \<le> i" "i < en" "i < mid" and rj: "st \<le> j" "j < en" "mid \<le> j" using m1 m2 by auto
    note si = sp(4) [OF ri(1,2), folded k_def] and sj = sp(4) [OF rj(1,2), folded k_def]
    show "take byte (?id i) = take byte (?id j)" using si sj by metis
    show "drop_bit (Suc k) (?id i ! byte) = drop_bit (Suc k) (?id j ! byte)" using si sj by metis
    show "\<not> bit (?id i ! byte) k" using ri(1,3) by (rule low)
    show "bit (?id j ! byte) k" using rj(3,2) by (rule high)
  qed
qed

lemma build_leaf:
  assumes wf: "nodes_wf nodes" and r: "st < en" "en \<le> length nodes"
    and "first_diff (nt_id (nodes ! st)) (nt_id (nodes ! (en - 1))) = None" and j: "j \<in> {st..<en}"
  shows "nt_id (nodes ! j) = nt_id (nodes ! st)"
proof -
  have "nt_id (nodes ! st) = nt_id (nodes ! (en - 1))"
    using assms(4) nodes_wf_len [OF wf, of st] nodes_wf_len [OF wf, of "en - 1"] r
    by (intro first_diff_None) simp_all
  moreover have "nt_id (nodes ! st) \<le> nt_id (nodes ! j)" and "nt_id (nodes ! j) \<le> nt_id (nodes ! (en - 1))"
    using nodes_wf_ids [OF wf, of st j] nodes_wf_ids [OF wf, of j "en - 1"] j r by auto
  ultimately show ?thesis by (simp add: order_antisym)
qed

lemma build_ok:
  assumes wf: "nodes_wf nodes"
  shows "st < en \<Longrightarrow> en \<le> length nodes \<Longrightarrow>
     ok (build nodes br st en) (\<lambda>(pos, br'). \<exists>t ext. br' = br @ ext \<and> represents br' pos t \<and> tree_wf nodes t st en)"
proof (induction "en - st" arbitrary: br st en rule: less_induct)
  case less
  note r = less.prems
  show ?case
  proof (cases "first_diff (nt_id (nodes ! st)) (nt_id (nodes ! (en - 1)))")
    case None
    have "build nodes br st en = Some (length br, br @ [Leaf st en])"
      using r None by (subst build.simps) simp
    moreover have "represents (br @ [Leaf st en]) (length br) (PLeaf st en)" by simp
    moreover have "tree_wf nodes (PLeaf st en) st en"
      unfolding tree_wf.simps using r build_leaf [OF wf r None] by blast
    ultimately show ?thesis unfolding ok_iff by blast
  next
    case (Some byte)
    define b where "b = byte * 8 + leading_zeros8 (nt_id (nodes ! st) ! byte XOR nt_id (nodes ! (en - 1)) ! byte)"
    define mid where "mid = st + length (takeWhile (\<lambda>node. nt_id node ! byte AND push_bit (7 - b mod 8) 1 = 0)
                                   (slice st en nodes))"
    note m = build_middle [OF wf r Some, folded b_def, folded mid_def]
    have "ok (build nodes br st mid) (\<lambda>(pos, br'). \<exists>t ext. br' = br @ ext \<and> represents br' pos t \<and> tree_wf nodes t st mid)"
      using m r by (intro less.hyps) simp_all
    then obtain z br1 l ext1 where zero: "build nodes br st mid = Some (z, br1)" "br1 = br @ ext1"
      "represents br1 z l" "tree_wf nodes l st mid" by (auto simp: ok_iff)
    have "ok (build nodes br1 mid en) (\<lambda>(pos, br'). \<exists>t ext. br' = br1 @ ext \<and> represents br' pos t \<and> tree_wf nodes t mid en)"
      using m r by (intro less.hyps) simp_all
    then obtain w br2 rt ext2 where one: "build nodes br1 mid en = Some (w, br2)" "br2 = br1 @ ext2"
      "represents br2 w rt" "tree_wf nodes rt mid en" by (auto simp: ok_iff)
    let ?br = "br2 @ [Split b z w]" and ?t = "PSplit b l rt"
    have guard: "(\<not> (st < length nodes \<and> 0 < en \<and> en \<le> length nodes \<and> st \<le> en)) = False"
      using r by simp
    have run: "build nodes br st en = Some (length br2, ?br)"
      by (subst build.simps)
         (simp only: guard if_False Let_def Some option.case b_def [symmetric] mid_def [symmetric]
            zero(1) one(1) Option.bind.simps fst_conv snd_conv)
    have "represents ?br z l"
      using represents_append [OF zero(3), of "ext2 @ [Split b z w]"] by (simp add: one(2))
    then have "represents ?br (length br2) ?t" using represents_append [OF one(3)] by simp
    moreover have "tree_wf nodes ?t st en" using zero(4) one(4) m(3) by auto
    moreover note run
    moreover have "?br = br @ (ext1 @ ext2 @ [Split b z w])" by (simp add: zero(2) one(2))
    ultimately show ?thesis unfolding ok_iff by blast
  qed
qed

subsection \<open>Visiting a tree\<close>

fun tree_list :: "node_tuple list \<Rightarrow> bytes \<Rightarrow> ptree \<Rightarrow> node_tuple list" where
  "tree_list nodes target (PLeaf s e) = slice s e nodes"
| "tree_list nodes target (PSplit b l r) =
     (if \<not> bit (target ! (b div 8)) (7 - b mod 8)
      then tree_list nodes target l @ tree_list nodes target r
      else tree_list nodes target r @ tree_list nodes target l)"

lemma take_slice: "take n (slice s e xs) = slice s (min e (s + n)) xs"
proof (cases "e \<le> s + n")
  case True
  then have "min n (e - s) = e - s" by linarith
  then show ?thesis using True by (simp add: slice_def)
next
  case False
  then have "min n (e - s) = n" by linarith
  then show ?thesis using False by (simp add: slice_def min_def)
qed

lemma slice_append: "i \<le> j \<Longrightarrow> j \<le> k \<Longrightarrow> slice i j xs @ slice j k xs = slice i k xs"
proof -
  assume ij: "i \<le> j" and jk: "j \<le> k"
  have "take (k - i) (drop i xs) = take (j - i) (drop i xs) @ take (k - j) (drop (j - i) (drop i xs))"
    using ij jk by (metis Nat.add_diff_assoc add.commute le_add_diff_inverse take_add diff_add_inverse2)
  then show ?thesis using ij by (simp add: slice_def)
qed

lemma visit_ok:
  "represents (pi_branches idx) pos t \<Longrightarrow> tree_wf (pi_nodes idx) t st en \<Longrightarrow>
     ok (visit idx pos target limit out) (\<lambda>(_, out').
       out' = out @ take (limit - length out) (tree_list (pi_nodes idx) target t))"
proof (induction t arbitrary: pos st en out)
  case (PLeaf s e)
  show ?case
  proof (cases "limit \<le> length out")
    case True
    then show ?thesis by (subst visit.simps) simp
  next
    case False
    let ?stop = "min e (s + limit - length out)"
    have "s \<le> ?stop" and "?stop \<le> length (pi_nodes idx)" using PLeaf.prems(2) False by auto
    moreover have "take (limit - length out) (slice s e (pi_nodes idx)) = slice s ?stop (pi_nodes idx)"
      using False by (simp add: take_slice)
    ultimately show ?thesis using PLeaf.prems False by (subst visit.simps) (simp add: Let_def)
  qed
next
  case (PSplit b l r)
  let ?nodes = "pi_nodes idx"
  obtain zero one where z: "pi_branches idx ! pos = Split b zero one" "pos < length (pi_branches idx)"
    "represents (pi_branches idx) zero l" "represents (pi_branches idx) one r"
    using PSplit.prems(1) by auto
  obtain mid where m: "tree_wf ?nodes l st mid" "tree_wf ?nodes r mid en" using PSplit.prems(2) by auto
  show ?case
  proof (cases "limit \<le> length out")
    case True
    then show ?thesis by (subst visit.simps) simp
  next
    case False
    let ?near0 = "target ! (b div 8) AND push_bit (7 - b mod 8) 1 = 0"
    define near far where "near = (if ?near0 then zero else one)" and "far = (if ?near0 then one else zero)"
    define nt ft where "nt = (if ?near0 then l else r)" and "ft = (if ?near0 then r else l)"
    have list: "tree_list ?nodes target (PSplit b l r) = tree_list ?nodes target nt @ tree_list ?nodes target ft"
      by (simp add: nt_def ft_def mask_bit del: push_bit_of_1)
    obtain n1 out1 where v1: "visit idx near target limit out = Some (n1, out1)"
      "out1 = out @ take (limit - length out) (tree_list ?nodes target nt)"
      using PSplit.IH(1) [OF z(3) m(1), of out] PSplit.IH(2) [OF z(4) m(2), of out]
      by (cases ?near0) (auto simp: near_def nt_def ok_iff)
    obtain n2 out2 where v2: "visit idx far target limit out1 = Some (n2, out2)"
      "out2 = out1 @ take (limit - length out1) (tree_list ?nodes target ft)"
      using PSplit.IH(1) [OF z(3) m(1), of out1] PSplit.IH(2) [OF z(4) m(2), of out1]
      by (cases ?near0) (auto simp: far_def ft_def ok_iff)
    have "visit idx pos target limit out = Some (1 + n1 + n2, out2)"
    proof (cases ?near0)
      case True
      then show ?thesis
        using False z(1,2) v1(1) v2(1) by (subst visit.simps) (simp add: Let_def near_def far_def)
    next
      case far: False
      then show ?thesis
        using False z(1,2) v1(1) v2(1) by (subst visit.simps) (simp add: Let_def near_def far_def)
    qed
    moreover have "out2 = out @ take (limit - length out) (tree_list ?nodes target (PSplit b l r))"
      unfolding list v2(2) v1(2) using False by (simp add: min_def)
    ultimately show ?thesis by simp
  qed
qed

subsection \<open>The visiting order is the order of XOR distance\<close>

definition xor_id :: "bytes \<Rightarrow> bytes \<Rightarrow> bytes" where
  "xor_id target i = map2 (XOR) i target"

definition xor_key :: "bytes \<Rightarrow> node_tuple \<Rightarrow> bytes \<times> socket_addr" where
  "xor_key target n = (xor_id target (nt_id n), nt_addr n)"

lemma length_xor_id [simp]: "length (xor_id target i) = min (length i) (length target)"
  by (simp add: xor_id_def)

lemma nth_xor_id: "n < length i \<Longrightarrow> n < length target \<Longrightarrow> xor_id target i ! n = i ! n XOR target ! n"
  by (simp add: xor_id_def)

lemma take_xor_id: "take n (xor_id target i) = xor_id (take n target) (take n i)"
  by (simp add: xor_id_def take_map take_zip)

lemma byte_xor_less:
  fixes x y t :: u8
  assumes "drop_bit (Suc k) x = drop_bit (Suc k) y" and "\<not> bit x k" and "bit y k"
  shows "if bit t k then y XOR t < x XOR t else x XOR t < y XOR t"
proof -
  have d: "drop_bit (Suc k) (x XOR t) = drop_bit (Suc k) (y XOR t)" by (simp only: drop_bit_xor assms(1))
  show ?thesis
    using byte_bit_less [OF d] byte_bit_less [OF d [symmetric]] assms(2,3) by (simp add: bit_xor_iff)
qed

lemma xor_id_less:
  assumes sp: "splits nodes b st mid en" and i: "i \<in> {st..<mid}" and j: "j \<in> {mid..<en}"
    and len: "length (nt_id (nodes ! i)) = 20" "length (nt_id (nodes ! j)) = 20" "length target = 20"
  shows "if bit (target ! (b div 8)) (7 - b mod 8)
         then xor_id target (nt_id (nodes ! j)) < xor_id target (nt_id (nodes ! i))
         else xor_id target (nt_id (nodes ! i)) < xor_id target (nt_id (nodes ! j))"
proof -
  let ?x = "nt_id (nodes ! i)" and ?y = "nt_id (nodes ! j)" and ?n = "b div 8" and ?k = "7 - b mod 8"
  have n: "?n < 20" and tk: "take ?n ?x = take ?n ?y"
    and bits: "drop_bit (Suc ?k) (?x ! ?n) = drop_bit (Suc ?k) (?y ! ?n)" "\<not> bit (?x ! ?n) ?k" "bit (?y ! ?n) ?k"
    using sp i j by (auto simp: splits_def)
  have pre: "take ?n (xor_id target ?x) = take ?n (xor_id target ?y)" by (simp add: take_xor_id tk)
  have at: "xor_id target ?x ! ?n = ?x ! ?n XOR target ! ?n" "xor_id target ?y ! ?n = ?y ! ?n XOR target ! ?n"
    using n len by (simp_all add: nth_xor_id)
  show ?thesis
    using byte_xor_less [OF bits, of "target ! ?n"] lex_less_at [OF pre] lex_less_at [OF pre [symmetric]] n len
    by (simp add: at split: if_splits)
qed

lemma slice_nth_set: "e \<le> length xs \<Longrightarrow> set (slice s e xs) = (\<lambda>i. xs ! i) ` {s..<e}"
proof (intro set_eqI iffI)
  assume e: "e \<le> length xs"
  show "x \<in> (\<lambda>i. xs ! i) ` {s..<e}" if x: "x \<in> set (slice s e xs)" for x
  proof -
    obtain i where "i < e - s" "x = slice s e xs ! i" using x e by (auto simp: in_set_conv_nth)
    then show ?thesis using nth_slice [of i e s xs] e by (intro image_eqI [of _ _ "s + i"]) auto
  qed
  show "x \<in> set (slice s e xs)" if "x \<in> (\<lambda>i. xs ! i) ` {s..<e}" for x
  proof -
    obtain i where i: "s \<le> i" "i < e" "x = xs ! i" using \<open>x \<in> (\<lambda>i. xs ! i) ` {s..<e}\<close> by auto
    then have "slice s e xs ! (i - s) = x" using nth_slice [of "i - s" e s xs] e by simp
    then show ?thesis using i e by (metis diff_less_mono length_slice nth_mem)
  qed
qed

lemma tree_list_mset: "tree_wf nodes t st en \<Longrightarrow> mset (tree_list nodes target t) = mset (slice st en nodes)"
proof (induction t arbitrary: st en)
  case (PSplit b l r)
  then obtain mid where m: "tree_wf nodes l st mid" "tree_wf nodes r mid en" by auto
  have "slice st mid nodes @ slice mid en nodes = slice st en nodes"
    using tree_wf_range [OF m(1)] tree_wf_range [OF m(2)] by (intro slice_append) simp_all
  then have "mset (slice st en nodes) = mset (slice st mid nodes) + mset (slice mid en nodes)"
    by (metis mset_append)
  then show ?case using PSplit.IH(1) [OF m(1)] PSplit.IH(2) [OF m(2)] by simp
qed simp

lemma tree_list_set: "tree_wf nodes t st en \<Longrightarrow> set (tree_list nodes target t) = (\<lambda>i. nodes ! i) ` {st..<en}"
  by (metis slice_nth_set tree_list_mset tree_wf_range set_mset_mset)

lemma leaf_sorted:
  assumes wf: "nodes_wf nodes" and leaf: "tree_wf nodes (PLeaf st en) st en"
  shows "sorted (map (xor_key target) (slice st en nodes))"
proof -
  have r: "st < en" "en \<le> length nodes" using tree_wf_range [OF leaf] by simp_all
  have ids: "nt_id (nodes ! j) = nt_id (nodes ! st)" if "st \<le> j" "j < en" for j
    using leaf that unfolding tree_wf.simps by (metis atLeastLessThan_iff)
  have "xor_key target (slice st en nodes ! i) \<le> xor_key target (slice st en nodes ! j)"
    if ij: "i \<le> j" "j < en - st" for i j
  proof -
    have "map node_key nodes ! (st + i) \<le> map node_key nodes ! (st + j)"
      using wf ij r by (intro sorted_nth_mono) (simp_all add: nodes_wf_def)
    then have "node_key (nodes ! (st + i)) \<le> node_key (nodes ! (st + j))" using ij r by simp
    moreover have "nt_id (nodes ! (st + i)) = nt_id (nodes ! st)" "nt_id (nodes ! (st + j)) = nt_id (nodes ! st)"
      using ids [of "st + i"] ids [of "st + j"] ij by simp_all
    ultimately show ?thesis
      using nth_slice [of i en st nodes] nth_slice [of j en st nodes] ij r
      by (simp add: node_key_def xor_key_def less_eq_prod_def)
  qed
  then show ?thesis using r by (auto simp: sorted_iff_nth_mono)
qed

lemma tree_list_sorted:
  assumes wf: "nodes_wf nodes" and len: "length target = 20"
  shows "tree_wf nodes t st en \<Longrightarrow> sorted (map (xor_key target) (tree_list nodes target t))"
proof (induction t arbitrary: st en)
  case (PLeaf s e)
  then have "s = st" and "e = en" unfolding tree_wf.simps by blast+
  then show ?case using leaf_sorted [OF wf] PLeaf by (simp only: tree_list.simps)
next
  case (PSplit b l r)
  then obtain mid where m: "tree_wf nodes l st mid" "tree_wf nodes r mid en" "splits nodes b st mid en" by auto
  have sl: "sorted (map (xor_key target) (tree_list nodes target l))"
    and sr: "sorted (map (xor_key target) (tree_list nodes target r))"
    using PSplit.IH m by blast+
  have en: "mid < en" "en \<le> length nodes" using tree_wf_range [OF m(2)] by simp_all
  have less: "if bit (target ! (b div 8)) (7 - b mod 8) then xor_key target y \<le> xor_key target x
      else xor_key target x \<le> xor_key target y"
    if x: "x \<in> set (tree_list nodes target l)" and y: "y \<in> set (tree_list nodes target r)" for x y
  proof -
    obtain i where i: "i \<in> {st..<mid}" "x = nodes ! i" using x tree_list_set [OF m(1)] by auto
    obtain j where j: "j \<in> {mid..<en}" "y = nodes ! j" using y tree_list_set [OF m(2)] by auto
    have "length (nt_id x) = 20" "length (nt_id y) = 20"
      using nodes_wf_len [OF wf] i j en by simp_all
    then show ?thesis
      using xor_id_less [OF m(3) i(1) j(1) _ _ len] i(2) j(2) by (simp add: xor_key_def less_eq_prod_def)
  qed
  show ?case using less sl sr by (auto simp: sorted_append)
qed

subsection \<open>Indexes\<close>

definition ids20 :: "node_tuple list \<Rightarrow> bool" where
  "ids20 nodes = list_all (\<lambda>n. length (nt_id n) = 20) nodes"

definition pi_wf :: "prefix_index \<Rightarrow> bool" where
  "pi_wf idx = (nodes_wf (pi_nodes idx) \<and>
     (case pi_root idx of None \<Rightarrow> pi_nodes idx = []
      | Some root \<Rightarrow> \<exists>t. represents (pi_branches idx) root t \<and>
                          tree_wf (pi_nodes idx) t 0 (length (pi_nodes idx))))"

lemma pi_wf_default: "pi_wf pi_default"
  by (simp add: pi_wf_def pi_default_def nodes_wf_def)

lemma pi_new_ok:
  assumes "ids20 nodes"
  shows "ok (pi_new nodes) (\<lambda>idx. pi_wf idx \<and> pi_nodes idx = sort_key node_key nodes)"
proof (cases "nodes = []")
  case True
  then show ?thesis by (simp add: pi_new_def pi_wf_def nodes_wf_def)
next
  case False
  let ?ns = "sort_key node_key nodes"
  have wf: "nodes_wf ?ns" using assms by (auto simp: nodes_wf_def ids20_def list_all_iff)
  have len: "0 < length ?ns" using False by simp
  have ne: "?ns \<noteq> []" using len by (metis length_greater_0_conv)
  obtain root branches t where run: "build ?ns [] 0 (length ?ns) = Some (root, branches)"
    "represents branches root t" "tree_wf ?ns t 0 (length ?ns)"
    using build_ok [OF wf len, of "[]"] by (auto simp: ok_iff)
  have "pi_new nodes = Some \<lparr> pi_nodes = ?ns, pi_branches = branches, pi_root = Some root \<rparr>"
    using ne run(1) by (simp add: pi_new_def Let_def)
  then show ?thesis using wf run(2,3) by (auto simp: pi_wf_def)
qed

lemma xor_key_inj: "length target = 20 \<Longrightarrow> inj_on (xor_key target) {n. length (nt_id n) = 20}"
proof (rule inj_onI)
  fix x y :: node_tuple
  assume len: "length target = 20" "x \<in> {n. length (nt_id n) = 20}" "y \<in> {n. length (nt_id n) = 20}"
    and eq: "xor_key target x = xor_key target y"
  have "nt_id x ! i = nt_id y ! i" if "i < 20" for i
  proof -
    have "xor_id target (nt_id x) ! i = xor_id target (nt_id y) ! i" using eq by (simp add: xor_key_def)
    then have "nt_id x ! i XOR target ! i = nt_id y ! i XOR target ! i"
      using len that by (simp add: nth_xor_id)
    then have "(nt_id x ! i XOR target ! i) XOR target ! i = (nt_id y ! i XOR target ! i) XOR target ! i"
      by (rule arg_cong)
    then show ?thesis by (simp only: xor.assoc xor_self_eq xor.right_neutral)
  qed
  then have "nt_id x = nt_id y" using len by (intro nth_equalityI) simp_all
  then show "x = y" using eq by (simp add: xor_key_def)
qed

lemma xor_sort_unique:
  assumes "length target = 20" and "ids20 xs" and "mset xs = mset ys" and "sorted (map (xor_key target) ys)"
  shows "sort_key (xor_key target) xs = ys"
proof (rule sort_key_inj_key_eq [OF assms(3) _ assms(4)])
  have "set xs \<subseteq> {n. length (nt_id n) = 20}" using assms(2) by (auto simp: ids20_def list_all_iff)
  then show "inj_on (xor_key target) (set xs)" by (rule inj_on_subset [OF xor_key_inj [OF assms(1)]])
qed

lemma append_nearest_ok:
  assumes wf: "pi_wf idx" and nodes: "pi_nodes idx = sort_key node_key nodes"
    and ids: "ids20 nodes" and len: "length target = 20"
  shows "ok (append_nearest idx target cnt out) (\<lambda>(_, out').
           out' = out @ take cnt (sort_key (xor_key target) nodes))"
proof (cases "pi_root idx")
  case None
  then have "sort_key node_key nodes = []" using wf nodes by (simp add: pi_wf_def)
  then have "nodes = []" by (metis length_0_conv length_sort)
  then show ?thesis using None by (simp add: append_nearest_def)
next
  case (Some root)
  let ?ns = "pi_nodes idx"
  obtain t where t: "represents (pi_branches idx) root t" "tree_wf ?ns t 0 (length ?ns)"
    using wf Some by (auto simp: pi_wf_def)
  let ?l = "tree_list ?ns target t"
  have "mset ?l = mset (slice 0 (length ?ns) ?ns)" using t(2) by (rule tree_list_mset)
  also have "slice 0 (length ?ns) ?ns = ?ns" by (simp add: slice_def)
  finally have ms: "mset nodes = mset ?l" by (simp add: nodes)
  have "sorted (map (xor_key target) ?l)"
    using wf len t(2) by (intro tree_list_sorted) (simp_all add: pi_wf_def)
  then have sorted: "sort_key (xor_key target) nodes = ?l" by (rule xor_sort_unique [OF len ids ms])
  have "length ?l = length ?ns" using ms nodes by (metis length_sort size_mset)
  then have "take (min cnt (length ?ns)) ?l = take cnt ?l" by (simp add: min_def)
  then show ?thesis
    using visit_ok [OF t, of target "length out + min cnt (length ?ns)" out] Some
    by (simp add: append_nearest_def sorted)
qed

subsection \<open>Merging both families\<close>

fun merge_by :: "('a \<Rightarrow> 'b::linorder) \<Rightarrow> 'a list \<Rightarrow> 'a list \<Rightarrow> 'a list" where
  "merge_by f [] ys = ys"
| "merge_by f xs [] = xs"
| "merge_by f (x # xs) (y # ys) =
     (if f x \<le> f y then x # merge_by f xs (y # ys) else y # merge_by f (x # xs) ys)"

lemma mset_merge_by: "mset (merge_by f xs ys) = mset xs + mset ys"
  by (induction f xs ys rule: merge_by.induct) simp_all

lemma set_merge_by: "set (merge_by f xs ys) = set xs \<union> set ys"
  by (metis mset_merge_by set_mset_mset set_mset_union)

lemma sorted_merge_by:
  "sorted (map f xs) \<Longrightarrow> sorted (map f ys) \<Longrightarrow> sorted (map f (merge_by f xs ys))"
  by (induction f xs ys rule: merge_by.induct) (auto simp: set_merge_by)

lemma take_merge_by:
  "k \<le> m \<Longrightarrow> k \<le> n \<Longrightarrow> take k (merge_by f (take m xs) (take n ys)) = take k (merge_by f xs ys)"
proof (induction f xs ys arbitrary: k m n rule: merge_by.induct)
  case (1 f ys)
  then show ?case by (simp add: min_def)
next
  case (2 f x xs)
  have "take k (take m (x # xs)) = take k (x # xs)" using 2 by (simp add: min_def)
  then show ?case by (cases "take m (x # xs)") simp_all
next
  case (3 f x xs y ys)
  show ?case
  proof (cases k)
    case (Suc k')
    then obtain m' n' where m: "m = Suc m'" "k' \<le> m'" and n: "n = Suc n'" "k' \<le> n'"
      using "3.prems" by (metis Suc_le_D Suc_le_mono)
    have le: "k' \<le> Suc m'" "k' \<le> Suc n'" using m n by simp_all
    show ?thesis
      using "3.IH"(1) [OF _ m(2) le(2)] "3.IH"(2) [OF _ le(1) n(2)] by (simp add: Suc m(1) n(1))
  qed simp
qed

lemma take_sort_append:
  assumes "length target = 20" and "ids20 xs" and "ids20 ys"
  shows "take k (sort_key (xor_key target) (take k (sort_key (xor_key target) xs)
             @ take k (sort_key (xor_key target) ys)))
         = take k (sort_key (xor_key target) (xs @ ys))"
proof -
  let ?f = "xor_key target" and ?xs = "sort_key (xor_key target) xs" and ?ys = "sort_key (xor_key target) ys"
  have app: "ids20 (take k ?xs @ take k ?ys)" "ids20 (xs @ ys)"
    using assms(2,3) by (auto simp: ids20_def list_all_iff dest: in_set_takeD)
  have st: "sorted (map ?f (take k zs))" if "sorted (map ?f zs)" for zs k
    unfolding take_map [symmetric] using that by (rule sorted_wrt_take)
  have "sort_key ?f (take k ?xs @ take k ?ys) = merge_by ?f (take k ?xs) (take k ?ys)"
    by (rule xor_sort_unique [OF assms(1) app(1)]) (simp_all add: mset_merge_by sorted_merge_by st)
  moreover have "sort_key ?f (xs @ ys) = merge_by ?f ?xs ?ys"
    by (rule xor_sort_unique [OF assms(1) app(2)]) (simp_all add: mset_merge_by sorted_merge_by)
  ultimately show ?thesis by (simp add: take_merge_by)
qed

subsection \<open>The comparison function\<close>

lemma lex_drop_Cons:
  fixes xs ys :: "u8 list"
  assumes "i < length xs" and "i < length ys"
  shows "drop i xs < drop i ys \<longleftrightarrow> xs ! i < ys ! i \<or> xs ! i = ys ! i \<and> drop (Suc i) xs < drop (Suc i) ys"
    and "drop i xs = drop i ys \<longleftrightarrow> xs ! i = ys ! i \<and> drop (Suc i) xs = drop (Suc i) ys"
  using assms by (simp_all add: Cons_nth_drop_Suc [symmetric])

lemma cmp_bytes_spec:
  assumes len: "length l = n" "length r = n" "length t = n" and "i \<le> n"
  shows "(cmp_bytes [i..<n] l r t = Less \<longleftrightarrow> drop i (xor_id t l) < drop i (xor_id t r)) \<and>
         (cmp_bytes [i..<n] l r t = Equal \<longleftrightarrow> drop i (xor_id t l) = drop i (xor_id t r))"
  using assms(4)
proof (induction "n - i" arbitrary: i)
  case 0
  then show ?case using len by simp
next
  case (Suc k)
  then have i: "i < n" "i < length (xor_id t l)" "i < length (xor_id t r)" using len by simp_all
  have step: "[i..<n] = i # [Suc i..<n]" using i(1) by (rule upt_conv_Cons)
  have IH: "(cmp_bytes [Suc i..<n] l r t = Less \<longleftrightarrow> drop (Suc i) (xor_id t l) < drop (Suc i) (xor_id t r)) \<and>
      (cmp_bytes [Suc i..<n] l r t = Equal \<longleftrightarrow> drop (Suc i) (xor_id t l) = drop (Suc i) (xor_id t r))"
    using Suc i by (intro Suc.hyps(1)) simp_all
  have at: "xor_id t l ! i = l ! i XOR t ! i" "xor_id t r ! i = r ! i XOR t ! i"
    using i len by (simp_all add: nth_xor_id)
  show ?case
    unfolding step cmp_bytes.simps Let_def lex_drop_Cons [OF i(2,3)] at using IH by auto
qed

lemma xor_distance_cmp_spec:
  assumes "length l = 20" and "length r = 20" and "length t = 20"
  shows "xor_distance_cmp l r t =
           (if xor_id t l < xor_id t r then Less else if xor_id t l = xor_id t r then Equal else Greater)"
  using cmp_bytes_spec [OF assms, of 0]
  by (cases "cmp_bytes [0..<20] l r t") (auto simp: xor_distance_cmp_def)

lemma closer_or_equal_key:
  assumes "length (nt_id x) = 20" and "length (nt_id y) = 20" and "length target = 20"
  shows "closer_or_equal target x y \<longleftrightarrow> xor_key target x \<le> xor_key target y"
  by (simp add: closer_or_equal_def xor_distance_cmp_spec [OF assms] xor_key_def less_eq_prod_def)

lemma set_insort_by: "set (insort_by le x xs) = insert x (set xs)"
  by (induction xs) auto

lemma sort_by_key:
  assumes "\<And>x y. x \<in> set xs \<Longrightarrow> y \<in> set xs \<Longrightarrow> le x y \<longleftrightarrow> f x \<le> f y"
  shows "sort_by le xs = sort_key f xs"
proof -
  have ins: "insort_by le x ys = insort_key f x ys" if "\<And>y. y \<in> set ys \<Longrightarrow> le x y \<longleftrightarrow> f x \<le> f y" for x ys
    using that by (induction ys) auto
  show ?thesis
    using assms
  proof (induction xs)
    case (Cons x xs)
    have IH: "sort_by le xs = sort_key f xs" using Cons by simp
    have "insort_by le x (sort_key f xs) = insort_key f x (sort_key f xs)"
      using Cons.prems by (intro ins) simp
    then show ?case using IH by (simp add: sort_by_def)
  qed (simp add: sort_by_def)
qed

lemma sort_by_xor:
  assumes "ids20 xs" and "length target = 20"
  shows "sort_by (closer_or_equal target) xs = sort_key (xor_key target) xs"
  using assms by (intro sort_by_key closer_or_equal_key) (simp_all add: ids20_def list_all_iff)

subsection \<open>Snapshots\<close>

definition v4_of :: "node_tuple list \<Rightarrow> node_tuple list" where
  "v4_of nodes = filter (\<lambda>node. \<not> is_ipv6 (nt_addr node)) nodes"

definition v6_of :: "node_tuple list \<Rightarrow> node_tuple list" where
  "v6_of nodes = filter (\<lambda>node. is_ipv6 (nt_addr node)) nodes"

definition snapshot_of :: "routing_snapshot \<Rightarrow> node_tuple list \<Rightarrow> bool" where
  "snapshot_of snap nodes =
     (pi_wf (rs_v4 snap) \<and> pi_nodes (rs_v4 snap) = sort_key node_key (v4_of nodes) \<and>
      pi_wf (rs_v6 snap) \<and> pi_nodes (rs_v6 snap) = sort_key node_key (v6_of nodes))"

lemma ids20_filter: "ids20 nodes \<Longrightarrow> ids20 (v4_of nodes) \<and> ids20 (v6_of nodes)"
  by (auto simp: ids20_def list_all_iff v4_of_def v6_of_def)

lemma from_nodes_ok:
  assumes ids: "ids20 nodes"
  shows "ok (from_nodes nodes limit) (\<lambda>snap. snapshot_of snap (take limit nodes))"
proof -
  let ?ns = "take limit nodes"
  have ids': "ids20 ?ns" using ids by (auto simp: ids20_def list_all_iff dest: in_set_takeD)
  have none: "v4_of ?ns = ?ns" if "v6_of ?ns = []"
    using that by (auto simp: v4_of_def v6_of_def filter_empty_conv intro!: filter_True)
  have all: "v6_of ?ns = ?ns" "v4_of ?ns = []" if "length (v6_of ?ns) = length ?ns"
  proof -
    show v6: "v6_of ?ns = ?ns" using that by (metis v6_of_def filter_True length_filter_less less_irrefl)
    show "v4_of ?ns = []" using filter_set [of "\<lambda>n. is_ipv6 (nt_addr n)" ?ns] v6
      by (auto simp: v4_of_def v6_of_def filter_empty_conv filter_id_conv)
  qed
  have def: "pi_wf pi_default" "pi_nodes pi_default = []" by (simp_all add: pi_wf_default) (simp add: pi_default_def)
  consider "v6_of ?ns = []" | "v6_of ?ns \<noteq> []" "length (v6_of ?ns) = length ?ns"
    | "v6_of ?ns \<noteq> []" "length (v6_of ?ns) \<noteq> length ?ns" by blast
  then show ?thesis
  proof cases
    case 1
    then show ?thesis
      using pi_new_ok [OF ids'] none def
      by (auto simp: from_nodes_def Let_def v6_of_def [symmetric] snapshot_of_def elim!: ok_mono)
  next
    case 2
    then show ?thesis
      using pi_new_ok [OF ids'] all def
      by (auto simp: from_nodes_def Let_def v6_of_def [symmetric] snapshot_of_def elim!: ok_mono)
  next
    case 3
    obtain v4 where v4: "pi_new (v4_of ?ns) = Some v4" "pi_wf v4" "pi_nodes v4 = sort_key node_key (v4_of ?ns)"
      using pi_new_ok [of "v4_of ?ns"] ids20_filter [OF ids'] by (auto simp: ok_iff)
    obtain v6 where v6: "pi_new (v6_of ?ns) = Some v6" "pi_wf v6" "pi_nodes v6 = sort_key node_key (v6_of ?ns)"
      using pi_new_ok [of "v6_of ?ns"] ids20_filter [OF ids'] by (auto simp: ok_iff)
    show ?thesis
      using 3 v4 v6
      by (simp add: from_nodes_def Let_def v6_of_def [symmetric] v4_of_def [symmetric] snapshot_of_def)
  qed
qed

subsection \<open>The closest nodes\<close>

fun in_family :: "bool option \<Rightarrow> node_tuple \<Rightarrow> bool" where
  "in_family None node = True"
| "in_family (Some v6) node = (is_ipv6 (nt_addr node) = v6)"

lemma filter_in_family [simp]:
  "filter (in_family None) nodes = nodes"
  "filter (in_family (Some False)) nodes = v4_of nodes"
  "filter (in_family (Some True)) nodes = v6_of nodes"
  by (simp_all add: v4_of_def v6_of_def filter_True cong: filter_cong)

lemma sort_v4_v6:
  assumes "ids20 nodes" and "length target = 20"
  shows "sort_key (xor_key target) (v4_of nodes @ v6_of nodes) = sort_key (xor_key target) nodes"
proof (rule xor_sort_unique [OF assms(2)])
  show "ids20 (v4_of nodes @ v6_of nodes)"
    using ids20_filter [OF assms(1)] by (simp add: ids20_def)
  have "mset (v6_of nodes) + mset (v4_of nodes) = mset nodes"
    unfolding v4_of_def v6_of_def mset_filter by (rule multiset_partition [symmetric])
  then show "mset (v4_of nodes @ v6_of nodes) = mset (sort_key (xor_key target) nodes)"
    by (simp add: add.commute)
qed simp

lemma closest_nodes_snapshot:
  assumes snap: "snapshot_of snap nodes" and ids: "ids20 nodes" and len: "length target = 20"
  shows "closest_nodes snap target cnt f = Some (take cnt (sort_key (xor_key target) (filter (in_family f) nodes)))"
proof -
  let ?s = "sort_key (xor_key target)"
  have ids46: "ids20 (v4_of nodes)" "ids20 (v6_of nodes)" using ids20_filter [OF ids] by simp_all
  have v4: "ok (append_nearest (rs_v4 snap) target cnt out) (\<lambda>(_, out'). out' = out @ take cnt (?s (v4_of nodes)))" for out
    using snap ids46 by (intro append_nearest_ok [OF _ _ _ len]) (simp_all add: snapshot_of_def)
  have v6: "ok (append_nearest (rs_v6 snap) target cnt out) (\<lambda>(_, out'). out' = out @ take cnt (?s (v6_of nodes)))" for out
    using snap ids46 by (intro append_nearest_ok [OF _ _ _ len]) (simp_all add: snapshot_of_def)
  have both: "ids20 (take cnt (?s (v4_of nodes)) @ take cnt (?s (v6_of nodes)))"
    using ids46 by (auto simp: ids20_def list_all_iff dest: in_set_takeD)
  obtain a where a: "append_nearest (rs_v4 snap) target cnt [] = Some (a, take cnt (?s (v4_of nodes)))"
    using v4 [of "[]"] by (auto simp: ok_iff)
  obtain b where b: "append_nearest (rs_v6 snap) target cnt [] = Some (b, take cnt (?s (v6_of nodes)))"
    using v6 [of "[]"] by (auto simp: ok_iff)
  obtain c where c: "append_nearest (rs_v6 snap) target cnt (take cnt (?s (v4_of nodes))) =
      Some (c, take cnt (?s (v4_of nodes)) @ take cnt (?s (v6_of nodes)))"
    using v6 [of "take cnt (?s (v4_of nodes))"] by (auto simp: ok_iff)
  have "take cnt (sort_by (closer_or_equal target) (take cnt (?s (v4_of nodes)) @ take cnt (?s (v6_of nodes))))
      = take cnt (?s nodes)"
    unfolding sort_by_xor [OF both len] take_sort_append [OF len ids46] sort_v4_v6 [OF ids len] ..
  with a b c show ?thesis
    by (cases f) (auto simp: closest_nodes_def split: bool.splits)
qed

text \<open>
  C11. A query for the closest nodes answers what the specification asks for. For any list of
  nodes with 20-byte ids, any limit, any 20-byte target, any count and any choice of address
  family, building the snapshot never panics and its recursions end, and the answer is exactly
  this list: take the first \<open>limit\<close> nodes, keep those of the requested family, sort them by XOR
  distance to the target with ties broken by address, and keep the first \<open>cnt\<close>. The trie of the
  source, which visits only the branches it needs and merges two answers of the two families,
  computes the same list.
\<close>

theorem closest_nodes_correct:
  assumes "ids20 nodes" and "length target = 20"
  shows "Option.bind (from_nodes nodes limit) (\<lambda>snap. closest_nodes snap target cnt f) =
           Some (take cnt (sort_key (xor_key target) (filter (in_family f) (take limit nodes))))"
proof -
  have ids: "ids20 (take limit nodes)"
    using assms(1) by (auto simp: ids20_def list_all_iff dest: in_set_takeD)
  obtain snap where "from_nodes nodes limit = Some snap" "snapshot_of snap (take limit nodes)"
    using from_nodes_ok [OF assms(1), of limit] by (auto simp: ok_iff)
  then show ?thesis using closest_nodes_snapshot [OF _ ids assms(2)] by simp
qed

definition sample_node :: "u8 \<Rightarrow> u8 \<Rightarrow> node_tuple" where
  "sample_node a b = \<lparr> nt_id = a # replicate 19 0, nt_addr = SockV4 [b, 0, 0, 1] 6881 \<rparr>"

definition sample_node6 :: "u8 \<Rightarrow> node_tuple" where
  "sample_node6 a = \<lparr> nt_id = a # replicate 19 0, nt_addr = SockV6 (32 # replicate 15 1) 6881 0 0 \<rparr>"

theorem closest_nodes_correct_witness:
  "Option.bind (from_nodes [sample_node 9 1, sample_node 64 2, sample_node6 10, sample_node 9 3] 4)
     (\<lambda>snap. closest_nodes snap (11 # replicate 19 0) 2 None) =
   Some (take 2 (sort_key (xor_key (11 # replicate 19 0))
     (filter (in_family None) (take 4 [sample_node 9 1, sample_node 64 2, sample_node6 10, sample_node 9 3])))) \<and>
   take 2 (sort_key (xor_key (11 # replicate 19 0))
     (filter (in_family None) (take 4 [sample_node 9 1, sample_node 64 2, sample_node6 10, sample_node 9 3])))
   = [sample_node6 10, sample_node 9 1]"
proof -
  let ?ns = "[sample_node 9 1, sample_node 64 2, sample_node6 10, sample_node 9 3]"
  have "ids20 ?ns" and "length (11 # replicate 19 (0 :: u8)) = 20" by code_simp+
  moreover have "take 2 (sort_key (xor_key (11 # replicate 19 0)) (filter (in_family None) (take 4 ?ns)))
      = [sample_node6 10, sample_node 9 1]" by code_simp
  ultimately show ?thesis by (intro conjI closest_nodes_correct)
qed

subsection \<open>Random nodes\<close>

lemma random_nodes_snapshot:
  assumes snap: "snapshot_of snap nodes"
    and pick: "\<And>xs n. mset (choose_multiple xs n) \<subseteq># mset xs"
      "\<And>xs n. length (choose_multiple xs n) = min n (length xs)"
    and draw: "\<And>total n. n \<le> total \<Longrightarrow> distinct (sample total n)"
      "\<And>total n. n \<le> total \<Longrightarrow> set (sample total n) \<subseteq> {..<total}"
      "\<And>total n. n \<le> total \<Longrightarrow> length (sample total n) = n"
  shows "mset (random_nodes choose_multiple sample snap cnt f) \<subseteq># mset (filter (in_family f) nodes) \<and>
         length (random_nodes choose_multiple sample snap cnt f) = min cnt (length (filter (in_family f) nodes))"
proof -
  let ?v4 = "pi_nodes (rs_v4 snap)" and ?v6 = "pi_nodes (rs_v6 snap)"
  have v: "mset ?v4 = mset (v4_of nodes)" "mset ?v6 = mset (v6_of nodes)"
    using snap by (simp_all add: snapshot_of_def)
  then have len: "length ?v4 = length (v4_of nodes)" "length ?v6 = length (v6_of nodes)"
    by (metis size_mset)+
  show ?thesis
  proof (cases f)
    case None
    let ?tot = "length ?v4 + length ?v6"
    let ?is = "sample ?tot (min cnt ?tot)"
    have parts: "mset (v6_of nodes) + mset (v4_of nodes) = mset nodes"
      unfolding v4_of_def v6_of_def mset_filter by (rule multiset_partition [symmetric])
    have "length nodes = ?tot" using arg_cong [OF parts, of size] len by simp
    moreover have "random_nodes choose_multiple sample snap cnt f = map (\<lambda>i. (?v4 @ ?v6) ! i) ?is"
      by (simp add: None random_nodes_def Let_def nth_append)
    moreover have "mset (map (\<lambda>i. (?v4 @ ?v6) ! i) ?is) \<subseteq># mset (?v4 @ ?v6)"
    proof -
      have "mset ?is \<subseteq># mset [0..<?tot]"
        using draw(1,2) [of "min cnt ?tot" ?tot]
        by (auto simp: mset_set_set [symmetric] atLeast0LessThan intro!: subset_imp_msubset_mset_set)
      then have "image_mset (\<lambda>i. (?v4 @ ?v6) ! i) (mset ?is) \<subseteq># image_mset (\<lambda>i. (?v4 @ ?v6) ! i) (mset [0..<?tot])"
        by (rule image_mset_subseteq_mono)
      then show ?thesis using map_nth [of "?v4 @ ?v6"] by (metis length_append mset_map)
    qed
    ultimately show ?thesis using draw(3) [of "min cnt ?tot" ?tot] v parts by (simp add: None add.commute)
  next
    case (Some b)
    then show ?thesis
      using pick(1) [of ?v4 cnt] pick(1) [of ?v6 cnt] pick(2) [of ?v4 cnt] pick(2) [of ?v6 cnt] v len
      by (cases b) (simp_all add: random_nodes_def Let_def)
  qed
qed

text \<open>
  C12. What a query for random nodes returns, given that \<open>rand\<close> samples without repetition
  (\<open>choose_multiple\<close> draws a sub-multiset of the requested size, \<open>index::sample\<close> draws distinct
  indices below the length): the answer has exactly \<open>min cnt\<close> (number of
  stored nodes of the family) entries, every entry is a stored node of the family, and no stored
  node is returned more often than it is stored.
\<close>

theorem random_nodes_sound:
  assumes ids: "ids20 nodes"
    and pick: "\<And>xs n. mset (choose_multiple xs n) \<subseteq># mset xs"
      "\<And>xs n. length (choose_multiple xs n) = min n (length xs)"
    and draw: "\<And>total n. n \<le> total \<Longrightarrow> distinct (sample total n)"
      "\<And>total n. n \<le> total \<Longrightarrow> set (sample total n) \<subseteq> {..<total}"
      "\<And>total n. n \<le> total \<Longrightarrow> length (sample total n) = n"
  shows "ok (from_nodes nodes limit) (\<lambda>snap.
         mset (random_nodes choose_multiple sample snap cnt f) \<subseteq># mset (filter (in_family f) (take limit nodes)) \<and>
         length (random_nodes choose_multiple sample snap cnt f) = min cnt (length (filter (in_family f) (take limit nodes))))"
  by (rule ok_mono [OF from_nodes_ok [OF ids]]) (rule random_nodes_snapshot [OF _ pick draw])

theorem random_nodes_sound_witness:
  "ok (from_nodes [sample_node 9 1, sample_node6 10, sample_node 9 3] 3) (\<lambda>snap.
     mset (random_nodes (\<lambda>xs n. take n xs) (\<lambda>total n. [0..<n]) snap 2 (Some False))
       \<subseteq># mset (filter (in_family (Some False)) (take 3 [sample_node 9 1, sample_node6 10, sample_node 9 3])) \<and>
     length (random_nodes (\<lambda>xs n. take n xs) (\<lambda>total n. [0..<n]) snap 2 (Some False)) =
       min 2 (length (filter (in_family (Some False)) (take 3 [sample_node 9 1, sample_node6 10, sample_node 9 3]))))"
proof (rule random_nodes_sound)
  show "ids20 [sample_node 9 1, sample_node6 10, sample_node 9 3]" by code_simp
  show "mset (take n xs) \<subseteq># mset xs" for xs :: "node_tuple list" and n
    by (metis append_take_drop_id mset_append mset_subset_eq_add_left)
qed auto

end
