(* ===== verification/Options.thy ===== *)
theory Options
  imports Rate_Bucket Net_Types
begin

text \<open>
  The configuration: the option structs of \<open>src/src/types.rs\<close> with their defaults, and
  \<open>ResolvedCrawlConfig\<close> of \<open>src/src/crawl_config.rs\<close>, which clamps them once at start-up. Also
  here are the two pure functions of those files that compute in binary64:
  \<open>rate_for_metadata_pressure\<close>, which lowers the crawl rate while the metadata queue fills up, and
  the scaling loop of \<open>format_bytes\<close>.

  Results: the resolved configuration has the bounds the other components rely on, and the crawl
  rate is a decreasing function of the pressure that stays between the floor and the maximum,
  rounding included.
\<close>

subsection \<open>Options\<close>

record discovery_options =
  dopt_enabled :: bool
  sample_queries_per_second :: u32
  sample_burst :: u32
  sample_max_in_flight :: nat
  sample_query_timeout_secs :: nat
  sample_min_interval_secs :: nat
  sample_failure_backoff_secs :: nat
  sample_no_new_backoff_secs :: nat
  sample_max_nodes :: nat
  sample_cooldown_capacity :: nat
  hash_dedup_capacity :: nat
  hash_dedup_ttl_secs :: nat
  get_peers_hashes_per_second :: u32
  get_peers_burst :: u32
  sample_hashes_per_second :: u32
  sample_hash_burst :: u32

definition discovery_options_default :: discovery_options where
  "discovery_options_default = \<lparr>
     dopt_enabled = True,
     sample_queries_per_second = 4,
     sample_burst = 8,
     sample_max_in_flight = 16,
     sample_query_timeout_secs = 3,
     sample_min_interval_secs = 300,
     sample_failure_backoff_secs = 900,
     sample_no_new_backoff_secs = 1800,
     sample_max_nodes = 16384,
     sample_cooldown_capacity = 100000,
     hash_dedup_capacity = 100000,
     hash_dedup_ttl_secs = 900,
     get_peers_hashes_per_second = 8,
     get_peers_burst = 16,
     sample_hashes_per_second = 16,
     sample_hash_burst = 64 \<rparr>"

record metadata_options =
  timeout_secs :: nat
  max_queue_size :: nat
  max_worker_count :: nat
  peer_failure_cache_capacity :: nat
  peer_failure_ttl_secs :: nat
  retry_initial_delay_secs :: nat
  retry_max_delay_secs :: nat
  retry_max_attempts :: nat
  retry_history_ttl_secs :: nat
  retry_history_capacity :: nat

definition metadata_options_default :: metadata_options where
  "metadata_options_default = \<lparr>
     timeout_secs = 4,
     max_queue_size = 10000,
     max_worker_count = 256,
     peer_failure_cache_capacity = 200000,
     peer_failure_ttl_secs = 60,
     retry_initial_delay_secs = 60,
     retry_max_delay_secs = 3600,
     retry_max_attempts = 5,
     retry_history_ttl_secs = 21600,
     retry_history_capacity = 100000 \<rparr>"

record peer_lookup_options =
  max_lookups_per_second :: u32
  plo_burst :: u32
  max_active_lookups :: nat
  max_queries :: nat
  max_concurrent_queries :: nat
  lookup_timeout_ms :: nat
  query_timeout_ms :: nat

definition peer_lookup_options_default :: peer_lookup_options where
  "peer_lookup_options_default = \<lparr>
     max_lookups_per_second = 32,
     plo_burst = 32,
     max_active_lookups = 64,
     max_queries = 12,
     max_concurrent_queries = 4,
     lookup_timeout_ms = 2000,
     query_timeout_ms = 500 \<rparr>"

record rate_limit_options =
  rlo_max_find_node_rate_per_sec :: u32
  rlo_burst :: u32
  rlo_max_in_flight :: nat
  rlo_request_timeout_secs :: nat
  rlo_max_new_destinations_per_minute :: u32
  rlo_max_response_rate_per_sec :: u32
  rlo_max_response_bytes_per_sec :: nat
  rlo_max_response_rate_per_source :: u32
  rlo_metadata_pressure_floor_percent :: nat
  rlo_max_replacements_per_minute :: u32
  rlo_max_in_flight_per_subnet :: nat

definition rate_limit_options_default :: rate_limit_options where
  "rate_limit_options_default = \<lparr>
     rlo_max_find_node_rate_per_sec = 200,
     rlo_burst = 40,
     rlo_max_in_flight = 512,
     rlo_request_timeout_secs = 2,
     rlo_max_new_destinations_per_minute = 10000,
     rlo_max_response_rate_per_sec = 500,
     rlo_max_response_bytes_per_sec = 1024 * 1024,
     rlo_max_response_rate_per_source = 40,
     rlo_metadata_pressure_floor_percent = 25,
     rlo_max_replacements_per_minute = 25000,
     rlo_max_in_flight_per_subnet = 8 \<rparr>"

record pool_options =
  po_capacity :: nat
  po_recent_probe_ttl_secs :: nat
  po_responsive_capacity :: nat
  po_responsive_ttl_secs :: nat
  po_revisit_interval_secs :: nat
  po_low_watermark :: nat

definition pool_options_default :: pool_options where
  "pool_options_default = \<lparr>
     po_capacity = 100000,
     po_recent_probe_ttl_secs = 600,
     po_responsive_capacity = 16384,
     po_responsive_ttl_secs = 900,
     po_revisit_interval_secs = 0,
     po_low_watermark = 10000 \<rparr>"

record bootstrap_options =
  bo_nodes :: "string list"
  bo_interval_secs :: nat
  bo_max_nodes_per_round :: nat
  bo_source_backoff_base_secs :: nat
  bo_source_backoff_max_secs :: nat

definition bootstrap_options_default :: bootstrap_options where
  "bootstrap_options_default = \<lparr>
     bo_nodes = [''router.bittorrent.com:6881'', ''dht.transmissionbt.com:6881'',
                 ''router.utorrent.com:6881'', ''dht.aelitis.com:6881''],
     bo_interval_secs = 300,
     bo_max_nodes_per_round = 3,
     bo_source_backoff_base_secs = 300,
     bo_source_backoff_max_secs = 3600 \<rparr>"

record target_options =
  to_random_walk_percent :: nat
  to_sparse_bucket_percent :: nat
  to_neighbor_sender_id :: bool

definition target_options_default :: target_options where
  "target_options_default = \<lparr>
     to_random_walk_percent = 70,
     to_sparse_bucket_percent = 30,
     to_neighbor_sender_id = True \<rparr>"

record scheduler_options =
  so_priority_event_channel_capacity :: nat
  so_discovery_event_channel_capacity :: nat
  so_event_batch_limit :: nat
  so_node_batch_limit :: nat
  so_routing_snapshot_size :: nat
  so_snapshot_refresh_millis :: nat

definition scheduler_options_default :: scheduler_options where
  "scheduler_options_default = \<lparr>
     so_priority_event_channel_capacity = 8192,
     so_discovery_event_channel_capacity = 16384,
     so_event_batch_limit = 256,
     so_node_batch_limit = 4096,
     so_routing_snapshot_size = 4096,
     so_snapshot_refresh_millis = 1000 \<rparr>"

record crawl_options =
  co_pool :: pool_options
  co_rate_limit :: rate_limit_options
  co_bootstrap :: bootstrap_options
  co_target :: target_options
  co_scheduler :: scheduler_options

definition crawl_options_default :: crawl_options where
  "crawl_options_default = \<lparr>
     co_pool = pool_options_default,
     co_rate_limit = rate_limit_options_default,
     co_bootstrap = bootstrap_options_default,
     co_target = target_options_default,
     co_scheduler = scheduler_options_default \<rparr>"

record dht_options =
  dho_port :: u16
  dho_netmode :: net_mode
  dho_hash_queue_capacity :: nat
  dho_metadata :: metadata_options
  dho_peer_lookup :: peer_lookup_options
  dho_discovery :: discovery_options
  dho_crawl :: crawl_options

definition dht_options_default :: dht_options where
  "dht_options_default = \<lparr>
     dho_port = 6881,
     dho_netmode = Ipv4Only,
     dho_hash_queue_capacity = 10000,
     dho_metadata = metadata_options_default,
     dho_peer_lookup = peer_lookup_options_default,
     dho_discovery = discovery_options_default,
     dho_crawl = crawl_options_default \<rparr>"

subsection \<open>The resolved crawl configuration\<close>

record resolved_crawl_config =
  max_find_node_rate_per_sec :: u32
  cfg_burst :: u32
  max_in_flight :: nat
  request_timeout :: duration
  max_new_destinations_per_minute :: u32
  max_response_rate_per_sec :: u32
  max_response_bytes_per_sec :: nat
  max_response_rate_per_source :: u32
  metadata_pressure_floor_percent :: nat
  pool_capacity :: nat
  max_replacements_per_minute :: u32
  recent_probe_ttl :: duration
  responsive_capacity :: nat
  responsive_ttl :: duration
  revisit_interval :: duration
  low_watermark :: nat
  max_in_flight_per_subnet :: nat
  bootstrap_nodes :: "string list"
  bootstrap_interval :: duration
  bootstrap_max_nodes_per_round :: nat
  bootstrap_backoff_base :: duration
  bootstrap_backoff_max :: duration
  random_walk_percent :: nat
  sparse_bucket_percent :: nat
  neighbor_sender_id :: bool
  priority_event_channel_capacity :: nat
  discovery_event_channel_capacity :: nat
  event_batch_limit :: nat
  node_batch_limit :: nat
  routing_snapshot_size :: nat
  snapshot_refresh :: duration

definition from_options :: "crawl_options \<Rightarrow> resolved_crawl_config" where
  "from_options options =
     (let capacity = max (po_capacity (co_pool options)) 1; rl = co_rate_limit options;
          pool = co_pool options; bs = co_bootstrap options; target = co_target options;
          sched = co_scheduler options in \<lparr>
       max_find_node_rate_per_sec = rlo_max_find_node_rate_per_sec rl,
       cfg_burst = (if rlo_max_find_node_rate_per_sec rl = 0 then 0 else max (rlo_burst rl) 1),
       max_in_flight = max (rlo_max_in_flight rl) 1,
       request_timeout = secs (max (rlo_request_timeout_secs rl) 1),
       max_new_destinations_per_minute = rlo_max_new_destinations_per_minute rl,
       max_response_rate_per_sec = rlo_max_response_rate_per_sec rl,
       max_response_bytes_per_sec = rlo_max_response_bytes_per_sec rl,
       max_response_rate_per_source = rlo_max_response_rate_per_source rl,
       metadata_pressure_floor_percent = min (rlo_metadata_pressure_floor_percent rl) 100,
       pool_capacity = capacity,
       max_replacements_per_minute = rlo_max_replacements_per_minute rl,
       recent_probe_ttl = secs (max (po_recent_probe_ttl_secs pool) 1),
       responsive_capacity = max (po_responsive_capacity pool) 1,
       responsive_ttl = secs (max (po_responsive_ttl_secs pool) 1),
       revisit_interval = secs (po_revisit_interval_secs pool),
       low_watermark = min (po_low_watermark pool) capacity,
       max_in_flight_per_subnet = max (rlo_max_in_flight_per_subnet rl) 1,
       bootstrap_nodes = (if bo_nodes bs = [] then bo_nodes bootstrap_options_default else bo_nodes bs),
       bootstrap_interval = secs (bo_interval_secs bs),
       bootstrap_max_nodes_per_round = bo_max_nodes_per_round bs,
       bootstrap_backoff_base = secs (max (bo_source_backoff_base_secs bs) 1),
       bootstrap_backoff_max = secs (max (bo_source_backoff_max_secs bs) 1),
       random_walk_percent = min (to_random_walk_percent target) 100,
       sparse_bucket_percent = min (to_sparse_bucket_percent target) 100,
       neighbor_sender_id = to_neighbor_sender_id target,
       priority_event_channel_capacity = max (so_priority_event_channel_capacity sched) 1,
       discovery_event_channel_capacity = max (so_discovery_event_channel_capacity sched) 1,
       event_batch_limit = max (so_event_batch_limit sched) 1,
       node_batch_limit = max (so_node_batch_limit sched) 1,
       routing_snapshot_size = max (so_routing_snapshot_size sched) 1,
       snapshot_refresh = millis (max (so_snapshot_refresh_millis sched) 100) \<rparr>)"

definition f64_clamp :: "f64 \<Rightarrow> f64 \<Rightarrow> f64 \<Rightarrow> f64" where
  "f64_clamp lo hi x = (if x < lo then lo else if hi < x then hi else x)"

text \<open>A decimal literal denotes the nearest binary64 number.\<close>

definition rate_for_metadata_pressure :: "resolved_crawl_config \<Rightarrow> f64 \<Rightarrow> u32" where
  "rate_for_metadata_pressure cfg pressure =
     (let mx = f64_of_u32 (max_find_node_rate_per_sec cfg) in
      if pressure < f64_round (80 / 100) then max_find_node_rate_per_sec cfg
      else let fl = f64_div (f64_mul mx (f64_of_nat (metadata_pressure_floor_percent cfg))) 100 in
        if f64_round (95 / 100) \<le> pressure then of_nat (f64_to_nat 32 (f64_round_half_up fl))
        else let progress = f64_clamp 0 1 (f64_div (f64_sub pressure (f64_round (80 / 100))) (f64_round (15 / 100)))
          in of_nat (f64_to_nat 32 (f64_round_half_up (f64_sub mx (f64_mul (f64_sub mx fl) progress)))))"

subsection \<open>Human-readable sizes\<close>

function format_scale :: "f64 \<Rightarrow> nat \<Rightarrow> f64 \<times> nat" where
  "format_scale sz unit_index =
     (if 1024 \<le> sz \<and> unit_index < 4 then format_scale (f64_div sz 1024) (unit_index + 1)
      else (sz, unit_index))"
  by pat_completeness auto
termination by (relation "measure (\<lambda>(_, unit_index). 4 - unit_index)") auto

fun show_nat :: "nat \<Rightarrow> string" where
  "show_nat n = (if n < 10 then [char_of (48 + n)] else show_nat (n div 10) @ [char_of (48 + n mod 10)])"

declare format_scale.simps [simp del] show_nat.simps [simp del]

text \<open>The format \<open>{:.2}\<close>: the exact value rounded half-to-even to two decimals.\<close>

definition show_fixed2 :: "f64 \<Rightarrow> string" where
  "show_fixed2 x = (let n = nat (rne (x * 100)) in
     show_nat (n div 100) @ ''.'' @ [char_of (48 + n mod 100 div 10), char_of (48 + n mod 10)])"

definition format_bytes :: "u64 \<Rightarrow> string" where
  "format_bytes bytes =
     (let (sz, unit_index) = format_scale (f64_of_nat (unat bytes)) 0
      in show_fixed2 sz @ '' '' @ [''B'', ''KB'', ''MB'', ''GB'', ''TB''] ! unit_index)"

subsection \<open>The crawl rate under metadata pressure\<close>

lemma f64_abs_error:
  assumes "0 \<le> x" and "x \<le> 2 ^ 32"
  shows "\<bar>f64_round x - x\<bar> \<le> 1 / 1000"
proof (cases "x = 0")
  case False
  have "f64_exp x \<le> f64_exp (2 ^ 32)" using assms False by (intro f64_exp_mono) simp_all
  also have "f64_exp (2 ^ 32) = - 20"
    using ilog2_unique [of 32 "2 ^ 32"] by (simp add: f64_exp_def power_int_def)
  finally have "(2 :: rat) powi (f64_exp x - 1) \<le> 2 powi (- 21)" by (intro powi_2_mono) simp
  moreover have "(2 :: rat) powi (- 21) \<le> 1 / 1000" by (simp add: power_int_minus)
  ultimately show ?thesis using f64_round_error [of x] by linarith
qed simp

definition pressure_floor :: "nat \<Rightarrow> nat \<Rightarrow> f64" where
  "pressure_floor n p = f64_round (of_nat (n * p) / 100)"

definition pressure_rate :: "nat \<Rightarrow> nat \<Rightarrow> f64 \<Rightarrow> f64" where
  "pressure_rate n p g = f64_round (of_nat n - f64_round (f64_round (of_nat n - pressure_floor n p) * g))"

lemma floor_bounds:
  assumes n: "n < 2 ^ 32" and p: "p \<le> 100"
  shows "0 \<le> pressure_floor n p" "pressure_floor n p \<le> of_nat n"
proof -
  show "0 \<le> pressure_floor n p" by (simp add: pressure_floor_def)
  have "(of_nat (n * p) :: rat) \<le> of_nat (n * 100)" using p by (simp only: of_nat_le_iff mult_le_mono2)
  then show "pressure_floor n p \<le> of_nat n"
    unfolding pressure_floor_def using n by (intro f64_round_le is_f64_of_nat) simp_all
qed

lemma drop_bounds:
  assumes n: "n < 2 ^ 32" and p: "p \<le> 100"
  shows "0 \<le> f64_round (of_nat n - pressure_floor n p)"
    and "f64_round (of_nat n - pressure_floor n p) \<le> of_nat n"
  using floor_bounds [OF assms] n by (auto intro!: f64_round_le is_f64_of_nat)

lemma rate_antitone:
  assumes n: "n < 2 ^ 32" and p: "p \<le> 100" and gh: "0 \<le> g" "g \<le> h" "h \<le> 1"
  shows "pressure_rate n p h \<le> pressure_rate n p g" and "0 \<le> pressure_rate n p h"
    and "pressure_rate n p g \<le> of_nat n"
proof -
  let ?d = "f64_round (of_nat n - pressure_floor n p)"
  note drop = drop_bounds [OF n p]
  have prod: "?d * g \<le> ?d * h" "0 \<le> ?d * g" "?d * h \<le> ?d" "0 \<le> ?d * h"
    using gh drop by (simp_all add: mult_left_mono mult_left_le)
  have dh: "f64_round (?d * h) \<le> ?d" using prod by (intro f64_round_le) simp_all
  have le: "f64_round (?d * g) \<le> f64_round (?d * h)" using prod by (intro f64_round_mono) simp_all
  show "pressure_rate n p h \<le> pressure_rate n p g"
    unfolding pressure_rate_def using le dh drop by (intro f64_round_mono) simp_all
  show "0 \<le> pressure_rate n p h"
    unfolding pressure_rate_def using dh drop by (intro f64_round_nonneg) simp
  show "pressure_rate n p g \<le> of_nat n"
    unfolding pressure_rate_def using le dh drop prod n
    by (intro f64_round_le is_f64_of_nat) (simp_all add: f64_round_nonneg)
qed

text \<open>
  The floor of the last step and the value of the ramp at its end may differ by rounding errors,
  but they round to the same integer: the exact floor is a multiple of one hundredth.
\<close>

lemma floor_unique_near:
  fixes x :: rat
  assumes "\<bar>x - of_nat m / 100\<bar> < 1 / 100" and "m mod 100 \<noteq> 50"
  shows "\<lfloor>x + 1 / 2\<rfloor> = int ((m + 50) div 100)"
proof (rule floor_unique)
  let ?q = "(m + 50) div 100" and ?r = "(m + 50) mod 100"
  have "?r \<noteq> 0"
  proof
    assume "?r = 0"
    then obtain k where "m + 50 = 100 * k" by auto
    then have "m = 50 + (k - 1) * 100" by (cases k) simp_all
    then have "m mod 100 = 50" by simp
    then show False using assms(2) by simp
  qed
  then have r: "1 \<le> ?r" "?r \<le> 99" using mod_less_divisor [of 100 "m + 50"] by linarith+
  have "m + 50 = 100 * ?q + ?r" by simp
  then have "(of_nat (m + 50) :: rat) = of_nat (100 * ?q + ?r)" by (rule arg_cong)
  then have m: "(of_nat m :: rat) = 100 * of_nat ?q + of_nat ?r - 50"
    unfolding of_nat_add of_nat_mult of_nat_numeral by linarith
  have r': "1 \<le> (of_nat ?r :: rat)" "(of_nat ?r :: rat) \<le> 99"
    using r by (metis of_nat_1 of_nat_le_iff) (metis of_nat_le_iff of_nat_numeral r(2))
  show "of_int (int ?q) \<le> x + 1 / 2" and "x + 1 / 2 < of_int (int ?q) + 1"
    using assms(1) m r' unfolding abs_less_iff of_int_of_nat_eq by linarith+
qed

lemma floor_half:
  assumes "n < 2 ^ 32" and "p \<le> 100" and "n * p mod 100 = 50"
  shows "pressure_floor n p = pressure_rate n p 1"
proof -
  let ?k = "n * p div 100"
  have "n * p = 100 * ?k + 50" using assms(3) by (metis mult_div_mod_eq)
  then have np: "(of_nat (n * p) :: rat) = 100 * of_nat ?k + 50" by (metis of_nat_add of_nat_mult of_nat_numeral)
  have k: "?k < 2 ^ 32"
    using div_le_mono [OF mult_le_mono2 [OF assms(2), of n], of 100] assms(1) by simp
  have half: "f64_round (of_int i + 1 / 2) = of_int i + 1 / 2" if "\<bar>i\<bar> \<le> 2 ^ 33" for i
    using f64_exact [of "2 * i + 1" "- 1"] that by (simp add: power_int_def field_simps)
  have fl: "pressure_floor n p = of_nat ?k + 1 / 2"
    using half [of "int ?k"] k unfolding pressure_floor_def np by (simp add: add_divide_distrib)
  have d: "f64_round (of_nat n - pressure_floor n p) = of_nat n - pressure_floor n p"
    using half [of "int n - int ?k - 1"] assms(1) k by (simp add: fl field_simps)
  show ?thesis
    using half [of "int ?k"] k by (simp add: pressure_rate_def d) (simp add: fl)
qed

lemma floor_round_exact:
  assumes n: "n < 2 ^ 32" and p: "p \<le> 100"
  shows "f64_round_half_up (pressure_floor n p) = of_nat ((n * p + 50) div 100)"
proof (cases "n * p mod 100 = 50")
  case True
  let ?k = "n * p div 100"
  have "n * p = 100 * ?k + 50" using True by (metis mult_div_mod_eq)
  then have np: "(n * p + 50) div 100 = ?k + 1" and "(of_nat (n * p) :: rat) = 100 * of_nat ?k + 50"
    by (simp, metis of_nat_add of_nat_mult of_nat_numeral)
  moreover have "?k < 2 ^ 32"
    using div_le_mono [OF mult_le_mono2 [OF p, of n], of 100] n by simp
  ultimately have "pressure_floor n p = of_int (2 * int ?k + 1) * 2 powi (- 1)"
    unfolding pressure_floor_def using f64_exact [of "2 * int ?k + 1" "- 1"]
    by (simp add: power_int_minus add_divide_distrib)
  then have "pressure_floor n p + 1 / 2 = of_int (int (?k + 1))" by (simp add: power_int_minus)
  then show ?thesis unfolding f64_round_half_up_def np by simp
next
  case False
  have "(of_nat (n * p) :: rat) \<le> of_nat (n * 100)" using p by (simp only: of_nat_le_iff mult_le_mono2)
  moreover have "(of_nat n :: rat) \<le> 2 ^ 32" using n by (metis of_nat_le_iff of_nat_numeral of_nat_power less_imp_le)
  ultimately have "\<bar>pressure_floor n p - of_nat (n * p) / 100\<bar> \<le> 1 / 1000"
    unfolding pressure_floor_def by (intro f64_abs_error) simp_all
  then have "\<bar>pressure_floor n p - of_nat (n * p) / 100\<bar> < 1 / 100" by linarith
  then show ?thesis unfolding f64_round_half_up_def by (simp only: floor_unique_near [OF _ False] of_int_of_nat_eq)
qed

lemma near_three:
  fixes a b c d r :: rat
  assumes "\<bar>a - b\<bar> \<le> 1 / 1000" and "\<bar>d - (c - a)\<bar> \<le> 1 / 1000" and "\<bar>r - (c - d)\<bar> \<le> 1 / 1000"
  shows "\<bar>r - b\<bar> < 1 / 100 \<and> \<bar>a - b\<bar> < 1 / 100"
  using assms unfolding abs_le_iff abs_less_iff by linarith

lemma round_end_of_ramp:
  assumes n: "n < 2 ^ 32" and p: "p \<le> 100"
  shows "f64_round_half_up (pressure_floor n p) = f64_round_half_up (pressure_rate n p 1)"
proof (cases "n * p mod 100 = 50")
  case True
  then show ?thesis using floor_half [OF n p] by simp
next
  case False
  let ?fl = "pressure_floor n p" and ?e = "1 / 1000 :: rat"
  let ?d = "f64_round (of_nat n - ?fl)"
  have n': "(of_nat n :: rat) \<le> 2 ^ 32" using n by (metis of_nat_le_iff of_nat_numeral of_nat_power less_imp_le)
  have "(of_nat (n * p) :: rat) \<le> of_nat (n * 100)" using p by (simp only: of_nat_le_iff mult_le_mono2)
  then have e1: "\<bar>?fl - of_nat (n * p) / 100\<bar> \<le> ?e"
    unfolding pressure_floor_def using n' by (intro f64_abs_error) simp_all
  have e2: "\<bar>?d - (of_nat n - ?fl)\<bar> \<le> ?e"
    using floor_bounds [OF n p] n' by (intro f64_abs_error) simp_all
  have "\<bar>f64_round (of_nat n - ?d) - (of_nat n - ?d)\<bar> \<le> ?e"
    using drop_bounds [OF n p] n' by (intro f64_abs_error) simp_all
  then have e3: "\<bar>pressure_rate n p 1 - (of_nat n - ?d)\<bar> \<le> ?e" by (simp add: pressure_rate_def)
  have "\<bar>pressure_rate n p 1 - of_nat (n * p) / 100\<bar> < 1 / 100" "\<bar>?fl - of_nat (n * p) / 100\<bar> < 1 / 100"
    using near_three [OF e1 e2 e3] by blast+
  then show ?thesis
    unfolding f64_round_half_up_def by (simp only: floor_unique_near [OF _ False])
qed

abbreviation rounded32 :: "f64 \<Rightarrow> nat" where
  "rounded32 x \<equiv> f64_to_nat 32 (f64_round_half_up x)"

lemma rounded32_mono: "x \<le> y \<Longrightarrow> rounded32 x \<le> rounded32 y"
  unfolding f64_to_nat_def f64_round_half_up_def
  by (intro min.mono nat_mono floor_mono order_refl) (simp add: floor_mono)

lemma unat_rounded32 [simp]: "unat (of_nat (rounded32 x) :: u32) = rounded32 x"
  by (simp add: unat_of_nat take_bit_nat_eq_self_iff f64_to_nat_def)

lemma rounded32_nat: "n < 2 ^ 32 \<Longrightarrow> rounded32 (of_nat n) = n"
proof -
  have "\<lfloor>(of_nat n :: rat) + 1 / 2\<rfloor> = int n" by linarith
  then show "n < 2 ^ 32 \<Longrightarrow> ?thesis" by (simp add: f64_to_nat_def f64_round_half_up_def)
qed

text \<open>The ramp between the two thresholds.\<close>

definition ramp :: "f64 \<Rightarrow> f64" where
  "ramp pressure = f64_clamp 0 1 (f64_div (f64_sub pressure (f64_round (80 / 100))) (f64_round (15 / 100)))"

lemma ramp_range: "0 \<le> ramp x" "ramp x \<le> 1"
  by (simp_all add: ramp_def f64_clamp_def)

lemma ramp_mono:
  assumes "f64_round (80 / 100) \<le> x" and "x \<le> y"
  shows "ramp x \<le> ramp y"
proof -
  have "f64_sub x (f64_round (80 / 100)) \<le> f64_sub y (f64_round (80 / 100))" "0 \<le> f64_sub x (f64_round (80 / 100))"
    using assms unfolding f64_sub_def by (auto intro: f64_round_mono f64_round_nonneg)
  moreover have "0 \<le> f64_round (15 / 100)" by simp
  ultimately have "f64_div (f64_sub x (f64_round (80 / 100))) (f64_round (15 / 100))
      \<le> f64_div (f64_sub y (f64_round (80 / 100))) (f64_round (15 / 100))"
    unfolding f64_div_def by (intro f64_round_mono divide_right_mono) auto
  then show ?thesis by (auto simp: ramp_def f64_clamp_def)
qed

lemma rate_cases:
  assumes "metadata_pressure_floor_percent cfg \<le> 100"
  shows "unat (rate_for_metadata_pressure cfg x) =
    (let n = unat (max_find_node_rate_per_sec cfg); p = metadata_pressure_floor_percent cfg in
     if x < f64_round (80 / 100) then n
     else if f64_round (95 / 100) \<le> x then rounded32 (pressure_floor n p)
     else rounded32 (pressure_rate n p (ramp x)))"
proof -
  let ?n = "unat (max_find_node_rate_per_sec cfg)" and ?p = "metadata_pressure_floor_percent cfg"
  have n: "?n < 2 ^ 32" using unsigned_less [of "max_find_node_rate_per_sec cfg"] by simp
  have "?n * ?p \<le> 2 ^ 53"
    using mult_le_mono [OF less_imp_le [OF n] assms] by simp
  then have "f64_round (of_nat (?n * ?p)) = of_nat (?n * ?p)" by (rule f64_exact_nat)
  moreover have "f64_of_nat ?p = of_nat ?p" using assms by (intro f64_of_nat_exact) simp
  ultimately have "f64_mul (of_nat ?n) (f64_of_nat ?p) = of_nat (?n * ?p)"
    by (simp only: f64_mul_def of_nat_mult)
  then have fl: "f64_div (f64_mul (of_nat ?n) (f64_of_nat ?p)) 100 = pressure_floor ?n ?p"
    by (simp only: f64_div_def pressure_floor_def)
  show ?thesis
    unfolding rate_for_metadata_pressure_def Let_def f64_of_u32_def fl
    by (simp add: pressure_rate_def ramp_def f64_sub_def f64_mul_def)
qed

text \<open>
  C13. How the crawl rate reacts to metadata pressure, for every configuration the program can
  resolve and every pair of pressures: more pressure never raises the rate; the rate never
  exceeds the configured maximum and never falls below its value at full pressure; and that
  value is the configured percentage of the maximum, rounded to the nearest integer. The three
  branches of the source are computed in binary64, and the step from the ramp to the constant
  floor is monotone in spite of the rounding errors.
\<close>

theorem pressure_lowers_rate:
  assumes "lo \<le> hi" and cfg: "cfg = from_options options"
  shows "rate_for_metadata_pressure cfg hi \<le> rate_for_metadata_pressure cfg lo \<and>
         rate_for_metadata_pressure cfg lo \<le> max_find_node_rate_per_sec cfg \<and>
         rate_for_metadata_pressure cfg 1 \<le> rate_for_metadata_pressure cfg hi \<and>
         unat (rate_for_metadata_pressure cfg 1) =
           (unat (max_find_node_rate_per_sec cfg) * metadata_pressure_floor_percent cfg + 50) div 100"
proof -
  let ?n = "unat (max_find_node_rate_per_sec cfg)" and ?p = "metadata_pressure_floor_percent cfg"
  let ?a = "f64_round (80 / 100)" and ?b = "f64_round (95 / 100)"
  have n: "?n < 2 ^ 32" using unsigned_less [of "max_find_node_rate_per_sec cfg"] by simp
  have p: "?p \<le> 100" by (simp add: cfg from_options_def Let_def)
  note rc = rate_cases [OF p, unfolded Let_def]
  have ab: "?a \<le> ?b" "?b \<le> 1" using f64_round_mono [of "80/100" "95/100"] f64_round_mono [of "95/100" 1] by simp_all
  have top: "rounded32 (pressure_rate ?n ?p (ramp x)) \<le> ?n" for x
    using rounded32_mono [OF rate_antitone(3) [OF n p ramp_range(1) order_refl ramp_range(2)]]
    unfolding rounded32_nat [OF n] .
  have low: "rounded32 (pressure_floor ?n ?p) \<le> rounded32 (pressure_rate ?n ?p (ramp x))" for x
    using rounded32_mono [OF rate_antitone(1) [OF n p ramp_range order_refl]] round_end_of_ramp [OF n p] by simp
  have anti: "unat (rate_for_metadata_pressure cfg y) \<le> unat (rate_for_metadata_pressure cfg x)" if "x \<le> y" for x y
  proof -
    have "rounded32 (pressure_rate ?n ?p (ramp y)) \<le> rounded32 (pressure_rate ?n ?p (ramp x))" if "?a \<le> x"
      using that \<open>x \<le> y\<close> by (intro rounded32_mono rate_antitone n p ramp_range ramp_mono)
    then show ?thesis
      using top [of x] top [of y] low [of x] low [of y] that ab unfolding rc by auto
  qed
  have full: "unat (rate_for_metadata_pressure cfg 1) = rounded32 (pressure_floor ?n ?p)"
    using ab unfolding rc by auto
  have "unat (rate_for_metadata_pressure cfg 1) \<le> unat (rate_for_metadata_pressure cfg hi)"
    unfolding full using top [of hi] low [of hi] ab unfolding rc by auto
  moreover have "unat (rate_for_metadata_pressure cfg lo) \<le> ?n"
    using top [of lo] low [of lo] unfolding rc by auto
  moreover have "(?n * ?p + 50) div 100 < 2 ^ 32"
    using mult_le_mono [of ?n "2 ^ 32 - 1", OF _ p] n by (intro less_mult_imp_div_less) simp
  ultimately show ?thesis
    using anti [OF assms(1)] full floor_round_exact [OF n p]
    by (simp add: word_le_nat_alt f64_to_nat_def)
qed

theorem pressure_lowers_rate_witness:
  "rate_for_metadata_pressure (from_options crawl_options_default) (9 / 10)
     \<le> rate_for_metadata_pressure (from_options crawl_options_default) (7 / 8) \<and>
   rate_for_metadata_pressure (from_options crawl_options_default) (9 / 10) = 100 \<and>
   rate_for_metadata_pressure (from_options crawl_options_default) (7 / 8) = 125"
proof -
  have "rate_for_metadata_pressure (from_options crawl_options_default) (9 / 10) = 100"
    "rate_for_metadata_pressure (from_options crawl_options_default) (7 / 8) = 125" by code_simp+
  then show ?thesis using pressure_lowers_rate [of "7 / 8" "9 / 10" "from_options crawl_options_default" crawl_options_default] by simp
qed

end
