(* ===== verification/Node_Id.thy ===== *)
theory Node_Id
  imports Prelude
begin

text \<open>
  \<open>src/src/node_id.rs\<close>: transaction ids, random node ids and the ids derived from them. The bytes
  of \<open>rand\<close> are parameters: \<open>rnd\<close> is the random id, or the stream of random bytes, that the source
  draws. The result is the round trip of bucket targets: the bucket index of a target generated for
  a bucket is that bucket, whatever the random bytes are.
\<close>

unbundle bit_operations_syntax

type_synonym transaction_id = bytes

definition transaction_id_from_bytes :: "bytes \<Rightarrow> transaction_id option" where
  "transaction_id_from_bytes bs = (if length bs \<noteq> 8 then None else Some bs)"

function fill_random :: "(nat \<Rightarrow> u8) \<Rightarrow> bytes \<Rightarrow> bytes" where
  "fill_random rnd i = (if length i < 20 then fill_random rnd (i @ [rnd (length i)]) else i)"
  by pat_completeness auto
termination by (relation "measure (\<lambda>(_, i). 20 - length i)") auto

declare fill_random.simps [simp del]

definition neighbor_node_id :: "(nat \<Rightarrow> u8) \<Rightarrow> bytes \<Rightarrow> bytes \<Rightarrow> bytes" where
  "neighbor_node_id rnd remote_id local_id =
     (let prefix_len = min (length remote_id) 6;
          i = take prefix_len remote_id;
          i = (if prefix_len < length local_id then i @ drop prefix_len local_id else i)
      in take 20 (fill_random rnd i))"

fun bucket_scan :: "nat list \<Rightarrow> bytes \<Rightarrow> bytes \<Rightarrow> nat" where
  "bucket_scan [] i local_id = 159"
| "bucket_scan (b # bits) i local_id =
     (let byte = b div 8 in
      if length i \<le> byte then 159
      else let mask = push_bit (7 - b mod 8) 1 in
        if (i ! byte XOR local_id ! byte) AND mask \<noteq> 0 then b else bucket_scan bits i local_id)"

definition bucket_index :: "bytes \<Rightarrow> bytes \<Rightarrow> nat" where
  "bucket_index i local_id = bucket_scan [0..<160] i local_id"

definition target_for_bucket :: "bytes \<Rightarrow> bytes \<Rightarrow> nat \<Rightarrow> bytes" where
  "target_for_bucket rnd local_id bucket =
     (let bucket = min bucket 159;
          byte = bucket div 8;
          b = 7 - bucket mod 8;
          i = take byte local_id @ drop byte rnd;
          lower_mask = ucast (push_bit b (1 :: u16) - 1) :: u8
      in i[byte := ((local_id ! byte AND NOT lower_mask) XOR push_bit b 1) OR (i ! byte AND lower_mask)])"

definition target_for_prefix :: "bytes \<Rightarrow> u8 \<Rightarrow> bytes" where
  "target_for_prefix rnd prefix = rnd[0 := prefix]"

subsection \<open>Neighbour ids\<close>

lemma fill_random_take: "length i \<le> 20 \<Longrightarrow> length (fill_random rnd i) = 20 \<and> take (length i) (fill_random rnd i) = i"
proof (induction rnd i rule: fill_random.induct)
  case (1 rnd i)
  show ?case
  proof (cases "length i < 20")
    case True
    let ?j = "i @ [rnd (length i)]"
    have "length (fill_random rnd ?j) = 20 \<and> take (length ?j) (fill_random rnd ?j) = ?j"
      using True by (intro 1) simp_all
    then have "length (fill_random rnd ?j) = 20" and "take (length i) (fill_random rnd ?j) = i"
      by (simp, metis append_eq_conv_conj length_append take_take min.absorb1 le_add1)
    then show ?thesis using True by (simp add: fill_random.simps [of rnd i])
  next
    case False
    then show ?thesis using 1 by (simp add: fill_random.simps [of rnd i])
  qed
qed

lemma fill_random_long: "20 \<le> length i \<Longrightarrow> fill_random rnd i = i"
  by (simp add: fill_random.simps)

lemma neighbor_node_id_spec:
  "length (neighbor_node_id rnd remote_id local_id) = 20"
  "take 6 (neighbor_node_id rnd remote_id local_id) = take 6 remote_id" if "6 \<le> length remote_id"
proof -
  let ?i = "take 6 remote_id @ drop 6 local_id"
  have i: "(if 6 < length local_id then ?i else take 6 remote_id) = ?i" by simp
  have id_eq: "neighbor_node_id rnd remote_id local_id = take 20 (fill_random rnd ?i)"
    using that unfolding neighbor_node_id_def Let_def by (simp add: min_def)
  have "length (fill_random rnd ?i) \<ge> 20 \<and> take (length ?i) (fill_random rnd ?i) = ?i"
  proof (cases "length ?i \<le> 20")
    case True
    then show ?thesis using fill_random_take [of ?i rnd] by simp
  next
    case False
    then show ?thesis by (simp add: fill_random_long)
  qed
  then have len: "20 \<le> length (fill_random rnd ?i)" and pre: "take (length ?i) (fill_random rnd ?i) = ?i" by auto
  show "length (neighbor_node_id rnd remote_id local_id) = 20" using len id_eq by simp
  have "take 6 (take (length ?i) (fill_random rnd ?i)) = take 6 remote_id"
    unfolding pre using that by simp
  moreover have "min 6 (length ?i) = 6" using that by simp
  ultimately show "take 6 (neighbor_node_id rnd remote_id local_id) = take 6 remote_id"
    unfolding id_eq take_take by simp
qed

lemma length_neighbor_node_id: "length (neighbor_node_id rnd remote_id local_id) = 20"
proof -
  have "20 \<le> length (fill_random rnd i)" for i
    using fill_random_take [of i rnd] fill_random_long [of i rnd] by (cases "length i \<le> 20") auto
  then show ?thesis by (simp add: neighbor_node_id_def Let_def)
qed

subsection \<open>Bucket targets\<close>

definition differs :: "bytes \<Rightarrow> bytes \<Rightarrow> nat \<Rightarrow> bool" where
  "differs x y b = (bit (x ! (b div 8)) (7 - b mod 8) \<noteq> bit (y ! (b div 8)) (7 - b mod 8))"

lemma bucket_scan_first:
  assumes "\<forall>j. i \<le> j \<and> j < b \<longrightarrow> \<not> differs x y j" and "differs x y b" and "i \<le> b" and "b < 160" and "20 \<le> length x"
  shows "bucket_scan [i..<160] x y = b"
  using assms
proof (induction "160 - i" arbitrary: i)
  case (Suc k)
  have step: "[i..<160] = i # [Suc i..<160]" using Suc.prems by (intro upt_conv_Cons) simp
  have byte: "\<not> length x \<le> i div 8" using Suc.prems by simp
  have test: "(x ! (i div 8) XOR y ! (i div 8)) AND push_bit (7 - i mod 8) 1 \<noteq> 0 \<longleftrightarrow> differs x y i"
    by (simp add: and_exp_eq_0_iff_not_bit differs_def bit_xor_iff)
  show ?case
  proof (cases "i = b")
    case True
    then show ?thesis unfolding step using Suc.prems(2) byte test by (simp del: upt_Suc)
  next
    case False
    then have "bucket_scan [Suc i..<160] x y = b" using Suc by (intro Suc.hyps(1)) simp_all
    moreover have "\<not> differs x y i" using Suc.prems False by simp
    ultimately show ?thesis unfolding step using byte test by (simp del: upt_Suc)
  qed
qed simp

lemma bit_lower_mask: "b < 8 \<Longrightarrow> bit (ucast (push_bit b (1 :: u16) - 1) :: u8) j \<longleftrightarrow> j < b"
proof -
  have "push_bit b (1 :: u16) - 1 = mask b" by (simp add: mask_eq_exp_minus_1)
  then show "b < 8 \<Longrightarrow> ?thesis" by (auto simp: bit_simps)
qed

lemma bit_target_byte:
  fixes l r :: u8
  assumes "b < 8" and "j < 8"
  shows "bit (((l AND NOT (ucast (push_bit b (1 :: u16) - 1))) XOR push_bit b 1) OR (r AND ucast (push_bit b (1 :: u16) - 1))) j
    \<longleftrightarrow> (if j = b then \<not> bit l j else if j < b then bit r j else bit l j)"
  using assms
  unfolding bit_or_iff bit_xor_iff bit_and_iff bit_not_iff bit_lower_mask [OF assms(1)]
  by (auto simp: bit_exp_iff)

text \<open>
  C14. Bucket targets round-trip: for any random id and any local id of twenty bytes, the id
  generated for a bucket differs from the local id first at exactly that bit (bucket numbers past
  the last are taken as the last), so its bucket index is the requested bucket; it has twenty
  bytes, and all bytes after the one that holds the bit are the random ones.
\<close>

theorem target_for_bucket_roundtrip:
  assumes "length rnd = 20" and "length local_id = 20"
  shows "bucket_index (target_for_bucket rnd local_id bucket) local_id = min bucket 159 \<and>
         length (target_for_bucket rnd local_id bucket) = 20 \<and>
         drop (min bucket 159 div 8 + 1) (target_for_bucket rnd local_id bucket) = drop (min bucket 159 div 8 + 1) rnd"
proof -
  define k where "k = min bucket 159"
  let ?t = "target_for_bucket rnd local_id bucket"
  have k: "k < 160" "k div 8 < 20" by (auto simp: k_def)
  have len: "length ?t = 20" using assms k by (simp add: target_for_bucket_def Let_def k_def [symmetric])
  have low: "?t ! m = local_id ! m" if "m < k div 8" for m
    using that assms k by (simp add: target_for_bucket_def Let_def k_def [symmetric] nth_append)
  have at: "bit (?t ! (k div 8)) j \<longleftrightarrow>
      (if j = 7 - k mod 8 then \<not> bit (local_id ! (k div 8)) j
       else if j < 7 - k mod 8 then bit (rnd ! (k div 8)) j else bit (local_id ! (k div 8)) j)" if "j < 8" for j
    using that assms k bit_target_byte [of "7 - k mod 8" j "local_id ! (k div 8)" "rnd ! (k div 8)"]
    by (simp add: target_for_bucket_def Let_def k_def [symmetric] nth_append)
  have same: "\<not> differs ?t local_id j" if "j < k" for j
  proof (cases "j div 8 = k div 8")
    case True
    then have "j mod 8 < k mod 8" using that by (metis div_mult_mod_eq nat_add_left_cancel_less)
    then show ?thesis using at [of "7 - j mod 8"] True by (simp add: differs_def) linarith
  next
    case False
    then have "j div 8 < k div 8" using that div_le_mono [of j k 8] by simp
    then show ?thesis by (simp add: differs_def low)
  qed
  have "differs ?t local_id k" using at [of "7 - k mod 8"] by (simp add: differs_def)
  then have "bucket_index ?t local_id = k"
    unfolding bucket_index_def using same k len by (intro bucket_scan_first) simp_all
  moreover have "drop (k div 8 + 1) ?t = drop (k div 8 + 1) rnd"
    using assms k by (simp add: target_for_bucket_def Let_def k_def [symmetric])
  ultimately show ?thesis using len by (simp add: k_def [symmetric])
qed

theorem target_for_bucket_roundtrip_witness:
  "bucket_index (target_for_bucket (replicate 20 0x5A) (replicate 20 0xAA) 83) (replicate 20 0xAA) = 83"
  using target_for_bucket_roundtrip [of "replicate 20 0x5A" "replicate 20 0xAA" 83] by simp

end
