(* ===== verification/Bootstrap.thy ===== *)
theory Bootstrap
  imports Options
begin

text \<open>
  \<open>src/src/bootstrap.rs\<close>: the gate that decides when a bootstrap round starts, and the pool of
  bootstrap sources with exponential back-off after timeouts. Name resolution is a parameter.
  Results: which addresses a round selects, and how long a failing source is left alone.
\<close>

subsection \<open>The gate\<close>

record bootstrap_gate =
  last_bootstrap :: "instant option"

definition bg_new :: bootstrap_gate where
  "bg_new = \<lparr> last_bootstrap = None \<rparr>"

definition should_bootstrap ::
  "bootstrap_gate \<Rightarrow> nat \<Rightarrow> resolved_crawl_config \<Rightarrow> instant \<Rightarrow> bool \<times> bootstrap_gate" where
  "should_bootstrap gate pool_len config now =
     (if bootstrap_max_nodes_per_round config = 0 then (False, gate)
      else if low_watermark config \<le> pool_len then (False, gate)
      else if (case last_bootstrap gate of None \<Rightarrow> False | Some l \<Rightarrow> now - l < bootstrap_interval config)
        then (False, gate)
      else (True, gate \<lparr> last_bootstrap := Some now \<rparr>))"

subsection \<open>The sources\<close>

record bootstrap_source_state =
  last_attempt :: "instant option"
  last_success :: "instant option"
  fail_count :: u32
  backoff_until :: "instant option"

definition bss_default :: bootstrap_source_state where
  "bss_default = \<lparr> last_attempt = None, last_success = None, fail_count = 0, backoff_until = None \<rparr>"

record bootstrap_source_pool =
  hosts :: "string list"
  states :: "(socket_addr, bootstrap_source_state) hmap"
  backoff_base :: duration
  backoff_max :: duration

definition bsp_new :: "string list \<Rightarrow> duration \<Rightarrow> duration \<Rightarrow> bootstrap_source_pool" where
  "bsp_new hs base mx = \<lparr> hosts = hs, states = [], backoff_base = base, backoff_max = mx \<rparr>"

definition entry_or_default :: "bootstrap_source_pool \<Rightarrow> socket_addr \<Rightarrow> bootstrap_source_state \<times> bootstrap_source_pool" where
  "entry_or_default pool addr =
     (case hget (states pool) addr of
        Some state \<Rightarrow> (state, pool)
      | None \<Rightarrow> (bss_default, pool \<lparr> states := hput addr bss_default (states pool) \<rparr>))"

text \<open>
  The loop of \<open>select\<close>: \<open>seen\<close>, \<open>selected\<close> and \<open>earliest\<close> are its local variables, and the boolean
  result says that it returned early with enough addresses.
\<close>

fun select_loop ::
  "bootstrap_source_pool \<Rightarrow> nat \<Rightarrow> instant \<Rightarrow> socket_addr list \<Rightarrow> socket_addr set \<Rightarrow> socket_addr list \<Rightarrow>
   (socket_addr \<times> instant) option \<Rightarrow>
   bool \<times> socket_addr list \<times> (socket_addr \<times> instant) option \<times> bootstrap_source_pool" where
  "select_loop pool max_nodes now [] seen selected earliest = (False, selected, earliest, pool)"
| "select_loop pool max_nodes now (addr # candidates) seen selected earliest =
     (if addr \<in> seen then select_loop pool max_nodes now candidates seen selected earliest
      else let seen = insert addr seen; (state, pool) = entry_or_default pool addr in
        case backoff_until state of
          Some until \<Rightarrow>
            if now < until then
              select_loop pool max_nodes now candidates seen selected
                (if (case earliest of None \<Rightarrow> True | Some (_, current) \<Rightarrow> until < current)
                 then Some (addr, until) else earliest)
            else if max_nodes \<le> length selected + 1 then (True, selected @ [addr], earliest, pool)
            else select_loop pool max_nodes now candidates seen (selected @ [addr]) earliest
        | None \<Rightarrow>
            if max_nodes \<le> length selected + 1 then (True, selected @ [addr], earliest, pool)
            else select_loop pool max_nodes now candidates seen (selected @ [addr]) earliest)"

definition select ::
  "bootstrap_source_pool \<Rightarrow> socket_addr list \<Rightarrow> nat \<Rightarrow> instant \<Rightarrow> socket_addr list \<times> bootstrap_source_pool" where
  "select pool candidates max_nodes now =
     (case select_loop pool max_nodes now candidates {} [] None of
        (returned, selected, earliest, pool) \<Rightarrow>
          if returned then (selected, pool)
          else case earliest of
              Some (addr, _) \<Rightarrow> (if selected = [] \<and> 0 < max_nodes then [addr] else selected, pool)
            | None \<Rightarrow> (selected, pool))"

definition update_state ::
  "(bootstrap_source_state \<Rightarrow> bootstrap_source_state) \<Rightarrow> bootstrap_source_pool \<Rightarrow> socket_addr \<Rightarrow> bootstrap_source_pool" where
  "update_state f pool addr =
     (let (state, pool) = entry_or_default pool addr
      in pool \<lparr> states := hput addr (f state) (states pool) \<rparr>)"

definition mark_attempt :: "bootstrap_source_pool \<Rightarrow> socket_addr \<Rightarrow> instant \<Rightarrow> bootstrap_source_pool" where
  "mark_attempt pool addr now = update_state (\<lambda>state. state \<lparr> last_attempt := Some now \<rparr>) pool addr"

definition mark_success :: "bootstrap_source_pool \<Rightarrow> socket_addr \<Rightarrow> instant \<Rightarrow> bootstrap_source_pool" where
  "mark_success pool addr now =
     update_state (\<lambda>state. state \<lparr> last_success := Some now, fail_count := 0, backoff_until := None \<rparr>) pool addr"

text \<open>\<open>Duration::MAX\<close> bounds \<open>saturating_mul\<close>; \<open>fail_count\<close> saturates at \<open>u32::MAX\<close>.\<close>

definition duration_max :: duration where
  "duration_max = secs (2 ^ 64 - 1) + 999999999"

definition saturating_inc32 :: "u32 \<Rightarrow> u32" where
  "saturating_inc32 n = (if n = - 1 then n else n + 1)"

definition backoff_for :: "bootstrap_source_pool \<Rightarrow> u32 \<Rightarrow> duration" where
  "backoff_for pool fails =
     (let multiplier = 2 ^ min (unat fails - 1) 16
      in min (min (backoff_base pool * multiplier) duration_max) (backoff_max pool))"

definition mark_timeout :: "bootstrap_source_pool \<Rightarrow> socket_addr \<Rightarrow> instant \<Rightarrow> bootstrap_source_pool" where
  "mark_timeout pool addr now =
     update_state (\<lambda>state. let fails = saturating_inc32 (fail_count state)
       in state \<lparr> fail_count := fails, backoff_until := Some (now + backoff_for pool fails) \<rparr>) pool addr"

text \<open>\<open>lookup_host\<close> is the resolver: \<open>None\<close> is an error.\<close>

fun resolve_bootstrap_nodes ::
  "(string \<Rightarrow> socket_addr list option) \<Rightarrow> string list \<Rightarrow> net_mode \<Rightarrow> socket_addr list" where
  "resolve_bootstrap_nodes lookup_host [] netmode = []"
| "resolve_bootstrap_nodes lookup_host (host # hs) netmode =
     (case lookup_host host of
        Some addrs \<Rightarrow> filter (\<lambda>addr. addr_allowed_by_netmode addr netmode \<and> is_valid_node_addr addr) addrs
      | None \<Rightarrow> []) @ resolve_bootstrap_nodes lookup_host hs netmode"

subsection \<open>Which sources a round selects\<close>

definition backoff_of :: "bootstrap_source_pool \<Rightarrow> socket_addr \<Rightarrow> instant option" where
  "backoff_of pool addr = Option.bind (hget (states pool) addr) backoff_until"

definition backing_off :: "bootstrap_source_pool \<Rightarrow> instant \<Rightarrow> socket_addr \<Rightarrow> bool" where
  "backing_off pool now addr = (case backoff_of pool addr of None \<Rightarrow> False | Some until \<Rightarrow> now < until)"

text \<open>The candidates without repetitions and without the addresses in \<open>seen\<close>, in order.\<close>

fun fresh :: "'a set \<Rightarrow> 'a list \<Rightarrow> 'a list" where
  "fresh seen [] = []"
| "fresh seen (x # xs) = (if x \<in> seen then fresh seen xs else x # fresh (insert x seen) xs)"

lemma set_fresh [simp]: "set (fresh seen xs) = set xs - seen"
  by (induction xs arbitrary: seen) auto

lemma distinct_fresh: "distinct (fresh seen xs)"
  by (induction xs arbitrary: seen) auto

definition earlier ::
  "bootstrap_source_pool \<Rightarrow> (socket_addr \<times> instant) option \<Rightarrow> socket_addr \<Rightarrow> (socket_addr \<times> instant) option" where
  "earlier pool e addr =
     (let until = the (backoff_of pool addr)
      in if (case e of None \<Rightarrow> True | Some (_, current) \<Rightarrow> until < current) then Some (addr, until) else e)"

lemma backoff_of_entry:
  assumes "entry_or_default pool addr = (state, pool')"
  shows "backoff_of pool' = backoff_of pool" and "backoff_until state = backoff_of pool addr"
  using assms by (auto simp: entry_or_default_def backoff_of_def bss_default_def fun_eq_iff split: option.splits)

lemma select_loop_spec:
  assumes "select_loop pool m now cands seen sel e = (returned, sel', e', pool')"
    and "backoff_of pool = backoff_of pool0" and "length sel < max m 1"
  shows "let todo = fresh seen cands; ready = filter (\<lambda>a. \<not> backing_off pool0 now a) todo in
    sel' = sel @ take (max m 1 - length sel) ready \<and>
    returned = (max m 1 \<le> length sel + length ready) \<and>
    (\<not> returned \<longrightarrow> e' = foldl (earlier pool0) e (filter (backing_off pool0 now) todo)) \<and>
    backoff_of pool' = backoff_of pool0"
  using assms
proof (induction cands arbitrary: pool seen sel e)
  case Nil
  then show ?case by (auto simp: Let_def)
next
  case (Cons addr cands)
  show ?case
  proof (cases "addr \<in> seen")
    case True
    then show ?thesis using Cons.IH [of pool seen sel e] Cons.prems by simp
  next
    case False
    obtain state p where en: "entry_or_default pool addr = (state, p)" by fastforce
    have p: "backoff_of p = backoff_of pool0" and st: "backoff_until state = backoff_of pool0 addr"
      using backoff_of_entry [OF en] Cons.prems(2) by simp_all
    show ?thesis
    proof (cases "backing_off pool0 now addr")
      case True
      then obtain until where u: "backoff_of pool0 addr = Some until" "now < until"
        by (auto simp: backing_off_def split: option.splits)
      have "select_loop p m now cands (insert addr seen) sel (earlier pool0 e addr) = (returned, sel', e', pool')"
        using Cons.prems(1) False en u by (simp add: Let_def st earlier_def)
      from Cons.IH [OF this p Cons.prems(3)] show ?thesis using False True by (simp add: Let_def)
    next
      case ready: False
      have loop: "(if m \<le> length sel + 1 then (True, sel @ [addr], e, p)
          else select_loop p m now cands (insert addr seen) (sel @ [addr]) e) = (returned, sel', e', pool')"
        using Cons.prems(1) False en ready by (auto simp: Let_def st backing_off_def split: option.splits)
      show ?thesis
      proof (cases "m \<le> length sel + 1")
        case True
        then have "max m 1 - length sel = 1" using Cons.prems(3) by linarith
        then show ?thesis using loop True False ready p by (auto simp: Let_def)
      next
        case more: False
        then have "select_loop p m now cands (insert addr seen) (sel @ [addr]) e = (returned, sel', e', pool')"
          and "length (sel @ [addr]) < max m 1" "max m 1 - length sel = Suc (max m 1 - length (sel @ [addr]))"
          using loop by auto
        from Cons.IH [OF this(1) p this(2)] this(3) show ?thesis
          using False ready by (simp add: Let_def)
      qed
    qed
  qed
qed

lemma foldl_earlier:
  assumes "foldl (earlier pool) e xs = Some (a, u)"
  shows "(a \<in> set xs \<and> u = the (backoff_of pool a) \<or> e = Some (a, u)) \<and>
         (\<forall>b \<in> set xs. u \<le> the (backoff_of pool b)) \<and> (\<forall>b v. e = Some (b, v) \<longrightarrow> u \<le> v)"
  using assms
proof (induction xs arbitrary: e)
  case (Cons x xs)
  from Cons.IH [of "earlier pool e x"] Cons.prems
  show ?case by (auto simp: earlier_def Let_def split: if_splits option.splits)
qed simp

lemma foldl_earlier_None: "foldl (earlier pool) e xs = None \<longleftrightarrow> e = None \<and> xs = []"
  by (induction xs arbitrary: e) (auto simp: earlier_def Let_def split: option.splits)

text \<open>
  C15. Which sources a bootstrap round contacts. Among the distinct candidates, in order, the first
  \<open>max_nodes\<close> that are not backing off are selected (a limit of zero still selects one). When every
  candidate is backing off, the round falls back to a single one, whose back-off ends first, unless
  the limit is zero. The selection changes no back-off.
\<close>

theorem bootstrap_select:
  assumes "select pool candidates max_nodes now = (selected, pool')"
  shows "(let ready = filter (\<lambda>a. \<not> backing_off pool now a) (fresh {} candidates) in
      if ready \<noteq> [] then selected = take (max max_nodes 1) ready
      else if candidates = [] \<or> max_nodes = 0 then selected = []
      else \<exists>a \<in> set candidates. selected = [a] \<and>
             (\<forall>b \<in> set candidates. the (backoff_of pool a) \<le> the (backoff_of pool b))) \<and>
    backoff_of pool' = backoff_of pool"
proof -
  obtain returned sel e p where loop: "select_loop pool max_nodes now candidates {} [] None = (returned, sel, e, p)"
    by (metis prod_cases4)
  let ?ready = "filter (\<lambda>a. \<not> backing_off pool now a) (fresh {} candidates)"
  let ?wait = "filter (backing_off pool now) (fresh {} candidates)"
  have sel: "sel = take (max max_nodes 1) ?ready" and ret: "returned \<longleftrightarrow> max max_nodes 1 \<le> length ?ready"
    and e: "\<not> returned \<Longrightarrow> e = foldl (earlier pool) None ?wait" and p: "backoff_of p = backoff_of pool"
    using select_loop_spec [OF loop refl] by (auto simp: Let_def)
  have res: "pool' = p" "selected = (if \<not> returned \<and> sel = [] \<and> 0 < max_nodes \<and> e \<noteq> None then [fst (the e)] else sel)"
    using assms loop by (auto simp: select_def split: if_splits option.splits prod.splits)
  show ?thesis
  proof (cases "?ready = []")
    case False
    then show ?thesis using sel res p by (simp add: Let_def)
  next
    case True
    then have nr: "\<not> returned" and none: "sel = []" using ret sel by auto
    have all: "set ?wait = set candidates" using True by (auto simp: filter_empty_conv)
    show ?thesis
    proof (cases "candidates = [] \<or> max_nodes = 0")
      case True
      then have "selected = []" using res(2) none e [OF nr] by auto
      then show ?thesis using True \<open>?ready = []\<close> res(1) p by (simp add: Let_def)
    next
      case False
      then have "?wait \<noteq> []" using all by (metis list.set(1) set_empty)
      then obtain a u where au: "foldl (earlier pool) None ?wait = Some (a, u)"
        using foldl_earlier_None [of pool None ?wait] by fastforce
      from foldl_earlier [OF this] have "a \<in> set ?wait" "u = the (backoff_of pool a)"
        and "\<forall>b \<in> set ?wait. u \<le> the (backoff_of pool b)" by auto
      moreover have "selected = [a]" using res(2) nr none au e [OF nr] False by simp
      ultimately show ?thesis using False \<open>?ready = []\<close> res(1) p unfolding all by (auto simp: Let_def)
    qed
  qed
qed

definition sample_source :: "u8 \<Rightarrow> socket_addr" where
  "sample_source n = SockV4 [67, 215, 246, n] 6881"

theorem bootstrap_select_witness:
  "let pool = mark_timeout (mark_timeout (bsp_new [] (secs 300) (secs 3600)) (sample_source 1) 0) (sample_source 2) 5;
       ready = filter (\<lambda>a. \<not> backing_off pool (secs 10) a) (fresh {} [sample_source 2, sample_source 1]) in
   ready = [] \<and> fst (select pool [sample_source 2, sample_source 1] 3 (secs 10)) = [sample_source 1] \<and>
   backoff_of (snd (select pool [sample_source 2, sample_source 1] 3 (secs 10))) = backoff_of pool"
proof -
  let ?pool = "mark_timeout (mark_timeout (bsp_new [] (secs 300) (secs 3600)) (sample_source 1) 0) (sample_source 2) 5"
  have "filter (\<lambda>a. \<not> backing_off ?pool (secs 10) a) (fresh {} [sample_source 2, sample_source 1]) = []"
    "fst (select ?pool [sample_source 2, sample_source 1] 3 (secs 10)) = [sample_source 1]"
    by code_simp+
  then show ?thesis
    using bootstrap_select [of ?pool "[sample_source 2, sample_source 1]" 3 "secs 10", OF prod.collapse [symmetric]]
    by (simp add: Let_def)
qed

subsection \<open>How long a failing source is left alone\<close>

lemma hget_update_state:
  "hget (states (update_state f pool addr)) a =
     (if a = addr then Some (f (case hget (states pool) addr of None \<Rightarrow> bss_default | Some st \<Rightarrow> st))
      else hget (states pool) a)"
  by (auto simp: update_state_def entry_or_default_def split: option.splits)

lemma update_state_static [simp]:
  "backoff_base (update_state f pool addr) = backoff_base pool"
  "backoff_max (update_state f pool addr) = backoff_max pool"
  by (auto simp: update_state_def entry_or_default_def split: option.splits)

definition timeouts :: "socket_addr \<Rightarrow> instant list \<Rightarrow> bootstrap_source_pool \<Rightarrow> bootstrap_source_pool" where
  "timeouts addr ts pool = fold (\<lambda>t p. mark_timeout p addr t) ts pool"

lemma timeouts_static [simp]:
  "backoff_base (timeouts addr ts pool) = backoff_base pool"
  "backoff_max (timeouts addr ts pool) = backoff_max pool"
  by (induction ts arbitrary: pool) (simp_all add: timeouts_def mark_timeout_def)

lemma unat_saturating_inc32: "unat (saturating_inc32 n) = min (unat n + 1) (2 ^ 32 - 1)"
proof (cases "n = - 1")
  case False
  then have "unat (n + 1) = unat n + 1" by (metis add_eq_0_iff2 unatSuc Suc_eq_plus1 add.commute)
  moreover have "unat (n + 1) < 2 ^ 32" using unsigned_less [of "n + 1"] by simp
  ultimately show ?thesis using False by (simp add: saturating_inc32_def)
qed (simp add: saturating_inc32_def unsigned_minus_1_eq_mask mask_eq_exp_minus_1)

lemma timeouts_count:
  assumes "hget (states pool) addr = Some st" and "fail_count st = 0"
  shows "\<exists>st'. hget (states (timeouts addr ts pool)) addr = Some st' \<and> unat (fail_count st') = min (length ts) (2 ^ 32 - 1)"
proof (induction ts rule: rev_induct)
  case (snoc t ts)
  then show ?case
    by (auto simp: timeouts_def mark_timeout_def hget_update_state Let_def unat_saturating_inc32)
qed (use assms in \<open>simp add: timeouts_def\<close>)

text \<open>
  C16. Exponential back-off of a failing source: after a success followed by any positive number of
  timeouts, the source is left alone until the last timeout plus the base delay doubled once per
  earlier timeout, at most sixteen times, and never longer than the configured maximum; no other
  source is affected, and a success clears the back-off.
\<close>

theorem bootstrap_backoff:
  fixes earlier_ts :: "instant list"
  assumes "pool' = timeouts addr (earlier_ts @ [t]) (mark_success pool addr t0)"
  shows "backoff_of pool' addr = Some (t + min (min (backoff_base pool * 2 ^ min (length earlier_ts) 16) duration_max)
                                               (backoff_max pool)) \<and>
         backoff_of (mark_success pool addr t0) addr = None \<and>
         (a \<noteq> addr \<longrightarrow> backoff_of pool' a = backoff_of pool a)"
proof -
  let ?init = "mark_success pool addr t0" and ?p = "timeouts addr earlier_ts (mark_success pool addr t0)"
  have p': "pool' = mark_timeout ?p addr t" using assms by (simp add: timeouts_def)
  obtain st where st: "hget (states ?init) addr = Some st" "fail_count st = 0" "backoff_until st = None"
    by (simp add: mark_success_def hget_update_state)
  obtain st' where st': "hget (states ?p) addr = Some st'"
    and cnt: "unat (fail_count st') = min (length earlier_ts) (2 ^ 32 - 1)"
    using timeouts_count [OF st(1,2)] by blast
  have "min (unat (saturating_inc32 (fail_count st')) - 1) 16 = min (length earlier_ts) 16"
    by (simp add: unat_saturating_inc32 cnt min_def)
  moreover have "backoff_base ?p = backoff_base pool" "backoff_max ?p = backoff_max pool"
    by (simp_all add: mark_success_def)
  ultimately have "backoff_of pool' addr =
      Some (t + min (min (backoff_base pool * 2 ^ min (length earlier_ts) 16) duration_max) (backoff_max pool))"
    by (simp add: p' mark_timeout_def backoff_of_def hget_update_state st' Let_def backoff_for_def)
  moreover have "hget (states (timeouts addr ts q)) a = hget (states q) a" if "a \<noteq> addr" for ts q
    using that by (induction ts arbitrary: q) (simp_all add: timeouts_def mark_timeout_def hget_update_state)
  then have "a \<noteq> addr \<longrightarrow> backoff_of pool' a = backoff_of pool a"
    by (simp add: assms backoff_of_def mark_success_def hget_update_state)
  ultimately show ?thesis using st by (simp add: backoff_of_def)
qed

theorem bootstrap_backoff_witness:
  "backoff_of (timeouts (sample_source 1) ([1, 2] @ [3]) (mark_success (bsp_new [] (secs 300) (secs 3600)) (sample_source 1) 0))
     (sample_source 1) = Some (3 + secs 1200)"
  using bootstrap_backoff [of _ "sample_source 1" "[1, 2]" 3 "bsp_new [] (secs 300) (secs 3600)" 0, OF refl]
  by (simp add: bsp_new_def duration_max_def)

end
