(* ===== verification/Krpc.thy ===== *)
theory Krpc
  imports Node_Id Net_Types
begin

text \<open>
  \<open>src/src/protocol.rs\<close> and \<open>src/src/krpc.rs\<close>: the decoded message types, the walk over compact nodes
  and peers of a response, and the hand-written encoders of outgoing messages. The bencode decoder
  the program uses is a library; \<open>bval\<close>, \<open>benc\<close> and \<open>bdecode\<close> below specify the fragment of the
  format (byte strings and dictionaries) that the encoders emit.

  Results: every encoder emits the canonical bencoding of the message it means, so a bencode parser
  reads that message back; compact node lists round-trip through \<open>encode_response\<close> and
  \<open>for_each_response_node\<close>; \<open>push_usize\<close> never overruns its 20-digit buffer.
\<close>

unbundle bit_operations_syntax

subsection \<open>Messages\<close>

record dht_args =
  arg_id :: "bytes option"
  arg_target :: "bytes option"
  arg_info_hash :: "bytes option"
  arg_token :: "bytes option"
  arg_port :: "u16 option"
  arg_implied_port :: "u8 option"

record dht_response =
  resp_id :: "bytes option"
  resp_nodes :: "bytes option"
  resp_nodes6 :: "bytes option"
  resp_values :: "bytes list option"
  resp_samples :: "bytes option"
  resp_interval :: "u64 option"
  resp_num :: "u64 option"

record dht_message =
  msg_t :: bytes
  msg_y :: string
  msg_q :: "string option"
  msg_a :: "dht_args option"
  msg_r :: "dht_response option"

definition dht_response_default :: dht_response where
  "dht_response_default = \<lparr> resp_id = None, resp_nodes = None, resp_nodes6 = None, resp_values = None,
     resp_samples = None, resp_interval = None, resp_num = None \<rparr>"

subsection \<open>Compact addresses\<close>

definition from_be_bytes16 :: "u8 \<Rightarrow> u8 \<Rightarrow> u16" where
  "from_be_bytes16 a b = push_bit 8 (ucast a) OR ucast b"

definition to_be_bytes16 :: "u16 \<Rightarrow> bytes" where
  "to_be_bytes16 w = [ucast (drop_bit 8 w), ucast w]"

function chunks_exact :: "nat \<Rightarrow> 'a list \<Rightarrow> 'a list list" where
  "chunks_exact n xs = (if n = 0 \<or> length xs < n then [] else take n xs # chunks_exact n (drop n xs))"
  by pat_completeness auto
termination by (relation "measure (\<lambda>(n, xs). length xs)") auto

declare chunks_exact.simps [simp del]

text \<open>The bodies of the two loops: the node read from a chunk.\<close>

definition compact_v4_node :: "bytes \<Rightarrow> node_tuple" where
  "compact_v4_node chunk =
     \<lparr> nt_id = take 20 chunk,
       nt_addr = SockV4 [chunk ! 20, chunk ! 21, chunk ! 22, chunk ! 23] (from_be_bytes16 (chunk ! 24) (chunk ! 25)) \<rparr>"

definition compact_v6_node :: "bytes \<Rightarrow> node_tuple" where
  "compact_v6_node chunk =
     \<lparr> nt_id = take 20 chunk,
       nt_addr = SockV6 (take 16 (drop 20 chunk)) (from_be_bytes16 (chunk ! 36) (chunk ! 37)) 0 0 \<rparr>"

fun visit_chunks :: "(bytes \<Rightarrow> node_tuple) \<Rightarrow> bytes list \<Rightarrow> nat \<times> node_tuple list \<Rightarrow> nat \<times> node_tuple list" where
  "visit_chunks read [] acc = acc"
| "visit_chunks read (chunk # chunks) (cnt, visited) =
     (let node = read chunk in
      if is_valid_node_addr (nt_addr node) then visit_chunks read chunks (cnt + 1, visited @ [node])
      else visit_chunks read chunks (cnt, visited))"

text \<open>The result pairs the returned count with the sequence of nodes passed to \<open>visit\<close>.\<close>

definition for_each_response_node :: "dht_response \<Rightarrow> net_mode \<Rightarrow> nat \<times> node_tuple list" where
  "for_each_response_node response netmode =
     (let acc = (0, []);
          acc = (if netmode \<noteq> Ipv6Only then
                   case resp_nodes response of
                     Some nodes \<Rightarrow> if length nodes mod 26 = 0 then visit_chunks compact_v4_node (chunks_exact 26 nodes) acc else acc
                   | None \<Rightarrow> acc
                 else acc)
      in if netmode \<noteq> Ipv4Only then
           case resp_nodes6 response of
             Some nodes \<Rightarrow> if length nodes mod 38 = 0 then visit_chunks compact_v6_node (chunks_exact 38 nodes) acc else acc
           | None \<Rightarrow> acc
         else acc)"

definition compact_peer :: "bytes \<Rightarrow> socket_addr option" where
  "compact_peer bs =
     (if length bs = 6 then Some (SockV4 (take 4 bs) (from_be_bytes16 (bs ! 4) (bs ! 5)))
      else if length bs = 18 then Some (SockV6 (take 16 bs) (from_be_bytes16 (bs ! 16) (bs ! 17)) 0 0)
      else None)"

fun visit_peers :: "net_mode \<Rightarrow> bytes list \<Rightarrow> nat \<times> socket_addr list \<Rightarrow> nat \<times> socket_addr list" where
  "visit_peers netmode [] acc = acc"
| "visit_peers netmode (v # values) (cnt, visited) =
     (case compact_peer v of
        None \<Rightarrow> visit_peers netmode values (cnt, visited)
      | Some addr \<Rightarrow>
          if addr_allowed_by_netmode addr netmode \<and> is_valid_node_addr addr
          then visit_peers netmode values (cnt + 1, visited @ [addr])
          else visit_peers netmode values (cnt, visited))"

definition for_each_response_peer :: "dht_response \<Rightarrow> net_mode \<Rightarrow> nat \<times> socket_addr list" where
  "for_each_response_peer response netmode =
     (case resp_values response of None \<Rightarrow> (0, []) | Some values \<Rightarrow> visit_peers netmode values (0, []))"

subsection \<open>Encoders\<close>

definition ascii :: "string \<Rightarrow> bytes" where
  "ascii s = map of_char s"

definition encode_find_node_query :: "bytes \<Rightarrow> bytes \<Rightarrow> bytes \<Rightarrow> bytes" where
  "encode_find_node_query tid target sender_id =
     ascii ''d1:ad2:id20:'' @ sender_id @ ascii ''6:target20:'' @ target @
     ascii ''e1:q9:find_node1:t8:'' @ tid @ ascii ''1:y1:qe''"

definition encode_get_peers_query :: "bytes \<Rightarrow> bytes \<Rightarrow> bytes \<Rightarrow> bytes" where
  "encode_get_peers_query tid info_hash sender_id =
     ascii ''d1:ad2:id20:'' @ sender_id @ ascii ''9:info_hash20:'' @ info_hash @
     ascii ''e1:q9:get_peers1:t8:'' @ tid @ ascii ''1:y1:qe''"

definition encode_sample_infohashes_query :: "bytes \<Rightarrow> bytes \<Rightarrow> bytes \<Rightarrow> bytes" where
  "encode_sample_infohashes_query tid target sender_id =
     ascii ''d1:ad2:id20:'' @ sender_id @ ascii ''6:target20:'' @ target @
     ascii ''e1:q17:sample_infohashes1:t8:'' @ tid @ ascii ''1:y1:qe''"

text \<open>\<open>push_usize\<close> writes digits backwards into an array of twenty; running off its start is a panic.\<close>

function push_digits :: "bytes \<Rightarrow> nat \<Rightarrow> nat \<Rightarrow> bytes option" where
  "push_digits digits cursor n =
     (if cursor = 0 then None
      else let cursor = cursor - 1;
               digits = digits[cursor := 48 + of_nat (n mod 10)];
               n = n div 10
        in if n = 0 then Some (drop cursor digits) else push_digits digits cursor n)"
  by pat_completeness auto
termination by (relation "measure (\<lambda>(_, cursor, _). cursor)") auto

declare push_digits.simps [simp del]

definition push_usize :: "bytes \<Rightarrow> nat \<Rightarrow> bytes option" where
  "push_usize buffer n = map_option (\<lambda>ds. buffer @ ds) (push_digits (replicate 20 0) 20 n)"

definition compact_node :: "bool \<Rightarrow> node_tuple \<Rightarrow> bytes" where
  "compact_node ipv6 node =
     (case nt_addr node of
        SockV4 ip port \<Rightarrow> if \<not> ipv6 then nt_id node @ ip @ to_be_bytes16 port else []
      | SockV6 ip port _ _ \<Rightarrow> if ipv6 then nt_id node @ ip @ to_be_bytes16 port else [])"

definition encode_response :: "bytes \<Rightarrow> bytes \<Rightarrow> bytes \<Rightarrow> node_tuple list \<Rightarrow> bool \<Rightarrow> bytes option" where
  "encode_response tid node_id token nodes ipv6 = do {
     let buffer = ascii ''d1:rd2:id20:'' @ node_id;
     let compact_len = (if ipv6 then length (filter (\<lambda>node. is_ipv6 (nt_addr node)) nodes) * 38
                        else length (filter (\<lambda>node. is_ipv4 (nt_addr node)) nodes) * 26);
     buffer \<leftarrow> (if 0 < compact_len then do {
         buffer \<leftarrow> push_usize (buffer @ (if ipv6 then ascii ''6:nodes6'' else ascii ''5:nodes'')) compact_len;
         Some (buffer @ ascii '':'' @ concat (map (compact_node ipv6) nodes))
       } else Some buffer);
     buffer \<leftarrow> push_usize (buffer @ ascii ''5:token8:'' @ token @ ascii ''e1:t'') (length tid);
     Some (buffer @ ascii '':'' @ tid @ ascii ''1:y1:re'')
   }"

subsection \<open>Bencoding\<close>

datatype bval = BStr bytes | BDict "(bytes \<times> bval) list"

fun decimal :: "nat \<Rightarrow> bytes" where
  "decimal n = (if n < 10 then [48 + of_nat n] else decimal (n div 10) @ [48 + of_nat (n mod 10)])"

declare decimal.simps [simp del]

definition benc_str :: "bytes \<Rightarrow> bytes" where
  "benc_str s = decimal (length s) @ 58 # s"

fun benc :: "bval \<Rightarrow> bytes" and benc_items :: "(bytes \<times> bval) list \<Rightarrow> bytes" where
  "benc (BStr s) = benc_str s"
| "benc (BDict kvs) = 100 # benc_items kvs @ [101]"
| "benc_items [] = []"
| "benc_items ((k, v) # kvs) = benc_str k @ benc v @ benc_items kvs"

text \<open>Canonical: the keys of every dictionary are strictly sorted.\<close>

fun bcanonical :: "bval \<Rightarrow> bool" where
  "bcanonical (BStr s) = True"
| "bcanonical (BDict kvs) = (sorted_wrt (<) (map fst kvs) \<and> (\<forall>(k, v) \<in> set kvs. bcanonical v))"

definition is_digit :: "u8 \<Rightarrow> bool" where
  "is_digit b = (48 \<le> b \<and> b \<le> 57)"

definition read_decimal :: "bytes \<Rightarrow> nat" where
  "read_decimal ds = foldl (\<lambda>n d. n * 10 + unat (d - 48)) 0 ds"

definition bdec_str :: "bytes \<Rightarrow> (bytes \<times> bytes) option" where
  "bdec_str bs =
     (let ds = takeWhile is_digit bs; rest = dropWhile is_digit bs; n = read_decimal ds in
      case rest of
        [] \<Rightarrow> None
      | c # rest \<Rightarrow> if c = 58 \<and> ds \<noteq> [] \<and> n \<le> length rest then Some (take n rest, drop n rest) else None)"

text \<open>A parser of the format; the fuel bounds the nesting, and the length of the input suffices.\<close>

fun bdec :: "nat \<Rightarrow> bytes \<Rightarrow> (bval \<times> bytes) option"
  and bdec_items :: "nat \<Rightarrow> bytes \<Rightarrow> ((bytes \<times> bval) list \<times> bytes) option" where
  "bdec 0 bs = None"
| "bdec (Suc fuel) bs =
     (case bs of
        [] \<Rightarrow> None
      | b # rest \<Rightarrow>
          if b = 100 then map_option (\<lambda>(kvs, rest). (BDict kvs, rest)) (bdec_items fuel rest)
          else map_option (\<lambda>(s, rest). (BStr s, rest)) (bdec_str bs))"
| "bdec_items 0 bs = None"
| "bdec_items (Suc fuel) bs =
     (case bs of
        [] \<Rightarrow> None
      | b # rest \<Rightarrow>
          if b = 101 then Some ([], rest)
          else do {
            (k, bs) \<leftarrow> bdec_str bs;
            (v, bs) \<leftarrow> bdec fuel bs;
            (kvs, bs) \<leftarrow> bdec_items fuel bs;
            Some ((k, v) # kvs, bs)
          })"

definition bdecode :: "bytes \<Rightarrow> bval option" where
  "bdecode bs = (case bdec (length bs) bs of Some (v, []) \<Rightarrow> Some v | _ \<Rightarrow> None)"

subsection \<open>Decimal numbers\<close>

lemma unat_digit: "k < 10 \<Longrightarrow> unat (of_nat k :: u8) = k"
  by (simp add: unat_of_nat take_bit_nat_eq_self_iff)

lemma is_digit_digit: "k < 10 \<Longrightarrow> is_digit (48 + of_nat k)"
proof -
  assume k: "k < 10"
  have "k \<in> {0..<10}" using k by simp
  then have "k \<in> {0, 1, 2, 3, 4, 5, 6, 7, 8, 9}" by (auto simp: eval_nat_numeral)
  then show ?thesis by (auto simp: is_digit_def)
qed

lemma decimal_digits: "list_all is_digit (decimal n)"
proof (induction n rule: decimal.induct)
  case (1 n)
  then show ?case by (subst decimal.simps) (simp add: is_digit_digit)
qed

lemma decimal_not_Nil [simp]: "decimal n \<noteq> []"
  by (subst decimal.simps) simp

lemma read_decimal_decimal [simp]: "read_decimal (decimal n) = n"
proof (induction n rule: decimal.induct)
  case (1 n)
  show ?case
  proof (cases "n < 10")
    case True
    then show ?thesis by (subst decimal.simps) (simp add: read_decimal_def unat_digit)
  next
    case False
    then have "read_decimal (decimal (n div 10)) = n div 10" by (rule 1)
    then show ?thesis using False by (subst decimal.simps) (simp add: read_decimal_def unat_digit)
  qed
qed

lemma drop_list_update: "c < length ds \<Longrightarrow> drop c (ds[c := x]) = x # drop (Suc c) ds"
  by (induction ds arbitrary: c) (auto simp: nth_Cons' drop_Cons' split: nat.splits)

lemma push_digits_decimal:
  assumes "n < 10 ^ cursor" and "0 < cursor" and "cursor \<le> length digits"
  shows "push_digits digits cursor n = Some (decimal n @ drop cursor digits)"
  using assms
proof (induction digits cursor n rule: push_digits.induct)
  case (1 digits cursor n)
  let ?c = "cursor - 1" and ?ds = "digits[cursor - 1 := 48 + of_nat (n mod 10)]"
  have drop: "drop ?c ?ds = (48 + of_nat (n mod 10)) # drop cursor digits"
    using drop_list_update [of ?c digits] 1(3,4) by simp
  show ?case
  proof (cases "n div 10 = 0")
    case True
    then have "n < 10" by simp
    then show ?thesis
      using 1(3) True drop by (subst push_digits.simps) (simp add: Let_def decimal.simps [of n])
  next
    case False
    have c: "0 < ?c"
    proof (rule ccontr)
      assume "\<not> 0 < ?c"
      then have "cursor = 1" using 1(3) by simp
      then show False using 1(2) False by simp
    qed
    have "n div 10 < 10 ^ ?c"
      using 1(2) power_minus_mult [OF 1(3), of "10 :: nat"] by (intro less_mult_imp_div_less) simp
    then have "push_digits ?ds ?c (n div 10) = Some (decimal (n div 10) @ drop ?c ?ds)"
      using 1(3,4) False c by (intro 1(1)) simp_all
    then show ?thesis
      using 1(3) False drop by (subst push_digits.simps) (simp add: Let_def decimal.simps [of n])
  qed
qed

lemma push_usize_decimal: "n < 2 ^ 64 \<Longrightarrow> push_usize buffer n = Some (buffer @ decimal n)"
  by (simp add: push_usize_def push_digits_decimal)

subsection \<open>Parsing what was encoded\<close>

lemma bdec_str_benc_str [simp]: "bdec_str (benc_str s @ rest) = Some (s, rest)"
proof -
  have d: "takeWhile is_digit (decimal (length s) @ 58 # s @ rest) = decimal (length s)"
    "dropWhile is_digit (decimal (length s) @ 58 # s @ rest) = 58 # s @ rest"
    using decimal_digits [of "length s"]
    by (auto simp: list_all_iff takeWhile_append2 dropWhile_append2 is_digit_def)
  show ?thesis by (simp add: benc_str_def bdec_str_def d)
qed

lemma benc_str_first: "\<exists>d ds. benc_str s = d # ds \<and> is_digit d \<and> ds \<noteq> []"
  using decimal_digits [of "length s"] decimal_not_Nil [of "length s"]
  by (cases "decimal (length s)") (auto simp: benc_str_def)

lemma bdec_benc:
  "length (benc v) \<le> fuel \<Longrightarrow> bdec fuel (benc v @ rest) = Some (v, rest)"
  "length (benc_items kvs) < fuel \<Longrightarrow> bdec_items fuel (benc_items kvs @ 101 # rest) = Some (kvs, rest)"
proof (induction v and kvs arbitrary: fuel rest and fuel rest rule: benc_benc_items.induct)
  case (1 s)
  obtain d ds where d: "benc_str s = d # ds" "is_digit d" using benc_str_first by blast
  then obtain f where f: "fuel = Suc f" using 1 by (cases fuel) auto
  have "d \<noteq> 100" using d(2) by (auto simp: is_digit_def)
  then show ?case using bdec_str_benc_str [of s rest] d(1) f by simp
next
  case (2 kvs)
  then show ?case by (cases fuel) auto
next
  case 3
  then show ?case by (cases fuel) auto
next
  case (4 k v kvs)
  obtain d ds where d: "benc_str k = d # ds" "is_digit d" "ds \<noteq> []" using benc_str_first by blast
  then obtain f where f: "fuel = Suc f" using 4 by (cases fuel) auto
  have "2 \<le> length (benc_str k)" using d by (cases ds) auto
  then have fuel: "length (benc v) \<le> f" "length (benc_items kvs) < f" using 4(3) f by simp_all
  have "d \<noteq> 101" using d(2) by (auto simp: is_digit_def)
  then show ?case
    using bdec_str_benc_str [of k "benc v @ benc_items kvs @ 101 # rest"] 4(1) [OF fuel(1)] 4(2) [OF fuel(2)] d(1) f
    by simp
qed

lemma bdecode_benc [simp]: "bdecode (benc v) = Some v"
  using bdec_benc(1) [of v "length (benc v)" "[]"] by (simp add: bdecode_def)

subsection \<open>Queries\<close>

definition krpc_query :: "string \<Rightarrow> (bytes \<times> bval) list \<Rightarrow> bytes \<Rightarrow> bval" where
  "krpc_query method args tid =
     BDict [(ascii ''a'', BDict args), (ascii ''q'', BStr (ascii method)), (ascii ''t'', BStr tid), (ascii ''y'', BStr (ascii ''q''))]"

lemma benc_str_literals:
  "benc_str (ascii ''a'') = ascii ''1:a''" "benc_str (ascii ''q'') = ascii ''1:q''"
  "benc_str (ascii ''t'') = ascii ''1:t''" "benc_str (ascii ''y'') = ascii ''1:y''"
  "benc_str (ascii ''r'') = ascii ''1:r''" "benc_str (ascii ''id'') = ascii ''2:id''"
  "benc_str (ascii ''target'') = ascii ''6:target''" "benc_str (ascii ''info_hash'') = ascii ''9:info_hash''"
  "benc_str (ascii ''find_node'') = ascii ''9:find_node''" "benc_str (ascii ''get_peers'') = ascii ''9:get_peers''"
  "benc_str (ascii ''sample_infohashes'') = ascii ''17:sample_infohashes''"
  "benc_str (ascii ''nodes'') = ascii ''5:nodes''" "benc_str (ascii ''nodes6'') = ascii ''6:nodes6''"
  "benc_str (ascii ''token'') = ascii ''5:token''"
  by code_simp+

lemma benc_str_sized:
  "length s = 20 \<Longrightarrow> benc_str s = ascii ''20:'' @ s" "length s = 8 \<Longrightarrow> benc_str s = ascii ''8:'' @ s"
proof -
  have "decimal 20 @ [58] = ascii ''20:''" "decimal 8 @ [58] = ascii ''8:''" by code_simp+
  then have "(decimal 20 @ [58]) @ s = ascii ''20:'' @ s" "(decimal 8 @ [58]) @ s = ascii ''8:'' @ s" by simp_all
  then show "length s = 20 \<Longrightarrow> benc_str s = ascii ''20:'' @ s" "length s = 8 \<Longrightarrow> benc_str s = ascii ''8:'' @ s"
    by (simp_all add: benc_str_def)
qed

lemma encode_queries:
  assumes "length tid = 8" and "length x = 20" and "length sender_id = 20"
  shows "encode_find_node_query tid x sender_id =
           benc (krpc_query ''find_node'' [(ascii ''id'', BStr sender_id), (ascii ''target'', BStr x)] tid)"
    and "encode_get_peers_query tid x sender_id =
           benc (krpc_query ''get_peers'' [(ascii ''id'', BStr sender_id), (ascii ''info_hash'', BStr x)] tid)"
    and "encode_sample_infohashes_query tid x sender_id =
           benc (krpc_query ''sample_infohashes'' [(ascii ''id'', BStr sender_id), (ascii ''target'', BStr x)] tid)"
  unfolding encode_find_node_query_def encode_get_peers_query_def encode_sample_infohashes_query_def
    krpc_query_def benc.simps benc_items.simps benc_str_literals benc_str_sized(1) [OF assms(2)]
    benc_str_sized(1) [OF assms(3)] benc_str_sized(2) [OF assms(1)]
  by (simp_all add: ascii_def)

text \<open>
  C17. Outgoing queries: for an eight-byte transaction id and twenty-byte ids, each of the three
  query encoders emits the canonical bencoding of the KRPC query it is named after; parsing the
  packet gives back exactly the method, the transaction id, the sender and the argument.
\<close>

theorem krpc_queries_parse_back:
  assumes "length tid = 8" and "length x = 20" and "length sender_id = 20"
  shows "bdecode (encode_find_node_query tid x sender_id) =
           Some (krpc_query ''find_node'' [(ascii ''id'', BStr sender_id), (ascii ''target'', BStr x)] tid) \<and>
         bdecode (encode_get_peers_query tid x sender_id) =
           Some (krpc_query ''get_peers'' [(ascii ''id'', BStr sender_id), (ascii ''info_hash'', BStr x)] tid) \<and>
         bdecode (encode_sample_infohashes_query tid x sender_id) =
           Some (krpc_query ''sample_infohashes'' [(ascii ''id'', BStr sender_id), (ascii ''target'', BStr x)] tid) \<and>
         list_all bcanonical
           [krpc_query ''find_node'' [(ascii ''id'', BStr sender_id), (ascii ''target'', BStr x)] tid,
            krpc_query ''get_peers'' [(ascii ''id'', BStr sender_id), (ascii ''info_hash'', BStr x)] tid,
            krpc_query ''sample_infohashes'' [(ascii ''id'', BStr sender_id), (ascii ''target'', BStr x)] tid]"
  unfolding encode_queries [OF assms] bdecode_benc by (simp add: krpc_query_def ascii_def)

theorem krpc_queries_parse_back_witness:
  "bdecode (encode_get_peers_query (replicate 8 1) (replicate 20 2) (replicate 20 3)) =
     Some (krpc_query ''get_peers'' [(ascii ''id'', BStr (replicate 20 3)), (ascii ''info_hash'', BStr (replicate 20 2))] (replicate 8 1))"
  using krpc_queries_parse_back [of "replicate 8 1" "replicate 20 2" "replicate 20 3"] by simp

subsection \<open>Responses\<close>

lemma be_bytes16: "from_be_bytes16 (ucast (drop_bit 8 w)) (ucast (w :: u16)) = w"
  by (rule bit_word_eqI) (auto simp: from_be_bytes16_def bit_simps)

lemma chunks_exact_concat:
  "0 < n \<Longrightarrow> list_all (\<lambda>c. length c = n) cs \<Longrightarrow> chunks_exact n (concat cs) = cs"
proof (induction cs)
  case Nil
  then show ?case by (subst chunks_exact.simps) simp
next
  case (Cons c cs)
  then show ?case by (subst chunks_exact.simps) simp
qed

lemma visit_chunks_eq:
  "visit_chunks read cs (cnt, vs) =
     (let ws = filter (\<lambda>n. is_valid_node_addr (nt_addr n)) (map read cs) in (cnt + length ws, vs @ ws))"
  by (induction cs arbitrary: cnt vs) (simp_all add: Let_def)

text \<open>A compact address has no flow information and no scope.\<close>

fun strip_addr :: "socket_addr \<Rightarrow> socket_addr" where
  "strip_addr (SockV4 ip port) = SockV4 ip port"
| "strip_addr (SockV6 ip port f sc) = SockV6 ip port 0 0"

definition strip_node :: "node_tuple \<Rightarrow> node_tuple" where
  "strip_node node = node \<lparr> nt_addr := strip_addr (nt_addr node) \<rparr>"

lemma valid_strip [simp]: "is_valid_node_addr (strip_addr a) = is_valid_node_addr a"
  by (cases a) (simp_all add: is_valid_node_addr_def)

definition node_wf :: "node_tuple \<Rightarrow> bool" where
  "node_wf node = (length (nt_id node) = 20 \<and> addr_wf (nt_addr node))"

lemma length_4: "length xs = 4 \<Longrightarrow> \<exists>a b c d. xs = [a, b, c, d]"
  by (auto simp: eval_nat_numeral length_Suc_conv)

lemma read_compact_v4:
  assumes "node_wf node" and "\<not> is_ipv6 (nt_addr node)"
  shows "compact_v4_node (compact_node False node) = strip_node node \<and> length (compact_node False node) = 26"
proof -
  obtain ip port where a: "nt_addr node = SockV4 ip port" using assms(2) by (cases "nt_addr node") auto
  moreover obtain w x y z where "ip = [w, x, y, z]"
    using a assms(1) length_4 [of ip] by (auto simp: node_wf_def)
  moreover have "length (nt_id node) = 20" using assms(1) by (simp add: node_wf_def)
  ultimately show ?thesis
    by (simp add: compact_node_def compact_v4_node_def strip_node_def to_be_bytes16_def nth_append be_bytes16)
qed

lemma read_compact_v6:
  assumes "node_wf node" and "is_ipv6 (nt_addr node)"
  shows "compact_v6_node (compact_node True node) = strip_node node \<and> length (compact_node True node) = 38"
proof -
  obtain ip port f sc where a: "nt_addr node = SockV6 ip port f sc" using assms(2) by (cases "nt_addr node") auto
  moreover have "length ip = 16" "length (nt_id node) = 20" using a assms(1) by (auto simp: node_wf_def)
  ultimately show ?thesis
    by (simp add: compact_node_def compact_v6_node_def strip_node_def to_be_bytes16_def nth_append be_bytes16)
qed

definition of_family :: "bool \<Rightarrow> node_tuple list \<Rightarrow> node_tuple list" where
  "of_family ipv6 nodes = filter (\<lambda>node. is_ipv6 (nt_addr node) = ipv6) nodes"

lemma concat_compact_family:
  "concat (map (compact_node ipv6) nodes) = concat (map (compact_node ipv6) (of_family ipv6 nodes))"
  by (induction nodes) (auto simp: of_family_def compact_node_def split: socket_addr.splits)

definition node_size :: "bool \<Rightarrow> nat" where
  "node_size ipv6 = (if ipv6 then 38 else 26)"

lemma length_compact:
  assumes "list_all node_wf nodes"
  shows "length (concat (map (compact_node ipv6) nodes)) = length (of_family ipv6 nodes) * node_size ipv6"
  using assms
proof (induction nodes)
  case (Cons node nodes)
  then show ?case
    using read_compact_v4 [of node] read_compact_v6 [of node]
    by (cases "nt_addr node"; cases ipv6) (auto simp: of_family_def node_size_def compact_node_def)
qed (simp add: of_family_def)

definition compact_field :: "bool \<Rightarrow> node_tuple list \<Rightarrow> dht_response" where
  "compact_field ipv6 nodes =
     (let compact = concat (map (compact_node ipv6) nodes)
      in if ipv6 then dht_response_default \<lparr> resp_nodes6 := Some compact \<rparr>
         else dht_response_default \<lparr> resp_nodes := Some compact \<rparr>)"

lemma compact_roundtrip:
  assumes "list_all node_wf nodes"
  shows "snd (for_each_response_node (compact_field ipv6 nodes) DualStack) =
           map strip_node (filter (\<lambda>n. is_valid_node_addr (nt_addr n)) (of_family ipv6 nodes))"
proof -
  let ?ns = "of_family ipv6 nodes"
  let ?read = "if ipv6 then compact_v6_node else compact_v4_node"
  have fam: "node_wf n \<and> is_ipv6 (nt_addr n) = ipv6" if "n \<in> set ?ns" for n
    using that assms by (auto simp: of_family_def list_all_iff)
  have len: "list_all (\<lambda>c. length c = node_size ipv6) (map (compact_node ipv6) ?ns)"
    using fam read_compact_v4 read_compact_v6 by (cases ipv6) (auto simp: list_all_iff node_size_def)
  have read: "map ?read (map (compact_node ipv6) ?ns) = map strip_node ?ns"
    using fam read_compact_v4 read_compact_v6 by (cases ipv6) auto
  have chunks: "chunks_exact (node_size ipv6) (concat (map (compact_node ipv6) nodes)) = map (compact_node ipv6) ?ns"
    unfolding concat_compact_family [of ipv6 nodes] by (rule chunks_exact_concat [OF _ len]) (simp add: node_size_def)
  have "snd (for_each_response_node (compact_field ipv6 nodes) DualStack) =
      filter (\<lambda>n. is_valid_node_addr (nt_addr n)) (map ?read (map (compact_node ipv6) ?ns))"
    using chunks length_compact [OF assms, of ipv6]
    by (cases ipv6) (simp_all add: for_each_response_node_def compact_field_def dht_response_default_def Let_def
        visit_chunks_eq node_size_def)
  also have "\<dots> = map strip_node (filter (\<lambda>n. is_valid_node_addr (nt_addr n)) ?ns)"
    unfolding read filter_map o_def by (simp add: strip_node_def)
  finally show ?thesis .
qed

definition krpc_response :: "bytes \<Rightarrow> bytes \<Rightarrow> bytes \<Rightarrow> (bytes \<times> bval) list \<Rightarrow> bval" where
  "krpc_response tid node_id token extra =
     BDict [(ascii ''r'', BDict ((ascii ''id'', BStr node_id) # extra @ [(ascii ''token'', BStr token)])),
            (ascii ''t'', BStr tid), (ascii ''y'', BStr (ascii ''r''))]"

definition nodes_field :: "bool \<Rightarrow> node_tuple list \<Rightarrow> (bytes \<times> bval) list" where
  "nodes_field ipv6 nodes =
     (if of_family ipv6 nodes = [] then []
      else [(if ipv6 then ascii ''nodes6'' else ascii ''nodes'', BStr (concat (map (compact_node ipv6) nodes)))])"

lemma compact_len_family:
  "(if ipv6 then length (filter (\<lambda>node. is_ipv6 (nt_addr node)) nodes) * 38
    else length (filter (\<lambda>node. is_ipv4 (nt_addr node)) nodes) * 26) = length (of_family ipv6 nodes) * node_size ipv6"
proof -
  have "is_ipv4 a = (\<not> is_ipv6 a)" for a by (cases a) simp_all
  then show ?thesis by (simp add: of_family_def node_size_def)
qed

lemma encode_response_benc:
  assumes "list_all node_wf nodes" and "length node_id = 20" and "length token = 8"
    and "length tid < 2 ^ 64" and "length nodes * 38 < 2 ^ 64"
  shows "encode_response tid node_id token nodes ipv6 =
           Some (benc (krpc_response tid node_id token (nodes_field ipv6 nodes)))"
proof -
  let ?c = "concat (map (compact_node ipv6) nodes)"
  let ?n = "length (of_family ipv6 nodes) * node_size ipv6"
  have "length (of_family ipv6 nodes) \<le> length nodes" by (simp add: of_family_def)
  then have "?n \<le> length nodes * 38" by (intro mult_le_mono) (simp_all add: node_size_def)
  then have n: "?n < 2 ^ 64" using assms(5) by linarith
  have pos: "0 < ?n \<longleftrightarrow> of_family ipv6 nodes \<noteq> []" by (simp add: node_size_def)
  note defs = encode_response_def Let_def compact_len_family pos krpc_response_def benc.simps benc_items.simps
    benc_str_literals benc_str_sized(1) [OF assms(2)] benc_str_sized(2) [OF assms(3)]
    push_usize_decimal [OF n] push_usize_decimal [OF assms(4)] nodes_field_def benc_str_def [of tid]
    benc_str_def [of ?c] length_compact [OF assms(1)]
  show ?thesis
  proof (cases "of_family ipv6 nodes = []")
    case True
    then show ?thesis unfolding defs by (simp add: benc_str_literals benc_str_sized(2) [OF assms(3)]) (simp add: ascii_def)
  next
    case False
    then show ?thesis
      unfolding defs
      by (cases ipv6)
        (simp_all add: benc_str_literals benc_str_sized(2) [OF assms(3)] benc_str_def [of "concat _"]
           length_compact [OF assms(1)], simp_all add: ascii_def)
  qed
qed

text \<open>
  C18. Outgoing responses: whatever the nodes, the encoder does not panic; the packet is the
  canonical bencoding of a KRPC response with the given id, token and transaction id, and with a
  \<open>nodes\<close> or \<open>nodes6\<close> field exactly when a node of that family is present; and a receiver that walks
  that field with \<open>for_each_response_node\<close> visits exactly the given nodes of the family with a valid
  address, in order.
\<close>

theorem krpc_response_roundtrip:
  assumes "list_all node_wf nodes" and "length node_id = 20" and "length token = 8"
    and "length tid < 2 ^ 64" and "length nodes * 38 < 2 ^ 64"
  shows "ok (encode_response tid node_id token nodes ipv6) (\<lambda>packet.
           bdecode packet = Some (krpc_response tid node_id token (nodes_field ipv6 nodes))) \<and>
         bcanonical (krpc_response tid node_id token (nodes_field ipv6 nodes)) \<and>
         snd (for_each_response_node (compact_field ipv6 nodes) DualStack) =
           map strip_node (filter (\<lambda>n. is_valid_node_addr (nt_addr n)) (of_family ipv6 nodes))"
  unfolding encode_response_benc [OF assms] compact_roundtrip [OF assms(1)] ok_Some bdecode_benc
  by (simp add: krpc_response_def nodes_field_def ascii_def)

definition sample_nodes :: "node_tuple list" where
  "sample_nodes = [\<lparr> nt_id = replicate 20 7, nt_addr = SockV4 [8, 8, 8, 8] 6881 \<rparr>,
                   \<lparr> nt_id = replicate 20 9, nt_addr = SockV4 [10, 0, 0, 1] 6881 \<rparr>]"

theorem krpc_response_roundtrip_witness:
  "ok (encode_response [1, 2] (replicate 20 3) (replicate 8 4) sample_nodes False) (\<lambda>packet.
     bdecode packet = Some (krpc_response [1, 2] (replicate 20 3) (replicate 8 4) (nodes_field False sample_nodes))) \<and>
   snd (for_each_response_node (compact_field False sample_nodes) DualStack) =
     map strip_node [\<lparr> nt_id = replicate 20 7, nt_addr = SockV4 [8, 8, 8, 8] 6881 \<rparr>]"
proof -
  have "list_all node_wf sample_nodes" by code_simp
  moreover have "filter (\<lambda>n. is_valid_node_addr (nt_addr n)) (of_family False sample_nodes) =
      [\<lparr> nt_id = replicate 20 7, nt_addr = SockV4 [8, 8, 8, 8] 6881 \<rparr>]" by code_simp
  ultimately show ?thesis
    using krpc_response_roundtrip [of sample_nodes "replicate 20 3" "replicate 8 4" "[1, 2]" False]
    by (simp add: sample_nodes_def)
qed

end
