(* ===== verification/Udp_Ingress.thy ===== *)
theory Udp_Ingress
  imports Net_Types "HOL-Library.Multiset"
begin

text \<open>
  \<open>src/src/udp_buffer.rs\<close> and \<open>src/src/udp_ingress.rs\<close>: the pool of receive buffers and the
  listener that hands each datagram to a worker. The lock-free queue of the pool, the bounded
  channels of the workers and the hash of an address belong to libraries and are parameters: a
  record of queue operations, a function \<open>try_send\<close> and a function \<open>hash\<close>.

  Results: the search for a worker terminates and succeeds exactly when some worker accepts; a
  worker receives exactly the bytes of the datagram; no buffer of a wrong size ever enters the
  pool; the listener stops only at shutdown or when no live worker is left.
\<close>

subsection \<open>Buffers\<close>

definition MAX_DHT_UDP_PACKET :: nat where
  "MAX_DHT_UDP_PACKET = 8192"

definition INITIAL_POOL_SIZE :: nat where
  "INITIAL_POOL_SIZE = 512"

definition MAX_POOL_SIZE :: nat where
  "MAX_POOL_SIZE = 4096"

record udp_packet =
  up_buf :: bytes
  up_len :: nat

text \<open>Slicing past the end of the buffer is a panic.\<close>

definition payload :: "udp_packet \<Rightarrow> bytes option" where
  "payload p = (if up_len p \<le> length (up_buf p) then Some (take (up_len p) (up_buf p)) else None)"

text \<open>A bounded queue of buffers: \<open>aq_push\<close> fails when it is full, \<open>aq_pop\<close> when it is empty.\<close>

record 'q array_queue_ops =
  aq_new :: "nat \<Rightarrow> 'q"
  aq_push :: "bytes \<Rightarrow> 'q \<Rightarrow> 'q option"
  aq_pop :: "'q \<Rightarrow> (bytes \<times> 'q) option"

record 'q udp_buffer_pool =
  ubp_free :: 'q
  ubp_buf_capacity :: nat

definition alloc_buffer :: "nat \<Rightarrow> bytes" where
  "alloc_buffer capacity = replicate capacity 0"

definition push_or_drop :: "'q array_queue_ops \<Rightarrow> bytes \<Rightarrow> 'q \<Rightarrow> 'q" where
  "push_or_drop ops buf q = (case aq_push ops buf q of Some q' \<Rightarrow> q' | None \<Rightarrow> q)"

definition ubp_new :: "'q array_queue_ops \<Rightarrow> 'q udp_buffer_pool" where
  "ubp_new ops =
     \<lparr> ubp_free = fold (\<lambda>_. push_or_drop ops (alloc_buffer MAX_DHT_UDP_PACKET)) [0..<INITIAL_POOL_SIZE]
                   (aq_new ops MAX_POOL_SIZE),
       ubp_buf_capacity = MAX_DHT_UDP_PACKET \<rparr>"

definition acquire_buf :: "'q array_queue_ops \<Rightarrow> 'q udp_buffer_pool \<Rightarrow> bytes \<times> 'q udp_buffer_pool" where
  "acquire_buf ops pool =
     (case aq_pop ops (ubp_free pool) of
        Some (buf, q) \<Rightarrow> (buf, pool \<lparr> ubp_free := q \<rparr>)
      | None \<Rightarrow> (alloc_buffer (ubp_buf_capacity pool), pool))"

definition release_buf :: "'q array_queue_ops \<Rightarrow> 'q udp_buffer_pool \<Rightarrow> bytes \<Rightarrow> 'q udp_buffer_pool" where
  "release_buf ops pool buf =
     (if length buf \<noteq> ubp_buf_capacity pool then pool
      else pool \<lparr> ubp_free := push_or_drop ops buf (ubp_free pool) \<rparr>)"

subsection \<open>Dispatching a datagram\<close>

record udp_stats =
  us_received :: nat
  us_rx_bytes :: nat
  us_invalid :: nat
  us_queue_full :: nat

type_synonym udp_message = "udp_packet \<times> socket_addr \<times> socket_addr"

text \<open>What \<open>try_send\<close> answers: the channel with the message in it, or the reason it was refused.\<close>

datatype 'w send_outcome = Sent 'w | Full | Closed

datatype process_udp_packet_error = PacketTooLarge | InvalidPacket | ChokedWorkers | NoLiveWorkers

text \<open>The \<open>for\<close> loop over the workers: it ends with a sent message, at a closed worker, or choked.\<close>

datatype 'w scan_outcome = ScanSent nat 'w | ScanClosed nat | ScanChoked

fun scan_workers ::
  "('w \<Rightarrow> udp_message \<Rightarrow> 'w send_outcome) \<Rightarrow> udp_message \<Rightarrow> 'w list \<Rightarrow> nat \<Rightarrow> nat list \<Rightarrow> 'w scan_outcome" where
  "scan_workers try_send msg workers preferred_index [] = ScanChoked"
| "scan_workers try_send msg workers preferred_index (offset # offsets) =
     (let worker_index = (preferred_index + offset) mod length workers in
      case try_send (workers ! worker_index) msg of
        Sent w \<Rightarrow> ScanSent worker_index w
      | Full \<Rightarrow> scan_workers try_send msg workers preferred_index offsets
      | Closed \<Rightarrow> ScanClosed worker_index)"

lemma scan_closed_bound:
  "scan_workers try_send msg workers p offsets = ScanClosed i \<Longrightarrow> workers \<noteq> [] \<Longrightarrow> i < length workers"
  by (induction offsets) (auto simp: Let_def split: send_outcome.splits)

function select_worker ::
  "('w \<Rightarrow> udp_message \<Rightarrow> 'w send_outcome) \<Rightarrow> udp_message \<Rightarrow> nat \<Rightarrow> 'w list \<Rightarrow>
   process_udp_packet_error option \<times> 'w list" where
  "select_worker try_send msg origin_hash workers =
     (if workers = [] then (Some NoLiveWorkers, workers)
      else case scan_workers try_send msg workers (origin_hash mod length workers) [0..<length workers] of
          ScanSent i w \<Rightarrow> (None, workers[i := w])
        | ScanChoked \<Rightarrow> (Some ChokedWorkers, workers)
        | ScanClosed i \<Rightarrow> select_worker try_send msg origin_hash (swap_remove i workers))"
  by pat_completeness auto
termination
  by (relation "measure (\<lambda>(_, _, _, workers). length workers)") auto

declare select_worker.simps [simp del]

record ('q, 'w) ingress =
  ig_pool :: "'q udp_buffer_pool"
  ig_stats :: udp_stats
  ig_workers :: "'w list"

text \<open>
  \<open>None\<close> is a panic (reading the first byte of an empty buffer); inside, \<open>None\<close> is \<open>Ok(())\<close>.
\<close>

definition process_udp_packet ::
  "'q array_queue_ops \<Rightarrow> ('w \<Rightarrow> udp_message \<Rightarrow> 'w send_outcome) \<Rightarrow> (socket_addr \<Rightarrow> nat) \<Rightarrow>
   bytes \<Rightarrow> nat \<Rightarrow> socket_addr \<Rightarrow> socket_addr \<Rightarrow> ('q, 'w) ingress \<Rightarrow>
   (process_udp_packet_error option \<times> ('q, 'w) ingress) option" where
  "process_udp_packet ops try_send hash buf sz origin_addr local_addr s =
     (let st = ig_stats s;
          st = st \<lparr> us_received := us_received st + 1, us_rx_bytes := us_rx_bytes st + sz \<rparr>;
          reject = (\<lambda>e. (Some e, s \<lparr> ig_stats := st \<lparr> us_invalid := us_invalid st + 1 \<rparr>,
                                     ig_pool := release_buf ops (ig_pool s) buf \<rparr>))
      in if MAX_DHT_UDP_PACKET < sz then Some (reject PacketTooLarge)
      else if sz = 0 then Some (reject InvalidPacket)
      else if buf = [] then None
      else if buf ! 0 \<noteq> 100 then Some (reject InvalidPacket)
      else case select_worker try_send (\<lparr> up_buf = buf, up_len = sz \<rparr>, origin_addr, local_addr)
                  (hash origin_addr) (ig_workers s) of
          (None, workers) \<Rightarrow> Some (None, s \<lparr> ig_stats := st, ig_workers := workers \<rparr>)
        | (Some e, workers) \<Rightarrow>
            Some (Some e, s \<lparr> ig_stats := (if e = ChokedWorkers then st \<lparr> us_queue_full := us_queue_full st + 1 \<rparr> else st),
                             ig_pool := release_buf ops (ig_pool s) buf,
                             ig_workers := workers \<rparr>))"

subsection \<open>The listener\<close>

text \<open>What one turn of the loop sees: shutdown, a datagram, or a receive error.\<close>

datatype ingress_event =
    Shutdown
  | Received bytes socket_addr
  | ReceiveError bool  \<comment> \<open>whether shutdown arrived during the pause after the error\<close>

text \<open>\<open>recv_from\<close> writes the datagram, cut to the size of the buffer, to the front of the buffer.\<close>

definition recv_into :: "bytes \<Rightarrow> bytes \<Rightarrow> bytes \<times> nat" where
  "recv_into buf datagram =
     (let d = take (length buf) datagram in (d @ drop (length d) buf, length d))"

datatype ('q, 'w) listener = Running "('q, 'w) ingress" | Stopped "('q, 'w) ingress"

fun listener_step ::
  "'q array_queue_ops \<Rightarrow> ('w \<Rightarrow> udp_message \<Rightarrow> 'w send_outcome) \<Rightarrow> (socket_addr \<Rightarrow> nat) \<Rightarrow> socket_addr \<Rightarrow>
   ('q, 'w) listener \<Rightarrow> ingress_event \<Rightarrow> ('q, 'w) listener option" where
  "listener_step ops try_send hash local_addr (Stopped s) ev = Some (Stopped s)"
| "listener_step ops try_send hash local_addr (Running s) ev =
     (let (buf, pool) = acquire_buf ops (ig_pool s); s = s \<lparr> ig_pool := pool \<rparr> in
      if length buf < ubp_buf_capacity pool then None
      else case ev of
          Shutdown \<Rightarrow> Some (Stopped (s \<lparr> ig_pool := release_buf ops pool buf \<rparr>))
        | ReceiveError cancelled \<Rightarrow>
            let s = s \<lparr> ig_pool := release_buf ops pool buf \<rparr>
            in Some (if cancelled then Stopped s else Running s)
        | Received datagram origin_addr \<Rightarrow> do {
            let (buf, sz) = recv_into buf datagram;
            (res, s) \<leftarrow> process_udp_packet ops try_send hash buf sz origin_addr local_addr s;
            Some (if res = Some NoLiveWorkers then Stopped s else Running s)
          })"

text \<open>\<open>spawn_udp_listener\<close> refuses to start without workers.\<close>

definition spawn_udp_listener ::
  "'q array_queue_ops \<Rightarrow> 'w list \<Rightarrow> 'q udp_buffer_pool \<Rightarrow> string + ('q, 'w) listener" where
  "spawn_udp_listener ops workers pool =
     (if workers = [] then Inl ''spawn_udp_listener: no worker provided''
      else Inr (Running \<lparr> ig_pool = pool, ig_stats = \<lparr> us_received = 0, us_rx_bytes = 0, us_invalid = 0, us_queue_full = 0 \<rparr>,
                          ig_workers = workers \<rparr>))"

subsection \<open>The search for a worker\<close>

definition accepts :: "('w \<Rightarrow> udp_message \<Rightarrow> 'w send_outcome) \<Rightarrow> udp_message \<Rightarrow> 'w \<Rightarrow> bool" where
  "accepts try_send msg w = (case try_send w msg of Sent _ \<Rightarrow> True | _ \<Rightarrow> False)"

lemma scan_workers_spec:
  assumes "workers \<noteq> []"
  shows "case scan_workers try_send msg workers p offsets of
      ScanSent i w \<Rightarrow> i < length workers \<and> try_send (workers ! i) msg = Sent w
    | ScanClosed i \<Rightarrow> i < length workers \<and> try_send (workers ! i) msg = Closed
    | ScanChoked \<Rightarrow> (\<forall>off \<in> set offsets. try_send (workers ! ((p + off) mod length workers)) msg = Full)"
  using assms by (induction offsets) (auto simp: Let_def split: send_outcome.splits scan_outcome.splits)

lemma all_offsets:
  assumes "workers \<noteq> []" and "p < length workers"
    and "\<forall>off < length workers. P (workers ! ((p + off) mod length workers))" and "w \<in> set workers"
  shows "P w"
proof -
  let ?n = "length workers"
  obtain i where i: "i < ?n" "w = workers ! i" using assms(4) by (metis in_set_conv_nth)
  define off where "off = (if p \<le> i then i - p else i + ?n - p)"
  have "off < ?n" using i assms(2) by (auto simp: off_def)
  moreover have "(p + off) mod ?n = i" using i assms(2) by (auto simp: off_def)
  ultimately show ?thesis using assms(3) i by metis
qed

lemma mset_swap_remove:
  assumes "i < length xs"
  shows "mset xs = add_mset (xs ! i) (mset (swap_remove i xs))"
proof -
  have ne: "xs[i := last xs] \<noteq> []" using assms by auto
  have last: "last (xs[i := last xs]) = last xs"
    using assms by (metis last_list_update list_update_nonempty)
  have "mset (xs[i := last xs]) = add_mset (last xs) (mset xs - {# xs ! i #})"
    using assms by (rule mset_update)
  moreover have "mset (xs[i := last xs]) = add_mset (last xs) (mset (swap_remove i xs))"
    using append_butlast_last_id [OF ne] last unfolding swap_remove_def
    by (metis add_mset_add_single mset.simps(1) mset.simps(2) mset_append)
  ultimately have "mset (swap_remove i xs) = mset xs - {# xs ! i #}" by simp
  then show ?thesis using assms by (simp add: insert_DiffM2)
qed

lemma select_worker_spec:
  assumes "select_worker try_send msg h workers = (res, workers')"
  shows "\<exists>closed. (\<forall>c \<in># closed. try_send c msg = Closed) \<and>
    (case res of
       None \<Rightarrow> \<exists>w w' rest. try_send w msg = Sent w' \<and> mset workers = closed + add_mset w rest \<and> mset workers' = add_mset w' rest
     | Some e \<Rightarrow> mset workers = closed + mset workers' \<and> (\<forall>w \<in> set workers'. try_send w msg = Full) \<and>
         e = (if workers' = [] then NoLiveWorkers else ChokedWorkers))"
  using assms
proof (induction try_send msg h workers arbitrary: res workers' rule: select_worker.induct)
  case (1 try_send msg h workers)
  show ?case
  proof (cases "workers = []")
    case True
    then show ?thesis using 1(2) by (auto simp: select_worker.simps)
  next
    case False
    let ?n = "length workers"
    let ?scan = "scan_workers try_send msg workers (h mod ?n) [0..<?n]"
    note scan = scan_workers_spec [OF False, where p = "h mod ?n" and offsets = "[0..<?n]" and try_send = try_send and msg = msg]
    have sel: "select_worker try_send msg h workers = (case ?scan of ScanSent i w \<Rightarrow> (None, workers[i := w])
        | ScanChoked \<Rightarrow> (Some ChokedWorkers, workers)
        | ScanClosed i \<Rightarrow> select_worker try_send msg h (swap_remove i workers))"
      using False by (subst select_worker.simps) simp
    show ?thesis
    proof (cases ?scan)
      case (ScanSent i w)
      then have i: "i < ?n" "try_send (workers ! i) msg = Sent w" using scan by simp_all
      define rest where "rest = mset workers - {# workers ! i #}"
      have "mset workers = add_mset (workers ! i) rest" "mset (workers[i := w]) = add_mset w rest"
        using i by (simp_all add: rest_def mset_update)
      moreover have "res = None" "workers' = workers[i := w]" using 1(2) sel ScanSent by simp_all
      ultimately show ?thesis using i(2) by (intro exI [of _ "{#}"]) auto
    next
      case ScanChoked
      then have full: "\<forall>off < ?n. try_send (workers ! ((h mod ?n + off) mod ?n)) msg = Full" using scan by simp
      have "try_send w msg = Full" if "w \<in> set workers" for w
        using all_offsets [OF False _ full that] False by simp
      then show ?thesis
        using 1(2) sel ScanChoked False by (intro exI [of _ "{#}"]) auto
    next
      case (ScanClosed i)
      then have i: "i < ?n" "try_send (workers ! i) msg = Closed" using scan by simp_all
      have "select_worker try_send msg h (swap_remove i workers) = (res, workers')"
        using 1(2) sel ScanClosed by simp
      from 1(1) [OF False ScanClosed this] obtain closed where
        c: "\<forall>c \<in># closed. try_send c msg = Closed" and
        r: "case res of
       None \<Rightarrow> \<exists>w w' rest. try_send w msg = Sent w' \<and> mset (swap_remove i workers) = closed + add_mset w rest \<and> mset workers' = add_mset w' rest
     | Some e \<Rightarrow> mset (swap_remove i workers) = closed + mset workers' \<and> (\<forall>w \<in> set workers'. try_send w msg = Full) \<and>
         e = (if workers' = [] then NoLiveWorkers else ChokedWorkers)" by blast
      show ?thesis
        using c r i(2) mset_swap_remove [OF i(1)]
        by (intro exI [of _ "add_mset (workers ! i) closed"]) (auto split: option.splits)
    qed
  qed
qed

definition well_formed_datagram :: "bytes \<Rightarrow> nat \<Rightarrow> bool" where
  "well_formed_datagram buf sz = (0 < sz \<and> sz \<le> MAX_DHT_UDP_PACKET \<and> buf ! 0 = 100)"

text \<open>
  C19. What happens to a datagram, for any workers and any behaviour of their channels: the search
  ends; a datagram that is empty, oversized or not a bencoded dictionary is counted as invalid and
  its buffer released; otherwise it is sent to exactly one worker if and only if some worker accepts
  it, it is dropped as choked if none accepts and some worker is merely full, and the listener is
  told to stop if all workers are closed. Closed workers met on the way are removed, no other worker
  is lost, and the buffer is released exactly when no worker took it.
\<close>

theorem udp_dispatch:
  assumes "buf \<noteq> []"
  shows "ok (process_udp_packet ops try_send hash buf sz origin_addr local_addr s) (\<lambda>(res, s').
    let msg = (\<lparr> up_buf = buf, up_len = sz \<rparr>, origin_addr, local_addr); good = well_formed_datagram buf sz in
    us_received (ig_stats s') = us_received (ig_stats s) + 1 \<and>
    us_rx_bytes (ig_stats s') = us_rx_bytes (ig_stats s) + sz \<and>
    us_invalid (ig_stats s') = us_invalid (ig_stats s) + (if good then 0 else 1) \<and>
    us_queue_full (ig_stats s') = us_queue_full (ig_stats s) + (if res = Some ChokedWorkers then 1 else 0) \<and>
    ig_pool s' = (if res = None then ig_pool s else release_buf ops (ig_pool s) buf) \<and>
    (res = None \<longleftrightarrow> good \<and> (\<exists>w \<in> set (ig_workers s). accepts try_send msg w)) \<and>
    (res = Some ChokedWorkers \<longleftrightarrow> good \<and> (\<forall>w \<in> set (ig_workers s). \<not> accepts try_send msg w) \<and>
                                (\<exists>w \<in> set (ig_workers s). try_send w msg = Full)) \<and>
    (res = Some NoLiveWorkers \<longleftrightarrow> good \<and> (\<forall>w \<in> set (ig_workers s). try_send w msg = Closed)) \<and>
    (\<exists>closed. (\<forall>c \<in># closed. try_send c msg = Closed) \<and>
       (if res = None then \<exists>w w' rest. try_send w msg = Sent w' \<and>
          mset (ig_workers s) = closed + add_mset w rest \<and> mset (ig_workers s') = add_mset w' rest
        else mset (ig_workers s) = closed + mset (ig_workers s'))))"
proof (cases "well_formed_datagram buf sz")
  case False
  then show ?thesis
    using assms by (auto simp: process_udp_packet_def Let_def well_formed_datagram_def intro: exI [of _ "{#}"])
next
  case True
  let ?msg = "(\<lparr> up_buf = buf, up_len = sz \<rparr>, origin_addr, local_addr)"
  obtain res ws where sel: "select_worker try_send ?msg (hash origin_addr) (ig_workers s) = (res, ws)" by fastforce
  obtain closed where closed: "\<forall>c \<in># closed. try_send c ?msg = Closed" and
    r: "case res of
       None \<Rightarrow> \<exists>w w' rest. try_send w ?msg = Sent w' \<and> mset (ig_workers s) = closed + add_mset w rest \<and> mset ws = add_mset w' rest
     | Some e \<Rightarrow> mset (ig_workers s) = closed + mset ws \<and> (\<forall>w \<in> set ws. try_send w ?msg = Full) \<and>
         e = (if ws = [] then NoLiveWorkers else ChokedWorkers)"
    using select_worker_spec [OF sel] by blast
  have members: "set (ig_workers s) = set_mset (mset (ig_workers s))" by simp
  show ?thesis
  proof (cases res)
    case None
    then obtain w w' rest where w: "try_send w ?msg = Sent w'" "mset (ig_workers s) = closed + add_mset w rest"
      "mset ws = add_mset w' rest" using r by auto
    have "w \<in> set (ig_workers s)" unfolding members w(2) by simp
    then have "\<exists>w \<in> set (ig_workers s). accepts try_send ?msg w" "\<exists>w \<in> set (ig_workers s). try_send w ?msg \<noteq> Closed"
      using w(1) by (auto simp: accepts_def intro!: bexI [of _ w])
    then show ?thesis
      using True sel None assms w closed
      by (auto simp: process_udp_packet_def Let_def well_formed_datagram_def)
  next
    case (Some e)
    have all: "\<forall>w \<in> set (ig_workers s). \<not> accepts try_send ?msg w"
      "(\<exists>w \<in> set (ig_workers s). try_send w ?msg = Full) \<longleftrightarrow> ws \<noteq> []"
      "(\<forall>w \<in> set (ig_workers s). try_send w ?msg = Closed) \<longleftrightarrow> ws = []"
      using r closed Some unfolding members by (cases ws; auto simp: accepts_def)+
    then show ?thesis
      using True sel Some assms closed r
      by (auto simp: process_udp_packet_def Let_def well_formed_datagram_def)
  qed
qed

text \<open>A concrete channel: \<open>None\<close> is closed, \<open>Some (room, sent)\<close> has room for that many messages.\<close>

type_synonym sample_channel = "(nat \<times> udp_message list) option"

fun sample_try_send :: "sample_channel \<Rightarrow> udp_message \<Rightarrow> sample_channel send_outcome" where
  "sample_try_send None msg = Closed"
| "sample_try_send (Some (0, sent)) msg = Full"
| "sample_try_send (Some (Suc room, sent)) msg = Sent (Some (room, sent @ [msg]))"

definition sample_queue :: "(bytes list \<times> nat) array_queue_ops" where
  "sample_queue = \<lparr>
     aq_new = (\<lambda>cap. ([], cap)),
     aq_push = (\<lambda>buf (q, cap). if length q < cap then Some (q @ [buf], cap) else None),
     aq_pop = (\<lambda>(q, cap). case q of [] \<Rightarrow> None | b # q \<Rightarrow> Some (b, (q, cap))) \<rparr>"

definition sample_ingress :: "(bytes list \<times> nat, sample_channel) ingress" where
  "sample_ingress =
     \<lparr> ig_pool = \<lparr> ubp_free = ([], 4096), ubp_buf_capacity = 8192 \<rparr>,
       ig_stats = \<lparr> us_received = 0, us_rx_bytes = 0, us_invalid = 0, us_queue_full = 0 \<rparr>,
       ig_workers = [Some (0, []), None, Some (1, [])] \<rparr>"

theorem udp_dispatch_witness:
  "ok (process_udp_packet sample_queue sample_try_send (\<lambda>_. 7) [100, 101] 2 (SockV4 [8, 8, 8, 8] 1) (SockV4 [1, 1, 1, 1] 2) sample_ingress)
     (\<lambda>(res, s'). res = None \<and> us_received (ig_stats s') = 1 \<and> us_invalid (ig_stats s') = 0 \<and>
        ig_workers s' = [Some (0, []), Some (0, [(\<lparr> up_buf = [100, 101], up_len = 2 \<rparr>, SockV4 [8, 8, 8, 8] 1, SockV4 [1, 1, 1, 1] 2)])])"
proof -
  let ?run = "process_udp_packet sample_queue sample_try_send (\<lambda>_. 7) [100, 101] 2 (SockV4 [8, 8, 8, 8] 1) (SockV4 [1, 1, 1, 1] 2) sample_ingress"
  have "ok ?run (\<lambda>(res, s'). res = None \<and>
      ig_workers s' = [Some (0, []), Some (0, [(\<lparr> up_buf = [100, 101], up_len = 2 \<rparr>, SockV4 [8, 8, 8, 8] 1, SockV4 [1, 1, 1, 1] 2)])])"
    by code_simp
  moreover have "well_formed_datagram [100, 101] 2" by code_simp
  ultimately show ?thesis
    using udp_dispatch [of "[100, 101]" sample_queue sample_try_send "\<lambda>_. 7" 2 "SockV4 [8, 8, 8, 8] 1" "SockV4 [1, 1, 1, 1] 2" sample_ingress]
    by (auto simp: ok_iff Let_def sample_ingress_def)
qed

subsection \<open>Runs of the listener\<close>

text \<open>
  The contract of the buffer queue: \<open>items\<close> is its content and \<open>capacity\<close> its bound; pushing appends
  unless the queue is full, popping takes the front.
\<close>

definition array_queue_laws :: "'q array_queue_ops \<Rightarrow> ('q \<Rightarrow> bytes list) \<Rightarrow> ('q \<Rightarrow> nat) \<Rightarrow> bool" where
  "array_queue_laws ops items capacity =
     ((\<forall>n. items (aq_new ops n) = [] \<and> capacity (aq_new ops n) = n) \<and>
      (\<forall>b q. case aq_push ops b q of
          None \<Rightarrow> capacity q \<le> length (items q)
        | Some q' \<Rightarrow> length (items q) < capacity q \<and> items q' = items q @ [b] \<and> capacity q' = capacity q) \<and>
      (\<forall>q. case aq_pop ops q of
          None \<Rightarrow> items q = []
        | Some (b, q') \<Rightarrow> items q = b # items q' \<and> capacity q' = capacity q))"

definition pool_wf :: "('q \<Rightarrow> bytes list) \<Rightarrow> ('q \<Rightarrow> nat) \<Rightarrow> 'q udp_buffer_pool \<Rightarrow> bool" where
  "pool_wf items capacity pool =
     (ubp_buf_capacity pool = MAX_DHT_UDP_PACKET \<and> capacity (ubp_free pool) = MAX_POOL_SIZE \<and>
      length (items (ubp_free pool)) \<le> MAX_POOL_SIZE \<and>
      list_all (\<lambda>b. length b = MAX_DHT_UDP_PACKET) (items (ubp_free pool)))"

lemma push_or_drop_laws:
  assumes "array_queue_laws ops items capacity" and "length (items q) \<le> capacity q"
  shows "capacity (push_or_drop ops b q) = capacity q \<and> length (items (push_or_drop ops b q)) \<le> capacity q \<and>
         (list_all P (items q) \<longrightarrow> P b \<longrightarrow> list_all P (items (push_or_drop ops b q)))"
proof -
  have "case aq_push ops b q of
          None \<Rightarrow> capacity q \<le> length (items q)
        | Some q' \<Rightarrow> length (items q) < capacity q \<and> items q' = items q @ [b] \<and> capacity q' = capacity q"
    using assms(1) unfolding array_queue_laws_def by blast
  then show ?thesis using assms(2) by (auto simp: push_or_drop_def split: option.splits)
qed

lemma release_wf:
  assumes "array_queue_laws ops items capacity" and "pool_wf items capacity pool"
  shows "pool_wf items capacity (release_buf ops pool b)"
  using assms push_or_drop_laws [OF assms(1), of "ubp_free pool" b "\<lambda>b. length b = MAX_DHT_UDP_PACKET"]
  by (auto simp: pool_wf_def release_buf_def)

lemma acquire_wf:
  assumes "array_queue_laws ops items capacity" and "pool_wf items capacity pool"
  shows "pool_wf items capacity (snd (acquire_buf ops pool)) \<and> length (fst (acquire_buf ops pool)) = MAX_DHT_UDP_PACKET"
proof -
  have "case aq_pop ops (ubp_free pool) of
          None \<Rightarrow> items (ubp_free pool) = []
        | Some (b, q') \<Rightarrow> items (ubp_free pool) = b # items q' \<and> capacity q' = capacity (ubp_free pool)"
    using assms(1) unfolding array_queue_laws_def by blast
  then show ?thesis
    using assms(2) by (auto simp: pool_wf_def acquire_buf_def alloc_buffer_def split: option.splits prod.splits)
qed

lemma ubp_new_wf:
  assumes "array_queue_laws ops items capacity"
  shows "pool_wf items capacity (ubp_new ops)"
proof -
  let ?P = "\<lambda>b. length b = MAX_DHT_UDP_PACKET"
  let ?push = "\<lambda>_ :: nat. push_or_drop ops (alloc_buffer MAX_DHT_UDP_PACKET)"
  have fill: "capacity (fold ?push xs q) = capacity q \<and> length (items (fold ?push xs q)) \<le> capacity q \<and> list_all ?P (items (fold ?push xs q))"
    if "length (items q) \<le> capacity q" and "list_all ?P (items q)" for xs q
    using that
  proof (induction xs arbitrary: q)
    case (Cons x xs)
    let ?q = "push_or_drop ops (alloc_buffer MAX_DHT_UDP_PACKET) q"
    have "capacity ?q = capacity q" "length (items ?q) \<le> capacity q" "list_all ?P (items ?q)"
      using push_or_drop_laws [OF assms Cons.prems(1), of "alloc_buffer MAX_DHT_UDP_PACKET" ?P] Cons.prems
      by (simp_all add: alloc_buffer_def)
    then show ?case using Cons.IH [of ?q] by simp
  qed simp
  have "items (aq_new ops MAX_POOL_SIZE) = []" "capacity (aq_new ops MAX_POOL_SIZE) = MAX_POOL_SIZE"
    using assms by (simp_all add: array_queue_laws_def)
  then show ?thesis
    using fill [of "aq_new ops MAX_POOL_SIZE" "[0..<INITIAL_POOL_SIZE]"] by (simp add: pool_wf_def ubp_new_def)
qed

fun listener_run ::
  "'q array_queue_ops \<Rightarrow> ('w \<Rightarrow> udp_message \<Rightarrow> 'w send_outcome) \<Rightarrow> (socket_addr \<Rightarrow> nat) \<Rightarrow> socket_addr \<Rightarrow>
   ('q, 'w) listener \<Rightarrow> ingress_event list \<Rightarrow> ('q, 'w) listener option" where
  "listener_run ops try_send hash local_addr l [] = Some l"
| "listener_run ops try_send hash local_addr l (ev # evs) = do {
     l \<leftarrow> listener_step ops try_send hash local_addr l ev;
     listener_run ops try_send hash local_addr l evs
   }"

text \<open>
  A message that a received datagram may give rise to: a full-size buffer whose payload is the
  datagram, cut at the maximum size, and the address it came from.
\<close>

definition carries :: "socket_addr \<Rightarrow> ingress_event list \<Rightarrow> udp_message \<Rightarrow> bool" where
  "carries local_addr evs = (\<lambda>(packet, origin, loc). loc = local_addr \<and> length (up_buf packet) = MAX_DHT_UDP_PACKET \<and>
     (\<exists>d. Received d origin \<in> set evs \<and> payload packet = Some (take MAX_DHT_UDP_PACKET d) \<and> d \<noteq> [] \<and> d ! 0 = 100))"

definition listener_inv ::
  "('q \<Rightarrow> bytes list) \<Rightarrow> ('q \<Rightarrow> nat) \<Rightarrow> ('w \<Rightarrow> udp_message list) \<Rightarrow> (udp_message \<Rightarrow> bool) \<Rightarrow> ('q, 'w) ingress \<Rightarrow> bool" where
  "listener_inv items capacity inbox Q s =
     (pool_wf items capacity (ig_pool s) \<and> (\<forall>w \<in> set (ig_workers s). list_all Q (inbox w)))"

fun listener_state :: "('q, 'w) listener \<Rightarrow> ('q, 'w) ingress" where
  "listener_state (Running s) = s"
| "listener_state (Stopped s) = s"

lemma recv_into_props:
  assumes "length buf = MAX_DHT_UDP_PACKET" and "recv_into buf d = (buf', sz)"
  shows "length buf' = MAX_DHT_UDP_PACKET" and "payload \<lparr> up_buf = buf', up_len = sz \<rparr> = Some (take MAX_DHT_UDP_PACKET d)"
    and "0 < sz \<Longrightarrow> d \<noteq> [] \<and> buf' ! 0 = d ! 0" and "buf' \<noteq> []"
proof -
  have b: "buf' = take MAX_DHT_UDP_PACKET d @ drop (length (take MAX_DHT_UDP_PACKET d)) buf"
    and sz: "sz = length (take MAX_DHT_UDP_PACKET d)"
    using assms by (auto simp: recv_into_def Let_def)
  show len: "length buf' = MAX_DHT_UDP_PACKET" unfolding b using assms(1) by simp
  show "payload \<lparr> up_buf = buf', up_len = sz \<rparr> = Some (take MAX_DHT_UDP_PACKET d)"
    using len by (simp add: payload_def sz) (simp add: b min_def)
  show "0 < sz \<Longrightarrow> d \<noteq> [] \<and> buf' ! 0 = d ! 0"
    unfolding sz b by (cases d) (auto simp: nth_append MAX_DHT_UDP_PACKET_def)
  show "buf' \<noteq> []" using len by (auto simp: MAX_DHT_UDP_PACKET_def)
qed

lemma process_moves:
  assumes "buf \<noteq> []"
  shows "ok (process_udp_packet ops try_send hash buf sz origin_addr local_addr s) (\<lambda>(res, s').
    ig_pool s' = (if res = None then ig_pool s else release_buf ops (ig_pool s) buf) \<and>
    (res = None \<longrightarrow> well_formed_datagram buf sz) \<and>
    (\<exists>closed. if res = None then
       \<exists>w w' rest. try_send w (\<lparr> up_buf = buf, up_len = sz \<rparr>, origin_addr, local_addr) = Sent w' \<and>
          mset (ig_workers s) = closed + add_mset w rest \<and> mset (ig_workers s') = add_mset w' rest
     else mset (ig_workers s) = closed + mset (ig_workers s')))"
proof (cases "well_formed_datagram buf sz")
  case False
  then show ?thesis
    using assms by (auto simp: process_udp_packet_def Let_def well_formed_datagram_def)
next
  case True
  let ?msg = "(\<lparr> up_buf = buf, up_len = sz \<rparr>, origin_addr, local_addr)"
  obtain res ws where sel: "select_worker try_send ?msg (hash origin_addr) (ig_workers s) = (res, ws)" by fastforce
  from select_worker_spec [OF sel] show ?thesis
    using True sel assms
    by (cases res) (auto simp: process_udp_packet_def Let_def well_formed_datagram_def)
qed

lemma process_inv:
  assumes "array_queue_laws ops items capacity"
    and "\<forall>w msg w'. try_send w msg = Sent w' \<longrightarrow> inbox w' = inbox w @ [msg]"
    and inv: "listener_inv items capacity inbox Q s" and "buf \<noteq> []"
    and Q: "well_formed_datagram buf sz \<Longrightarrow> Q (\<lparr> up_buf = buf, up_len = sz \<rparr>, origin_addr, local_addr)"
  shows "ok (process_udp_packet ops try_send hash buf sz origin_addr local_addr s) (\<lambda>(res, s').
    listener_inv items capacity inbox Q s')"
proof -
  let ?msg = "(\<lparr> up_buf = buf, up_len = sz \<rparr>, origin_addr, local_addr)"
  obtain res s' where run: "process_udp_packet ops try_send hash buf sz origin_addr local_addr s = Some (res, s')"
    and pool: "ig_pool s' = (if res = None then ig_pool s else release_buf ops (ig_pool s) buf)"
    and good: "res = None \<Longrightarrow> well_formed_datagram buf sz"
    and ws: "\<exists>closed. if res = None then \<exists>w w' rest. try_send w ?msg = Sent w' \<and>
          mset (ig_workers s) = closed + add_mset w rest \<and> mset (ig_workers s') = add_mset w' rest
        else mset (ig_workers s) = closed + mset (ig_workers s')"
    using process_moves [OF assms(4), of ops try_send hash sz origin_addr local_addr s]
    by (auto simp: ok_iff)
  have members: "set (ig_workers t) = set_mset (mset (ig_workers t))" for t by simp
  have "\<forall>w \<in> set (ig_workers s'). list_all Q (inbox w)"
  proof (cases "res = None")
    case True
    then obtain closed w w' rest where w: "try_send w ?msg = Sent w'" "mset (ig_workers s) = closed + add_mset w rest"
      "mset (ig_workers s') = add_mset w' rest" using ws by auto
    have "inbox w' = inbox w @ [?msg]" using assms(2) w(1) by blast
    then show ?thesis
      using inv Q good True unfolding listener_inv_def members [of s'] members [of s] w by auto
  next
    case False
    then obtain closed where "mset (ig_workers s) = closed + mset (ig_workers s')" using ws by auto
    then have "set (ig_workers s') \<subseteq> set (ig_workers s)" unfolding members by simp
    then show ?thesis using inv by (auto simp: listener_inv_def)
  qed
  moreover have "pool_wf items capacity (ig_pool s')"
    using inv release_wf [OF assms(1)] by (simp add: pool listener_inv_def)
  ultimately show ?thesis by (simp add: run listener_inv_def)
qed

lemma listener_step_inv:
  assumes laws: "array_queue_laws ops items capacity"
    and sent: "\<forall>w msg w'. try_send w msg = Sent w' \<longrightarrow> inbox w' = inbox w @ [msg]"
    and inv: "listener_inv items capacity inbox (carries local_addr evs) (listener_state l)"
    and ev: "ev \<in> set evs"
  shows "ok (listener_step ops try_send hash local_addr l ev)
    (\<lambda>l'. listener_inv items capacity inbox (carries local_addr evs) (listener_state l'))"
proof (cases l)
  case (Running s)
  obtain buf pool where acq: "acquire_buf ops (ig_pool s) = (buf, pool)" by fastforce
  let ?s = "s \<lparr> ig_pool := pool \<rparr>"
  have pool: "pool_wf items capacity pool" and len: "length buf = MAX_DHT_UDP_PACKET"
    using acquire_wf [OF laws, of "ig_pool s"] inv acq Running by (auto simp: listener_inv_def)
  have inv': "listener_inv items capacity inbox (carries local_addr evs) ?s"
    using inv pool Running by (simp add: listener_inv_def)
  have cap: "\<not> length buf < ubp_buf_capacity pool" using pool len by (simp add: pool_wf_def)
  show ?thesis
  proof (cases ev)
    case (Received d origin)
    obtain buf' sz where r: "recv_into buf d = (buf', sz)" by fastforce
    note recv = recv_into_props [OF len r]
    have "carries local_addr evs (\<lparr> up_buf = buf', up_len = sz \<rparr>, origin, local_addr)" if "well_formed_datagram buf' sz"
      using that recv ev Received unfolding carries_def well_formed_datagram_def by auto
    from process_inv [OF laws sent inv' recv(4) this, where hash = hash] show ?thesis
      using Running Received acq cap r
      by (auto simp: ok_iff)
  qed (use Running acq cap inv' release_wf [OF laws pool] in \<open>auto simp: listener_inv_def Let_def\<close>)
qed (use inv in simp)

text \<open>
  C20. The listener as a whole, for any sequence of datagrams, errors and shutdowns and for any
  workers that keep what they are sent: it never panics; the buffer pool never holds more than 4096
  buffers and only full-size ones; and every message a worker ever receives carries, in a full-size
  buffer, exactly the bytes of a datagram that was received from the address it names, cut at 8192
  bytes, and starting with the byte of a bencoded dictionary.
\<close>

theorem udp_listener_safe:
  assumes laws: "array_queue_laws ops items capacity"
    and sent: "\<forall>w msg w'. try_send w msg = Sent w' \<longrightarrow> inbox w' = inbox w @ [msg]"
    and start: "spawn_udp_listener ops workers (ubp_new ops) = Inr l"
    and idle: "\<forall>w \<in> set workers. inbox w = []"
  shows "ok (listener_run ops try_send hash local_addr l evs) (\<lambda>l'.
    pool_wf items capacity (ig_pool (listener_state l')) \<and>
    (\<forall>w \<in> set (ig_workers (listener_state l')). list_all (carries local_addr evs) (inbox w)))"
proof -
  have run: "ok (listener_run ops try_send hash local_addr l es) (\<lambda>l'.
      listener_inv items capacity inbox (carries local_addr evs) (listener_state l'))"
    if "listener_inv items capacity inbox (carries local_addr evs) (listener_state l)" and "set es \<subseteq> set evs" for es l
    using that
  proof (induction es arbitrary: l)
    case (Cons e es)
    have "e \<in> set evs" using Cons.prems(2) by simp
    from listener_step_inv [OF laws sent Cons.prems(1) this] obtain l' where
      "listener_step ops try_send hash local_addr l e = Some l'"
      "listener_inv items capacity inbox (carries local_addr evs) (listener_state l')"
      by (auto simp: ok_iff)
    then show ?case using Cons.IH [of l'] Cons.prems(2) by simp
  qed simp
  have "listener_inv items capacity inbox (carries local_addr evs) (listener_state l)"
    using start idle ubp_new_wf [OF laws] by (auto simp: spawn_udp_listener_def listener_inv_def split: if_splits)
  then show ?thesis using run [of l evs] by (simp add: listener_inv_def)
qed

definition sample_inbox :: "sample_channel \<Rightarrow> udp_message list" where
  "sample_inbox w = (case w of None \<Rightarrow> [] | Some (room, sent) \<Rightarrow> sent)"

theorem udp_listener_safe_witness:
  "\<exists>l. spawn_udp_listener sample_queue [Some (2, [])] (ubp_new sample_queue) = Inr l \<and>
   ok (listener_run sample_queue sample_try_send (\<lambda>_. 0) (SockV4 [1, 1, 1, 1] 2) l [Received [100, 101] (SockV4 [8, 8, 8, 8] 1), Shutdown])
     (\<lambda>l'. pool_wf fst snd (ig_pool (listener_state l')))"
proof -
  obtain l where l: "spawn_udp_listener sample_queue [Some (2, []) :: sample_channel] (ubp_new sample_queue) = Inr l"
    by (simp add: spawn_udp_listener_def)
  have laws: "array_queue_laws sample_queue fst snd"
    by (auto simp: array_queue_laws_def sample_queue_def split: list.splits)
  have sent: "\<forall>w msg w'. sample_try_send w msg = Sent w' \<longrightarrow> sample_inbox w' = sample_inbox w @ [msg]"
  proof (intro allI impI)
    fix w msg w'
    assume "sample_try_send w msg = Sent w'"
    then show "sample_inbox w' = sample_inbox w @ [msg]"
      by (cases "(w, msg)" rule: sample_try_send.cases) (auto simp: sample_inbox_def)
  qed
  show ?thesis
    using l udp_listener_safe [OF laws sent l, of "\<lambda>_. 0" "SockV4 [1, 1, 1, 1] 2" "[Received [100, 101] (SockV4 [8, 8, 8, 8] 1), Shutdown]"]
    by (auto simp: sample_inbox_def ok_iff)
qed

end
