(* ===== verification/Hash_Events.thy ===== *)
theory Hash_Events
  imports Net_Types
begin

text \<open>
  The messages between discovery and the metadata scheduler: \<open>HashDiscovered\<close> and \<open>HashSource\<close> of
  \<open>src/src/server.rs\<close>.
\<close>

datatype hash_source = Announce | GetPeers | Sample

record hash_discovered =
  hd_info_hash :: string
  hd_peer_addr :: "socket_addr option"
  hd_source_node :: "node_tuple option"
  hd_source :: hash_source
  hd_discovered_at :: instant

end
