(* ===== verification/Hash_Queue.thy ===== *)
theory Hash_Queue
  imports Hash_Events
begin

text \<open>
  \<open>PendingHashQueue\<close> of \<open>src/src/scheduler.rs\<close>: the bounded queue of info hashes that wait for a
  metadata job. Every hash has one entry and is indexed in up to three ordered maps: by expiry, by
  expiry among retries, and by one of the three scheduling maps (waiting, ready and fresh, ready and
  retry), each under a key that ends in the sequence number of its insertion.

  Results: the five maps are exactly the images of the entries, so no operation panics on a
  dangling index and every loop ends; the queue and its share of retries stay bounded; and
  \<open>pop_newest_ready\<close> serves the newest fresh hash or the retry that has been due longest, at most three
  fresh ones in a row while a retry is due.

  The sequence number is a 64-bit counter that wraps; the theorems are about fewer than \<open>2 ^ 64\<close>
  operations. The order of peers discovered at the same instant, which an unstable sort leaves open,
  is their order of arrival in the model.
\<close>

subsection \<open>Data\<close>

definition MAX_METADATA_CANDIDATES_PER_HASH :: nat where
  "MAX_METADATA_CANDIDATES_PER_HASH = 64"

definition HASH_QUEUE_TTL :: duration where
  "HASH_QUEUE_TTL = secs 60"

definition PEER_COALESCE_WINDOW :: duration where
  "PEER_COALESCE_WINDOW = millis 25"

record peer_candidate =
  pc_addr :: socket_addr
  pc_discovered_at :: instant

type_synonym order_key = "instant \<times> nat"

record queued_hash =
  qh_info_hash :: string
  qh_peers :: "peer_candidate list"
  qh_queued_at :: instant
  qh_ready_at :: instant
  qh_latest_at :: instant
  qh_order_key :: order_key
  qh_source_nodes :: "node_tuple list"
  qh_source :: hash_source
  qh_expires_at :: instant
  qh_is_retry :: bool
  qh_ready :: bool

datatype queue_push_kind = Inserted | Updated | EvictedOldest | EvictedRetry | Stale

record pending_hash_queue =
  pq_capacity :: nat
  pq_ttl :: duration
  pq_entries :: "(string, queued_hash) hmap"
  pq_expiry :: "(order_key, string) bmap"
  pq_waiting :: "(order_key, string) bmap"
  pq_ready_fresh :: "(order_key, string) bmap"
  pq_ready_retry :: "(order_key, string) bmap"
  pq_retry_expiry :: "(order_key, string) bmap"
  pq_sequence :: nat
  pq_fresh_dispatches :: nat

text \<open>The due time and the lifetime that the retry history hands to \<open>defer\<close>.\<close>

record retry_record =
  rr_failures :: nat
  rr_next_due :: instant
  rr_expires_at :: instant
  rr_extra_attempts :: nat

subsection \<open>Operations\<close>

definition merge_peer :: "peer_candidate list \<Rightarrow> socket_addr \<Rightarrow> instant \<Rightarrow> peer_candidate list" where
  "merge_peer peers addr at =
     (let discovered_at = (case find (\<lambda>peer. pc_addr peer = addr) peers of
            None \<Rightarrow> at | Some peer \<Rightarrow> max (pc_discovered_at peer) at);
          peers = filter (\<lambda>peer. pc_addr peer \<noteq> addr) peers;
          peers = peers @ [\<lparr> pc_addr = addr, pc_discovered_at = discovered_at \<rparr>];
          peers = sort_key (\<lambda>peer. - int (pc_discovered_at peer)) peers
      in take MAX_METADATA_CANDIDATES_PER_HASH peers)"

definition merge_candidate :: "queued_hash \<Rightarrow> hash_discovered \<Rightarrow> bool \<times> queued_hash" where
  "merge_candidate entry event =
     (let (new_peer, entry) = (case hd_peer_addr event of
            None \<Rightarrow> (False, entry)
          | Some addr \<Rightarrow> (\<not> list_ex (\<lambda>peer. pc_addr peer = addr) (qh_peers entry),
              entry \<lparr> qh_peers := merge_peer (qh_peers entry) addr (hd_discovered_at event) \<rparr>));
          entry = (case hd_source_node event of
            None \<Rightarrow> entry
          | Some node \<Rightarrow> entry \<lparr> qh_source_nodes :=
              take 8 (node # filter (\<lambda>old. nt_addr old \<noteq> nt_addr node) (qh_source_nodes entry)) \<rparr>);
          entry = (if hd_source event = Announce then entry \<lparr> qh_source := Announce \<rparr> else entry);
          entry = entry \<lparr> qh_latest_at := max (qh_latest_at entry) (hd_discovered_at event) \<rparr>
      in (new_peer, entry))"

definition pq_new :: "nat \<Rightarrow> duration \<Rightarrow> pending_hash_queue" where
  "pq_new capacity ttl =
     \<lparr> pq_capacity = max capacity 1, pq_ttl = ttl, pq_entries = [], pq_expiry = [], pq_waiting = [],
       pq_ready_fresh = [], pq_ready_retry = [], pq_retry_expiry = [], pq_sequence = 0,
       pq_fresh_dispatches = 0 \<rparr>"

definition pq_len :: "pending_hash_queue \<Rightarrow> nat" where
  "pq_len q = length (pq_entries q)"

definition pressure_len :: "pending_hash_queue \<Rightarrow> nat" where
  "pressure_len q = length (pq_entries q) - length (pq_retry_expiry q) + length (pq_ready_retry q)"

definition pq_insert :: "pending_hash_queue \<Rightarrow> queued_hash \<Rightarrow> pending_hash_queue" where
  "pq_insert q entry =
     (let sequence = (pq_sequence q + 1) mod 2 ^ 64;
          hash = qh_info_hash entry;
          entry = entry \<lparr> qh_order_key := (qh_latest_at entry, sequence) \<rparr>;
          q = q \<lparr> pq_sequence := sequence, pq_expiry := bput (qh_expires_at entry, sequence) hash (pq_expiry q) \<rparr>;
          q = (if qh_is_retry entry
               then q \<lparr> pq_retry_expiry := bput (qh_expires_at entry, sequence) hash (pq_retry_expiry q) \<rparr> else q);
          q = (if qh_ready entry then
                 if qh_is_retry entry
                 then q \<lparr> pq_ready_retry := bput (qh_ready_at entry, sequence) hash (pq_ready_retry q) \<rparr>
                 else q \<lparr> pq_ready_fresh := bput (qh_order_key entry) hash (pq_ready_fresh q) \<rparr>
               else q \<lparr> pq_waiting := bput (qh_ready_at entry, sequence) hash (pq_waiting q) \<rparr>)
      in q \<lparr> pq_entries := hput hash entry (pq_entries q) \<rparr>)"

definition pq_remove :: "pending_hash_queue \<Rightarrow> string \<Rightarrow> queued_hash option \<times> pending_hash_queue" where
  "pq_remove q hash =
     (case hget (pq_entries q) hash of
        None \<Rightarrow> (None, q)
      | Some entry \<Rightarrow> let sequence = snd (qh_order_key entry) in
          (Some entry, q \<lparr>
             pq_entries := hdel hash (pq_entries q),
             pq_expiry := bdel (qh_expires_at entry, sequence) (pq_expiry q),
             pq_retry_expiry := bdel (qh_expires_at entry, sequence) (pq_retry_expiry q),
             pq_waiting := bdel (qh_ready_at entry, sequence) (pq_waiting q),
             pq_ready_fresh := bdel (qh_order_key entry) (pq_ready_fresh q),
             pq_ready_retry := bdel (qh_ready_at entry, sequence) (pq_ready_retry q) \<rparr>))"

definition fresh_entry :: "hash_discovered \<Rightarrow> duration \<Rightarrow> instant \<Rightarrow> queued_hash" where
  "fresh_entry event ttl now =
     \<lparr> qh_info_hash = hd_info_hash event, qh_peers = [], qh_queued_at = now,
       qh_ready_at = now + PEER_COALESCE_WINDOW, qh_latest_at = hd_discovered_at event,
       qh_order_key = (now, 0), qh_source_nodes = [], qh_source = hd_source event,
       qh_expires_at = hd_discovered_at event + ttl, qh_is_retry = False, qh_ready = False \<rparr>"

definition pq_push ::
  "pending_hash_queue \<Rightarrow> hash_discovered \<Rightarrow> instant \<Rightarrow> (queue_push_kind \<times> pending_hash_queue) option" where
  "pq_push q event now =
     (if pq_ttl q < now - hd_discovered_at event then Some (Stale, q)
      else case pq_remove q (hd_info_hash event) of
          (Some entry, q) \<Rightarrow>
            let entry = snd (merge_candidate entry event);
                entry = (if \<not> qh_is_retry entry then entry \<lparr> qh_expires_at := qh_latest_at entry + pq_ttl q \<rparr> else entry)
            in Some (Updated, pq_insert q entry)
        | (None, q) \<Rightarrow>
            let entry = snd (merge_candidate (fresh_entry event (pq_ttl q) now) event) in
            if pq_capacity q \<le> length (pq_entries q) then
              case (case bfirst (pq_retry_expiry q) of None \<Rightarrow> bfirst (pq_expiry q) | Some kv \<Rightarrow> Some kv) of
                None \<Rightarrow> Some (Stale, q)
              | Some (_, oldest_hash) \<Rightarrow> do {
                  oldest \<leftarrow> hget (pq_entries q) oldest_hash;
                  if \<not> qh_is_retry oldest \<and> hd_discovered_at event \<le> qh_latest_at oldest then Some (Stale, q)
                  else Some (if qh_is_retry oldest then EvictedRetry else EvictedOldest,
                             pq_insert (snd (pq_remove q oldest_hash)) entry)
                }
            else Some (Inserted, pq_insert q entry))"

definition pq_defer :: "pending_hash_queue \<Rightarrow> queued_hash \<Rightarrow> retry_record \<Rightarrow> bool \<times> pending_hash_queue" where
  "pq_defer q entry record =
     (let q = snd (pq_remove q (qh_info_hash entry)) in
      if pq_capacity q \<le> length (pq_entries q) \<or> max (pq_capacity q div 4) 1 \<le> length (pq_retry_expiry q)
      then (False, q)
      else (True, pq_insert q (entry \<lparr> qh_ready_at := rr_next_due record, qh_expires_at := rr_expires_at record,
                                       qh_is_retry := True, qh_ready := False \<rparr>)))"

text \<open>\<open>None\<close> is the panic of \<open>expect("indexed queued hash")\<close>.\<close>

function promote_ready :: "pending_hash_queue \<Rightarrow> instant \<Rightarrow> pending_hash_queue option" where
  "promote_ready q now =
     (case pq_waiting q of
        [] \<Rightarrow> Some q
      | (key, hash) # waiting \<Rightarrow>
          if now < fst key then Some q
          else case hget (pq_entries q) hash of
              None \<Rightarrow> None
            | Some entry \<Rightarrow>
                let q = q \<lparr> pq_waiting := waiting,
                            pq_entries := hput hash (entry \<lparr> qh_ready := True \<rparr>) (pq_entries q) \<rparr>;
                    q = (if qh_is_retry entry
                         then q \<lparr> pq_ready_retry := bput key hash (pq_ready_retry q) \<rparr>
                         else q \<lparr> pq_ready_fresh := bput (qh_order_key entry) hash (pq_ready_fresh q) \<rparr>)
                in promote_ready q now)"
  by pat_completeness auto
termination
  by (relation "measure (\<lambda>(q, _). length (pq_waiting q))") (auto split: if_splits)

declare promote_ready.simps [simp del]

text \<open>\<open>None\<close> is a loop that does not end, or a panic.\<close>

partial_function (option) expire_from :: "pending_hash_queue \<Rightarrow> instant \<Rightarrow> nat \<Rightarrow> (nat \<times> pending_hash_queue) option" where
  "expire_from q now expired =
     (case pq_expiry q of
        [] \<Rightarrow> Some (expired, q)
      | (key, hash) # _ \<Rightarrow>
          if now \<le> fst key then Some (expired, q)
          else expire_from (snd (pq_remove q hash)) now (expired + 1))"

declare expire_from.simps [code]

definition pq_expire :: "pending_hash_queue \<Rightarrow> instant \<Rightarrow> (nat \<times> pending_hash_queue) option" where
  "pq_expire q now = expire_from q now 0"

definition pop_newest_ready :: "pending_hash_queue \<Rightarrow> instant \<Rightarrow> (queued_hash option \<times> pending_hash_queue) option" where
  "pop_newest_ready q now = do {
     (_, q) \<leftarrow> pq_expire q now;
     q \<leftarrow> promote_ready q now;
     let use_retry = (pq_ready_retry q \<noteq> [] \<and> (3 \<le> pq_fresh_dispatches q \<or> pq_ready_fresh q = []));
     if use_retry then
       let q = q \<lparr> pq_fresh_dispatches := 0 \<rparr> in
       case bfirst (pq_ready_retry q) of
         None \<Rightarrow> Some (None, q)
       | Some (_, hash) \<Rightarrow> Some (pq_remove q hash)
     else
       let q = q \<lparr> pq_fresh_dispatches := min (pq_fresh_dispatches q + 1) 255 \<rparr> in
       case blast_entry (pq_ready_fresh q) of
         None \<Rightarrow> Some (None, q)
       | Some (_, hash) \<Rightarrow> Some (pq_remove q hash)
   }"

subsection \<open>The maps as images of the entries\<close>

definition qseq :: "queued_hash \<Rightarrow> nat" where
  "qseq e = snd (qh_order_key e)"

definition expiry_key :: "queued_hash \<Rightarrow> order_key" where
  "expiry_key e = (qh_expires_at e, qseq e)"

definition ready_key :: "queued_hash \<Rightarrow> order_key" where
  "ready_key e = (qh_ready_at e, qseq e)"

definition seq_key :: "(queued_hash \<Rightarrow> order_key) \<Rightarrow> bool" where
  "seq_key key = (\<forall>e. snd (key e) = qseq e)"

lemma seq_keys [simp]: "seq_key expiry_key" "seq_key ready_key" "seq_key qh_order_key"
  by (simp_all add: seq_key_def expiry_key_def ready_key_def qseq_def)

definition image_index ::
  "(queued_hash \<Rightarrow> order_key) \<Rightarrow> (queued_hash \<Rightarrow> bool) \<Rightarrow> (string \<Rightarrow> queued_hash option) \<Rightarrow> (order_key \<times> string) set" where
  "image_index key P es = {(key e, h) | h e. es h = Some e \<and> P e}"

definition indexed ::
  "(order_key, string) bmap \<Rightarrow> (queued_hash \<Rightarrow> order_key) \<Rightarrow> (queued_hash \<Rightarrow> bool) \<Rightarrow> (string \<Rightarrow> queued_hash option) \<Rightarrow> bool" where
  "indexed m key P es = (bwf m \<and> set m = image_index key P es)"

definition uniq :: "(string \<Rightarrow> queued_hash option) \<Rightarrow> bool" where
  "uniq es = ((\<forall>h e. es h = Some e \<longrightarrow> qh_info_hash e = h) \<and>
              (\<forall>h h' e e'. es h = Some e \<longrightarrow> es h' = Some e' \<longrightarrow> qseq e = qseq e' \<longrightarrow> h = h'))"

lemma in_image_index: "(k, h) \<in> image_index key P es \<longleftrightarrow> (\<exists>e. es h = Some e \<and> P e \<and> key e = k)"
  by (auto simp: image_index_def)

lemma pair_set_eqI: "(\<And>k h. (k, h) \<in> A \<longleftrightarrow> (k, h) \<in> B) \<Longrightarrow> A = B"
  by auto

lemma seq_key_neq: "seq_key key \<Longrightarrow> qseq e \<noteq> qseq e' \<Longrightarrow> key e \<noteq> key e'"
  unfolding seq_key_def by metis

lemma indexed_remove:
  assumes "seq_key key" and "uniq es" and "indexed m key P es" and "es h = Some e"
  shows "indexed (bdel (key e) m) key P (es(h := None))"
proof -
  have other: "key e' \<noteq> key e" if "es h' = Some e'" and "h' \<noteq> h" for h' e'
    using that assms(2,4) by (intro seq_key_neq [OF assms(1)]) (auto simp: uniq_def)
  have "(k, h') \<in> {p \<in> image_index key P es. fst p \<noteq> key e} \<longleftrightarrow> (k, h') \<in> image_index key P (es(h := None))" for k h'
    using other [of h'] assms(4) by (cases "h' = h") (auto simp: in_image_index)
  then have "{p \<in> image_index key P es. fst p \<noteq> key e} = image_index key P (es(h := None))"
    by (rule pair_set_eqI)
  then show ?thesis using assms(3) by (simp add: indexed_def set_bdel)
qed

lemma indexed_insert:
  assumes "seq_key key" and "indexed m key P es" and "es h = None"
    and "\<And>h' e'. es h' = Some e' \<Longrightarrow> qseq e' \<noteq> qseq e"
  shows "indexed (if P e then bput (key e) h m else m) key P (es(h \<mapsto> e))"
proof -
  have "(k, h') \<in> image_index key P (es(h \<mapsto> e)) \<longleftrightarrow>
      (k, h') \<in> (if P e then insert (key e, h) (image_index key P es) else image_index key P es)" for k h'
    using assms(3) by (cases "h' = h") (auto simp: in_image_index)
  then have img: "image_index key P (es(h \<mapsto> e)) = (if P e then insert (key e, h) (image_index key P es) else image_index key P es)"
    by (rule pair_set_eqI)
  have "key e \<notin> fst ` set m"
  proof
    assume "key e \<in> fst ` set m"
    then obtain h' where "(key e, h') \<in> image_index key P es" using assms(2) by (auto simp: indexed_def)
    then obtain e' where "es h' = Some e'" "key e' = key e" by (auto simp: in_image_index)
    then show False using seq_key_neq [OF assms(1) assms(4)] by blast
  qed
  then show ?thesis using assms(2) img by (simp add: indexed_def set_bput_fresh)
qed

text \<open>An entry changed in place: removed under its old key and inserted under its new one.\<close>

lemma indexed_change:
  assumes "seq_key key" and "uniq es" and "indexed m key P es" and "es h = Some e"
    and "qseq e' = qseq e" and "key e' = key e"
  shows "P e \<Longrightarrow> P e' \<Longrightarrow> indexed m key P (es(h \<mapsto> e'))"
    and "\<not> P e \<Longrightarrow> \<not> P e' \<Longrightarrow> indexed m key P (es(h \<mapsto> e'))"
    and "P e \<Longrightarrow> \<not> P e' \<Longrightarrow> indexed (bdel (key e) m) key P (es(h \<mapsto> e'))"
    and "\<not> P e \<Longrightarrow> P e' \<Longrightarrow> indexed (bput (key e) h m) key P (es(h \<mapsto> e'))"
proof -
  have same: "image_index key P (es(h \<mapsto> e')) = image_index key P es" if "P e = P e'"
  proof -
    have "(k, h') \<in> image_index key P (es(h \<mapsto> e')) \<longleftrightarrow> (k, h') \<in> image_index key P es" for k h'
      using that assms(4,6) by (cases "h' = h") (auto simp: in_image_index)
    then show ?thesis by (rule pair_set_eqI)
  qed
  show "P e \<Longrightarrow> P e' \<Longrightarrow> indexed m key P (es(h \<mapsto> e'))" "\<not> P e \<Longrightarrow> \<not> P e' \<Longrightarrow> indexed m key P (es(h \<mapsto> e'))"
    using assms(3) same by (simp_all add: indexed_def)
  have fresh: "qseq e'' \<noteq> qseq e'" if "(es(h := None)) h' = Some e''" for h' e''
    using that assms(2,4,5) unfolding uniq_def by (auto split: if_splits)
  note rem = indexed_remove [OF assms(1-4)]
  have ins: "indexed (if P e' then bput (key e') h m' else m') key P (es(h \<mapsto> e'))"
    if "indexed m' key P (es(h := None))" for m'
    using indexed_insert [OF assms(1) that, of h e'] fresh by simp
  show "P e \<Longrightarrow> \<not> P e' \<Longrightarrow> indexed (bdel (key e) m) key P (es(h \<mapsto> e'))"
    using ins [OF rem] by simp
  have "image_index key P (es(h := None)) = image_index key P es" if "\<not> P e"
  proof -
    have "(k, h') \<in> image_index key P (es(h := None)) \<longleftrightarrow> (k, h') \<in> image_index key P es" for k h'
      using that assms(4) by (cases "h' = h") (auto simp: in_image_index)
    then show ?thesis by (rule pair_set_eqI)
  qed
  then have "indexed m key P (es(h := None))" if "\<not> P e" using that assms(3) by (simp add: indexed_def)
  then show "\<not> P e \<Longrightarrow> P e' \<Longrightarrow> indexed (bput (key e) h m) key P (es(h \<mapsto> e'))"
    using ins [of m] assms(6) by simp
qed

lemma indexed_hit: "indexed m key P es \<Longrightarrow> (k, h) \<in> set m \<Longrightarrow> \<exists>e. es h = Some e \<and> key e = k \<and> P e"
  by (auto simp: indexed_def image_index_def)

lemma indexed_entry: "indexed m key P es \<Longrightarrow> es h = Some e \<Longrightarrow> P e \<Longrightarrow> (key e, h) \<in> set m"
  by (auto simp: indexed_def image_index_def)

subsection \<open>The invariant\<close>

definition pq_indexed :: "pending_hash_queue \<Rightarrow> bool" where
  "pq_indexed q =
     (let es = hget (pq_entries q) in
      indexed (pq_expiry q) expiry_key (\<lambda>_. True) es \<and>
      indexed (pq_retry_expiry q) expiry_key qh_is_retry es \<and>
      indexed (pq_waiting q) ready_key (\<lambda>e. \<not> qh_ready e) es \<and>
      indexed (pq_ready_fresh q) qh_order_key (\<lambda>e. qh_ready e \<and> \<not> qh_is_retry e) es \<and>
      indexed (pq_ready_retry q) ready_key (\<lambda>e. qh_ready e \<and> qh_is_retry e) es)"

definition pq_inv :: "pending_hash_queue \<Rightarrow> bool" where
  "pq_inv q =
     (0 < pq_capacity q \<and> hwf (pq_entries q) \<and> uniq (hget (pq_entries q)) \<and> pq_indexed q \<and>
      (\<forall>h e. hget (pq_entries q) h = Some e \<longrightarrow> qseq e \<le> pq_sequence q \<and> fst (qh_order_key e) = qh_latest_at e) \<and>
      length (pq_entries q) \<le> pq_capacity q \<and>
      length (pq_retry_expiry q) \<le> max (pq_capacity q div 4) 1)"

lemma pq_new_inv: "pq_inv (pq_new capacity ttl)"
  by (auto simp: pq_inv_def pq_new_def pq_indexed_def indexed_def image_index_def uniq_def)

lemma pq_remove_entries:
  "fst (pq_remove q h) = hget (pq_entries q) h"
  "pq_entries (snd (pq_remove q h)) = hdel h (pq_entries q)"
  "pq_sequence (snd (pq_remove q h)) = pq_sequence q"
  "pq_capacity (snd (pq_remove q h)) = pq_capacity q"
  "pq_ttl (snd (pq_remove q h)) = pq_ttl q"
  "pq_fresh_dispatches (snd (pq_remove q h)) = pq_fresh_dispatches q"
  by (auto simp: pq_remove_def Let_def split: option.splits)

lemma pq_remove_inv:
  assumes inv: "pq_inv q"
  shows "pq_inv (snd (pq_remove q h))"
    and "hget (pq_entries q) h = Some e \<Longrightarrow> length (pq_entries q) = Suc (length (pq_entries (snd (pq_remove q h))))"
    and "hget (pq_entries q) h = Some e \<Longrightarrow> qh_is_retry e \<Longrightarrow>
           length (pq_retry_expiry q) = Suc (length (pq_retry_expiry (snd (pq_remove q h))))"
    and "length (pq_retry_expiry (snd (pq_remove q h))) \<le> length (pq_retry_expiry q)"
proof -
  have wf: "hwf (pq_entries q)" and un: "uniq (hget (pq_entries q))" and ix: "pq_indexed q"
    using inv by (auto simp: pq_inv_def)
  show ret_le: "length (pq_retry_expiry (snd (pq_remove q h))) \<le> length (pq_retry_expiry q)"
    by (auto simp: pq_remove_def Let_def length_bdel_le split: option.splits)
  show "hget (pq_entries q) h = Some e \<Longrightarrow> length (pq_entries q) = Suc (length (pq_entries (snd (pq_remove q h))))"
    using wf by (simp add: pq_remove_entries length_hdel)
  show "hget (pq_entries q) h = Some e \<Longrightarrow> qh_is_retry e \<Longrightarrow>
           length (pq_retry_expiry q) = Suc (length (pq_retry_expiry (snd (pq_remove q h))))"
  proof -
    assume e: "hget (pq_entries q) h = Some e" "qh_is_retry e"
    have i: "indexed (pq_retry_expiry q) expiry_key qh_is_retry (hget (pq_entries q))"
      using ix by (simp add: pq_indexed_def Let_def)
    have "expiry_key e \<in> fst ` set (pq_retry_expiry q)"
      using indexed_entry [OF i e] by force
    then have "length (pq_retry_expiry q) = Suc (length (bdel (expiry_key e) (pq_retry_expiry q)))"
      using i by (intro length_bdel) (simp_all add: indexed_def)
    then show ?thesis using e by (simp add: pq_remove_def Let_def expiry_key_def qseq_def)
  qed
  show "pq_inv (snd (pq_remove q h))"
  proof (cases "hget (pq_entries q) h")
    case None
    then show ?thesis using inv by (simp add: pq_remove_def)
  next
    case (Some e)
    have "pq_indexed (snd (pq_remove q h))"
      using ix Some indexed_remove [OF _ un _ Some]
      by (simp add: pq_remove_def Let_def pq_indexed_def expiry_key_def [symmetric] ready_key_def [symmetric] qseq_def [symmetric]
          del: fun_upd_apply)
    moreover have "uniq (hget (hdel h (pq_entries q)))" using un by (auto simp: uniq_def)
    moreover have "length (hdel h (pq_entries q)) \<le> pq_capacity q"
      using length_hdel_le [of h "pq_entries q"] inv by (simp add: pq_inv_def)
    moreover have "qseq e' \<le> pq_sequence q \<and> fst (qh_order_key e') = qh_latest_at e'"
      if "hget (hdel h (pq_entries q)) h' = Some e'" for h' e'
      using that inv by (auto simp: pq_inv_def split: if_splits)
    moreover have "length (pq_retry_expiry (snd (pq_remove q h))) \<le> max (pq_capacity q div 4) 1"
      using ret_le inv by (simp add: pq_inv_def)
    moreover have "0 < pq_capacity q" using inv by (simp add: pq_inv_def)
    ultimately show ?thesis
      using wf unfolding pq_inv_def pq_remove_entries by (intro conjI allI impI) (simp_all only: hwf_hdel)
  qed
qed

lemma pq_insert_entries:
  "hget (pq_entries (pq_insert q e)) = (hget (pq_entries q))(qh_info_hash e \<mapsto>
     e \<lparr> qh_order_key := (qh_latest_at e, (pq_sequence q + 1) mod 2 ^ 64) \<rparr>)"
  "pq_sequence (pq_insert q e) = (pq_sequence q + 1) mod 2 ^ 64"
  "pq_capacity (pq_insert q e) = pq_capacity q"
  "pq_ttl (pq_insert q e) = pq_ttl q"
  "pq_fresh_dispatches (pq_insert q e) = pq_fresh_dispatches q"
  by (simp_all add: pq_insert_def Let_def)

lemma pq_insert_inv:
  assumes inv: "pq_inv q" and new: "hget (pq_entries q) (qh_info_hash e) = None"
    and room: "length (pq_entries q) < pq_capacity q"
      "qh_is_retry e \<Longrightarrow> length (pq_retry_expiry q) < max (pq_capacity q div 4) 1"
    and seq: "pq_sequence q + 1 < 2 ^ 64"
  shows "pq_inv (pq_insert q e)"
proof -
  let ?es = "hget (pq_entries q)" and ?h = "qh_info_hash e"
  define n where "n = pq_sequence q + 1"
  define e' where "e' = e \<lparr> qh_order_key := (qh_latest_at e, n) \<rparr>"
  have n: "(pq_sequence q + 1) mod 2 ^ 64 = n" using seq by (simp add: n_def)
  have old: "qseq e1 \<noteq> qseq e'" if "?es h1 = Some e1" for h1 e1
    using that inv by (force simp: pq_inv_def e'_def qseq_def n_def)
  have un: "uniq ?es" and ix: "pq_indexed q" using inv by (auto simp: pq_inv_def)
  have "uniq (?es(?h \<mapsto> e'))"
    using un old new unfolding uniq_def by (auto simp: e'_def) metis+
  moreover have ix': "indexed m key P ?es \<Longrightarrow> seq_key key \<Longrightarrow> indexed (if P e' then bput (key e') ?h m else m) key P (?es(?h \<mapsto> e'))" for m key P
    using new old by (intro indexed_insert) simp_all
  have keys: "expiry_key e' = (qh_expires_at e, n)" "ready_key e' = (qh_ready_at e, n)" "qh_order_key e' = (qh_latest_at e, n)"
    "qh_is_retry e' = qh_is_retry e" "qh_ready e' = qh_ready e"
    by (simp_all add: expiry_key_def ready_key_def qseq_def e'_def)
  have es': "hget (pq_entries (pq_insert q e)) = ?es(?h \<mapsto> e')"
    unfolding pq_insert_entries n e'_def ..
  have "pq_indexed (pq_insert q e)"
    using ix ix' [of "pq_expiry q" expiry_key "\<lambda>_. True"] ix' [of "pq_retry_expiry q" expiry_key qh_is_retry]
      ix' [of "pq_waiting q" ready_key "\<lambda>e. \<not> qh_ready e"]
      ix' [of "pq_ready_fresh q" qh_order_key "\<lambda>e. qh_ready e \<and> \<not> qh_is_retry e"]
      ix' [of "pq_ready_retry q" ready_key "\<lambda>e. qh_ready e \<and> qh_is_retry e"]
    unfolding pq_indexed_def Let_def es' keys
    by (cases "qh_is_retry e"; cases "qh_ready e")
      (simp_all add: pq_insert_def Let_def n [simplified])
  moreover have "hwf (pq_entries (pq_insert q e))" using inv by (simp add: pq_insert_def Let_def pq_inv_def)
  moreover have "length (pq_entries (pq_insert q e)) \<le> pq_capacity q"
    using room(1) by (simp add: pq_insert_def Let_def length_hput)
  moreover have "length (pq_retry_expiry (pq_insert q e)) \<le> max (pq_capacity q div 4) 1"
  proof (cases "qh_is_retry e")
    case True
    have i: "indexed (pq_retry_expiry q) expiry_key qh_is_retry ?es" using ix by (simp add: pq_indexed_def Let_def)
    have "(qh_expires_at e, n) \<notin> fst ` set (pq_retry_expiry q)"
      using indexed_hit [OF i] old by (force simp: keys(1) [symmetric] expiry_key_def)
    then have "length (bput (qh_expires_at e, n) ?h (pq_retry_expiry q)) = Suc (length (pq_retry_expiry q))"
      by (rule length_bput_fresh)
    then show ?thesis using room(2) [OF True] True by (simp add: pq_insert_def Let_def n [simplified])
  next
    case False
    then show ?thesis using inv by (simp add: pq_insert_def Let_def pq_inv_def)
  qed
  moreover have "qseq e1 \<le> n \<and> fst (qh_order_key e1) = qh_latest_at e1" if "(?es(?h \<mapsto> e')) h1 = Some e1" for h1 e1
    using that inv by (force simp: pq_inv_def e'_def qseq_def n_def split: if_splits)
  moreover have "0 < pq_capacity q" using inv by (simp add: pq_inv_def)
  ultimately show ?thesis
    unfolding pq_inv_def es' pq_insert_entries(2,3) n by (intro conjI allI impI) blast+
qed

subsection \<open>Adding and deferring\<close>

lemma merge_candidate_keeps [simp]:
  "qh_info_hash (snd (merge_candidate e ev)) = qh_info_hash e"
  "qh_is_retry (snd (merge_candidate e ev)) = qh_is_retry e"
  "qh_ready (snd (merge_candidate e ev)) = qh_ready e"
  "qh_ready_at (snd (merge_candidate e ev)) = qh_ready_at e"
  "qh_expires_at (snd (merge_candidate e ev)) = qh_expires_at e"
  "qh_latest_at (snd (merge_candidate e ev)) = max (qh_latest_at e) (hd_discovered_at ev)"
  by (simp_all add: merge_candidate_def Let_def split: option.splits)

lemma pq_update_inv:
  assumes "pq_inv q" and "pq_sequence q + 1 < 2 ^ 64" and "hget (pq_entries q) h = Some e"
    and "qh_info_hash e' = h" and "qh_is_retry e' = qh_is_retry e"
  shows "pq_inv (pq_insert (snd (pq_remove q h)) e')"
proof (rule pq_insert_inv)
  note rem = pq_remove_inv [OF assms(1), of h]
  show "pq_inv (snd (pq_remove q h))" by (rule rem(1))
  show "hget (pq_entries (snd (pq_remove q h))) (qh_info_hash e') = None"
    by (simp add: pq_remove_entries assms(4))
  show "length (pq_entries (snd (pq_remove q h))) < pq_capacity (snd (pq_remove q h))"
    using rem(2) [OF assms(3)] assms(1) by (simp add: pq_remove_entries pq_inv_def)
  show "length (pq_retry_expiry (snd (pq_remove q h))) < max (pq_capacity (snd (pq_remove q h)) div 4) 1" if "qh_is_retry e'"
    using rem(3) [OF assms(3)] that assms(1,5) by (simp add: pq_remove_entries pq_inv_def)
  show "pq_sequence (snd (pq_remove q h)) + 1 < 2 ^ 64" using assms(2) by (simp add: pq_remove_entries)
qed

definition pq_hashes :: "pending_hash_queue \<Rightarrow> string set" where
  "pq_hashes q = dom (hget (pq_entries q))"

lemma pq_hashes_insert: "pq_hashes (pq_insert q e) = insert (qh_info_hash e) (pq_hashes q)"
  by (simp add: pq_hashes_def pq_insert_entries)

lemma pq_hashes_remove: "pq_hashes (snd (pq_remove q h)) = pq_hashes q - {h}"
  by (simp add: pq_hashes_def pq_remove_entries)

lemma pq_hashes_iff: "h \<in> pq_hashes q \<longleftrightarrow> hget (pq_entries q) h \<noteq> None"
  by (auto simp: pq_hashes_def)

lemma pq_defer_ok:
  assumes "pq_inv q" and "pq_sequence q + 1 < 2 ^ 64"
  shows "pq_inv (snd (pq_defer q entry record)) \<and> pq_sequence (snd (pq_defer q entry record)) \<le> pq_sequence q + 1"
proof -
  let ?q = "snd (pq_remove q (qh_info_hash entry))"
  let ?e = "entry \<lparr> qh_ready_at := rr_next_due record, qh_expires_at := rr_expires_at record,
                    qh_is_retry := True, qh_ready := False \<rparr>"
  have q: "pq_inv ?q" "pq_sequence ?q = pq_sequence q" using assms(1) by (simp_all add: pq_remove_inv pq_remove_entries)
  show ?thesis
  proof (cases "pq_capacity ?q \<le> length (pq_entries ?q) \<or> max (pq_capacity ?q div 4) 1 \<le> length (pq_retry_expiry ?q)")
    case True
    then show ?thesis using q by (simp add: pq_defer_def Let_def)
  next
    case False
    have "pq_inv (pq_insert ?q ?e)"
      by (rule pq_insert_inv [OF q(1)]) (use False assms(2) q(2) in \<open>auto simp: pq_remove_entries\<close>)
    moreover have "pq_sequence (pq_insert ?q ?e) \<le> pq_sequence q + 1"
      using q(2) assms(2) by (simp add: pq_insert_entries)
    ultimately show ?thesis using False by (auto simp: pq_defer_def Let_def)
  qed
qed

lemma indexed_first:
  assumes "indexed m key P es" and "bfirst m = Some (k, h)"
  shows "\<exists>e. es h = Some e \<and> P e \<and> (\<forall>h' e'. es h' = Some e' \<longrightarrow> P e' \<longrightarrow> key e \<le> key e')"
proof -
  obtain rest where m: "m = (k, h) # rest" using assms(2) by (auto simp: bfirst_def split: list.splits)
  obtain e where e: "es h = Some e" "key e = k" "P e" using indexed_hit [OF assms(1), of k h] m by auto
  have "k \<le> key e'" if "es h' = Some e'" "P e'" for h' e'
    using indexed_entry [OF assms(1) that] bwf_first_le [of "(k, h)" rest "(key e', h')"] assms(1) m
    by (auto simp: indexed_def less_imp_le)
  then show ?thesis using e by blast
qed

lemma indexed_last:
  assumes "indexed m key P es" and "blast_entry m = Some (k, h)"
  shows "\<exists>e. es h = Some e \<and> P e \<and> (\<forall>h' e'. es h' = Some e' \<longrightarrow> P e' \<longrightarrow> key e' \<le> key e)"
proof -
  obtain ms where m: "m = ms @ [(k, h)]"
    using assms(2) unfolding blast_entry_def by (metis append_butlast_last_id option.distinct(1) option.inject)
  obtain e where e: "es h = Some e" "key e = k" "P e"
    using indexed_hit [OF assms(1), of k h] m by auto
  have "key e' \<le> k" if "es h' = Some e'" "P e'" for h' e'
    using indexed_entry [OF assms(1) that] assms(1) by (auto simp: m indexed_def bwf_def sorted_wrt_append)
  then show ?thesis using e by blast
qed

lemma indexed_empty: "indexed m key P es \<Longrightarrow> m = [] \<longleftrightarrow> (\<forall>h e. es h = Some e \<longrightarrow> \<not> P e)"
proof -
  assume ix: "indexed m key P es"
  have "m = []" if none: "\<forall>h e. es h = Some e \<longrightarrow> \<not> P e"
  proof (rule ccontr)
    assume "m \<noteq> []"
    then obtain k h where "(k, h) \<in> set m" by (metis last_in_set prod.exhaust)
    then show False using indexed_hit [OF ix] none by blast
  qed
  then show ?thesis using indexed_entry [OF ix] by auto
qed

text \<open>The effect of adding a hash, case by case.\<close>

definition push_effect :: "pending_hash_queue \<Rightarrow> hash_discovered \<Rightarrow> queue_push_kind \<Rightarrow> pending_hash_queue \<Rightarrow> bool" where
  "push_effect q ev kind q' =
     (let h = hd_info_hash ev; es = hget (pq_entries q) in
      case kind of
        Stale \<Rightarrow> q' = q
      | Updated \<Rightarrow> h \<in> pq_hashes q \<and> pq_hashes q' = pq_hashes q
      | Inserted \<Rightarrow> h \<notin> pq_hashes q \<and> pq_len q < pq_capacity q \<and> pq_hashes q' = insert h (pq_hashes q)
      | EvictedRetry \<Rightarrow> h \<notin> pq_hashes q \<and> (\<exists>v e. es v = Some e \<and> qh_is_retry e \<and>
          pq_hashes q' = insert h (pq_hashes q - {v}) \<and>
          (\<forall>h' e'. es h' = Some e' \<longrightarrow> qh_is_retry e' \<longrightarrow> expiry_key e \<le> expiry_key e'))
      | EvictedOldest \<Rightarrow> h \<notin> pq_hashes q \<and> (\<exists>v e. es v = Some e \<and> qh_latest_at e < hd_discovered_at ev \<and>
          pq_hashes q' = insert h (pq_hashes q - {v}) \<and>
          (\<forall>h' e'. es h' = Some e' \<longrightarrow> \<not> qh_is_retry e' \<and> expiry_key e \<le> expiry_key e')))"

lemma pq_push_ok:
  assumes inv: "pq_inv q" and seq: "pq_sequence q + 1 < 2 ^ 64"
  shows "ok (pq_push q ev now) (\<lambda>(kind, q'). pq_inv q' \<and> pq_sequence q' \<le> pq_sequence q + 1 \<and> push_effect q ev kind q')"
proof (cases "pq_ttl q < now - hd_discovered_at ev")
  case True
  then show ?thesis using inv by (simp add: pq_push_def push_effect_def)
next
  case age: False
  let ?h = "hd_info_hash ev" and ?es = "hget (pq_entries q)"
  let ?new = "snd (merge_candidate (fresh_entry ev (pq_ttl q) now) ev)"
  have new: "qh_info_hash ?new = ?h" "\<not> qh_is_retry ?new" by (simp_all add: fresh_entry_def)
  have seq': "pq_sequence (pq_insert q1 e) \<le> pq_sequence q + 1" if "pq_sequence q1 = pq_sequence q" for q1 e
    using that seq by (simp add: pq_insert_entries)
  show ?thesis
  proof (cases "?es ?h")
    case (Some e)
    let ?m = "snd (merge_candidate e ev)"
    let ?e = "if \<not> qh_is_retry ?m then ?m \<lparr> qh_expires_at := qh_latest_at ?m + pq_ttl q \<rparr> else ?m"
    obtain q1 where rem: "pq_remove q ?h = (Some e, q1)"
      using pq_remove_entries(1) [of q ?h] Some by (cases "pq_remove q ?h") simp
    have q1: "q1 = snd (pq_remove q ?h)" "pq_ttl q1 = pq_ttl q" "pq_sequence q1 = pq_sequence q" "pq_hashes q1 = pq_hashes q - {?h}"
      using pq_remove_entries(3,5) [of q ?h] pq_hashes_remove [of q ?h] by (simp_all add: rem)
    have name: "qh_info_hash e = ?h" using inv Some by (simp add: pq_inv_def uniq_def)
    have "pq_inv (pq_insert q1 ?e)"
      unfolding q1(1) by (rule pq_update_inv [OF inv seq Some]) (simp_all add: name)
    moreover have "qh_info_hash ?e = ?h" by (simp add: name)
    then have "pq_hashes (pq_insert q1 ?e) = pq_hashes q"
      unfolding pq_hashes_insert q1(4) using Some by (auto simp: pq_hashes_iff)
    moreover have "pq_push q ev now = Some (Updated, pq_insert q1 ?e)"
      using age by (simp add: pq_push_def Let_def rem q1(2))
    ultimately show ?thesis
      using seq' [OF q1(3), of ?e] Some by (simp add: push_effect_def pq_hashes_iff)
  next
    case None
    have rem: "pq_remove q ?h = (None, q)" using None by (simp add: pq_remove_def)
    show ?thesis
    proof (cases "pq_capacity q \<le> length (pq_entries q)")
      case False
      have "pq_inv (pq_insert q ?new)"
        by (rule pq_insert_inv [OF inv]) (use None False seq new in simp_all)
      moreover have "pq_push q ev now = Some (Inserted, pq_insert q ?new)"
        using age rem False by (simp add: pq_push_def Let_def)
      ultimately show ?thesis
        using seq' [of q ?new] None False
        by (simp add: push_effect_def pq_hashes_insert fresh_entry_def pq_hashes_iff pq_len_def)
    next
      case full: True
      have ixr: "indexed (pq_retry_expiry q) expiry_key qh_is_retry ?es" and ixe: "indexed (pq_expiry q) expiry_key (\<lambda>_. True) ?es"
        using inv by (simp_all add: pq_inv_def pq_indexed_def Let_def)
      have evict: "pq_inv (pq_insert (snd (pq_remove q v)) ?new) \<and>
          pq_hashes (pq_insert (snd (pq_remove q v)) ?new) = insert ?h (pq_hashes q - {v})"
        if "?es v = Some e" for v e
      proof
        note r = pq_remove_inv [OF inv, of v]
        show "pq_inv (pq_insert (snd (pq_remove q v)) ?new)"
          by (rule pq_insert_inv [OF r(1)])
            (use None seq new r(2) [OF that] inv in \<open>simp_all add: pq_remove_entries pq_inv_def\<close>)
        show "pq_hashes (pq_insert (snd (pq_remove q v)) ?new) = insert ?h (pq_hashes q - {v})"
          by (simp only: pq_hashes_insert pq_hashes_remove new(1))
      qed
      show ?thesis
      proof (cases "bfirst (pq_retry_expiry q)")
        case (Some kv)
        obtain k v where kv: "kv = (k, v)" by fastforce
        obtain e where e: "?es v = Some e" "qh_is_retry e"
          "\<forall>h' e'. ?es h' = Some e' \<longrightarrow> qh_is_retry e' \<longrightarrow> expiry_key e \<le> expiry_key e'"
          using indexed_first [OF ixr, of k v] Some kv by auto
        have "pq_push q ev now = Some (EvictedRetry, pq_insert (snd (pq_remove q v)) ?new)"
          using age rem full Some kv e by (simp add: pq_push_def Let_def)
        moreover have "push_effect q ev EvictedRetry (pq_insert (snd (pq_remove q v)) ?new)"
          unfolding push_effect_def Let_def queue_push_kind.case using evict [OF e(1)] e None
          by (intro conjI exI [of _ v] exI [of _ e]) (simp_all add: pq_hashes_iff)
        ultimately show ?thesis
          using evict [OF e(1)] seq' [of "snd (pq_remove q v)" ?new] by (simp add: pq_remove_entries)
      next
        case no_retry: None
        have none: "\<forall>h' e'. ?es h' = Some e' \<longrightarrow> \<not> qh_is_retry e'"
          using indexed_empty [OF ixr] no_retry by (auto simp: bfirst_def split: list.splits)
        show ?thesis
        proof (cases "bfirst (pq_expiry q)")
          case None
          then show ?thesis
            using age rem full no_retry inv by (simp add: pq_push_def Let_def push_effect_def)
        next
          case (Some kv)
          obtain k v where kv: "kv = (k, v)" by fastforce
          obtain e where e: "?es v = Some e" "\<forall>h' e'. ?es h' = Some e' \<longrightarrow> expiry_key e \<le> expiry_key e'"
            using indexed_first [OF ixe, of k v] Some kv by auto
          have ne: "\<not> qh_is_retry e" using none e(1) by blast
          have res: "pq_push q ev now = (if hd_discovered_at ev \<le> qh_latest_at e then Some (Stale, q)
              else Some (EvictedOldest, pq_insert (snd (pq_remove q v)) ?new))"
            using age rem full Some kv e ne no_retry by (simp add: pq_push_def Let_def)
          show ?thesis
          proof (cases "hd_discovered_at ev \<le> qh_latest_at e")
            case True
            then show ?thesis using res inv by (simp add: push_effect_def)
          next
            case False
            have "push_effect q ev EvictedOldest (pq_insert (snd (pq_remove q v)) ?new)"
              unfolding push_effect_def Let_def queue_push_kind.case
              using evict [OF e(1)] e none \<open>?es ?h = None\<close> False
              by (intro conjI exI [of _ v] exI [of _ e]) (simp_all add: pq_hashes_iff)
            then show ?thesis
              using False res evict [OF e(1)] seq' [of "snd (pq_remove q v)" ?new] by (simp add: pq_remove_entries)
          qed
        qed
      qed
    qed
  qed
qed

subsection \<open>Expiring, promoting and serving\<close>

definition live :: "instant \<Rightarrow> (string \<Rightarrow> queued_hash option) \<Rightarrow> string \<Rightarrow> queued_hash option" where
  "live now es h = (case es h of None \<Rightarrow> None | Some e \<Rightarrow> if qh_expires_at e < now then None else Some e)"

definition settle :: "instant \<Rightarrow> (string \<Rightarrow> queued_hash option) \<Rightarrow> string \<Rightarrow> queued_hash option" where
  "settle now es h = map_option (\<lambda>e. e \<lparr> qh_ready := (qh_ready e \<or> qh_ready_at e \<le> now) \<rparr>) (es h)"

lemma expire_from_ok:
  assumes "pq_inv q"
  shows "ok (expire_from q now n) (\<lambda>(k, q'). pq_inv q' \<and> hget (pq_entries q') = live now (hget (pq_entries q)) \<and>
    pq_sequence q' = pq_sequence q \<and> pq_fresh_dispatches q' = pq_fresh_dispatches q \<and>
    n + length (pq_entries q) = k + length (pq_entries q'))"
  using assms
proof (induction "length (pq_entries q)" arbitrary: q n rule: less_induct)
  case less
  let ?es = "hget (pq_entries q)"
  have ix: "indexed (pq_expiry q) expiry_key (\<lambda>_. True) ?es" using less.prems by (simp add: pq_inv_def pq_indexed_def Let_def)
  show ?case
  proof (cases "pq_expiry q")
    case Nil
    then have "?es h = None" for h using indexed_empty [OF ix] by (cases "?es h") auto
    then have "live now ?es = ?es" by (auto simp: live_def fun_eq_iff)
    then show ?thesis using Nil less.prems by (subst expire_from.simps) simp
  next
    case (Cons kv rest)
    obtain k h where kv: "kv = (k, h)" by fastforce
    have first: "bfirst (pq_expiry q) = Some (k, h)" using Cons kv by (simp add: bfirst_def)
    obtain e where e: "?es h = Some e" "\<And>h' e'. ?es h' = Some e' \<Longrightarrow> expiry_key e \<le> expiry_key e'"
      using indexed_first [OF ix first] by blast
    obtain e1 where "?es h = Some e1" "expiry_key e1 = k" using indexed_hit [OF ix, of k h] Cons kv by auto
    then have k: "fst k = qh_expires_at e" using e(1) by (auto simp: expiry_key_def)
    show ?thesis
    proof (cases "now \<le> fst k")
      case True
      have "live now ?es h' = ?es h'" for h'
      proof (cases "?es h'")
        case (Some e')
        have "qh_expires_at e \<le> qh_expires_at e'" using e(2) [OF Some] by (auto simp: expiry_key_def)
        then show ?thesis using Some True k by (simp add: live_def)
      qed (simp add: live_def)
      then have "live now ?es = ?es" by (simp add: fun_eq_iff)
      then show ?thesis using Cons kv True less.prems by (subst expire_from.simps) simp
    next
      case False
      let ?q = "snd (pq_remove q h)"
      have len: "length (pq_entries q) = Suc (length (pq_entries ?q))" by (rule pq_remove_inv(2) [OF less.prems e(1)])
      have es: "hget (pq_entries ?q) = ?es(h := None)" by (simp add: pq_remove_entries)
      have "live now (?es(h := None)) = live now ?es"
        using False k e(1) by (auto simp: live_def fun_eq_iff)
      then have "ok (expire_from ?q now (n + 1)) (\<lambda>(k, q'). pq_inv q' \<and> hget (pq_entries q') = live now ?es \<and>
          pq_sequence q' = pq_sequence q \<and> pq_fresh_dispatches q' = pq_fresh_dispatches q \<and>
          n + 1 + length (pq_entries ?q) = k + length (pq_entries q'))"
        using less.hyps [OF _ pq_remove_inv(1) [OF less.prems], of h "n + 1"] len es
        by (simp add: pq_remove_entries(3,6))
      then show ?thesis
        using Cons kv False len by (subst expire_from.simps) simp
    qed
  qed
qed

lemma promote_step_inv:
  assumes inv: "pq_inv q" and w: "pq_waiting q = (key, h) # waiting" and e: "hget (pq_entries q) h = Some e"
    and k: "key = ready_key e" and nr: "\<not> qh_ready e"
    and q1: "q1 = (let q = q \<lparr> pq_waiting := waiting,
                            pq_entries := hput h (e \<lparr> qh_ready := True \<rparr>) (pq_entries q) \<rparr>
                   in if qh_is_retry e
                         then q \<lparr> pq_ready_retry := bput key h (pq_ready_retry q) \<rparr>
                         else q \<lparr> pq_ready_fresh := bput (qh_order_key e) h (pq_ready_fresh q) \<rparr>)"
  shows "pq_inv q1"
proof -
  let ?es = "hget (pq_entries q)" and ?e = "e \<lparr> qh_ready := True \<rparr>"
  have un: "uniq ?es" and ix: "pq_indexed q" using inv by (auto simp: pq_inv_def)
  have es1: "hget (pq_entries q1) = ?es(h \<mapsto> ?e)" using q1 by (simp add: Let_def)
  have seq: "qseq ?e = qseq e" and keys: "expiry_key ?e = expiry_key e" "ready_key ?e = ready_key e" "qh_order_key ?e = qh_order_key e"
    by (simp_all add: qseq_def expiry_key_def ready_key_def)
  note change = indexed_change [OF _ un _ e seq]
  have wait: "waiting = bdel (ready_key e) (pq_waiting q)"
    using bdel_first [of "(key, h)" waiting] ix w k by (simp add: pq_indexed_def indexed_def Let_def)
  have "pq_indexed q1"
    unfolding pq_indexed_def es1 Let_def
  proof (intro conjI)
    show "indexed (pq_expiry q1) expiry_key (\<lambda>_. True) (?es(h \<mapsto> ?e))"
      using change(1) [OF _ _ keys(1)] ix q1 by (simp add: pq_indexed_def Let_def)
    show "indexed (pq_retry_expiry q1) expiry_key qh_is_retry (?es(h \<mapsto> ?e))"
      using change(1,2) [of expiry_key "pq_retry_expiry q" qh_is_retry, OF _ _ keys(1)] ix q1
      by (cases "qh_is_retry e") (simp_all add: pq_indexed_def Let_def)
    show "indexed (pq_waiting q1) ready_key (\<lambda>e. \<not> qh_ready e) (?es(h \<mapsto> ?e))"
      using change(3) [of ready_key "pq_waiting q" "\<lambda>e. \<not> qh_ready e", OF _ _ keys(2)] ix q1 nr wait
      by (simp add: pq_indexed_def Let_def)
    show "indexed (pq_ready_fresh q1) qh_order_key (\<lambda>e. qh_ready e \<and> \<not> qh_is_retry e) (?es(h \<mapsto> ?e))"
      using change(2,4) [of qh_order_key "pq_ready_fresh q" "\<lambda>e. qh_ready e \<and> \<not> qh_is_retry e", OF _ _ keys(3)] ix q1 nr
      by (cases "qh_is_retry e") (simp_all add: pq_indexed_def Let_def)
    show "indexed (pq_ready_retry q1) ready_key (\<lambda>e. qh_ready e \<and> qh_is_retry e) (?es(h \<mapsto> ?e))"
      using change(2,4) [of ready_key "pq_ready_retry q" "\<lambda>e. qh_ready e \<and> qh_is_retry e", OF _ _ keys(2)] ix q1 nr k
      by (cases "qh_is_retry e") (simp_all add: pq_indexed_def Let_def)
  qed
  moreover have "uniq (?es(h \<mapsto> ?e))" using un e unfolding uniq_def qseq_def by (auto split: if_splits)
  moreover have "hwf (pq_entries q1)" "length (pq_entries q1) = length (pq_entries q)" "pq_retry_expiry q1 = pq_retry_expiry q"
    "pq_capacity q1 = pq_capacity q" "pq_sequence q1 = pq_sequence q"
    using inv e q1 by (simp_all add: Let_def length_hput pq_inv_def)
  moreover have "qseq e1 \<le> pq_sequence q \<and> fst (qh_order_key e1) = qh_latest_at e1" if "(?es(h \<mapsto> ?e)) h1 = Some e1" for h1 e1
    using that inv e by (auto simp: pq_inv_def qseq_def split: if_splits)
  ultimately show ?thesis using inv unfolding pq_inv_def es1 by auto
qed

lemma promote_ready_ok:
  assumes "pq_inv q"
  shows "ok (promote_ready q now) (\<lambda>q'. pq_inv q' \<and> hget (pq_entries q') = settle now (hget (pq_entries q)) \<and>
    pq_sequence q' = pq_sequence q \<and> pq_fresh_dispatches q' = pq_fresh_dispatches q)"
  using assms
proof (induction "length (pq_waiting q)" arbitrary: q rule: less_induct)
  case less
  let ?es = "hget (pq_entries q)"
  have ix: "indexed (pq_waiting q) ready_key (\<lambda>e. \<not> qh_ready e) ?es" using less.prems by (simp add: pq_inv_def pq_indexed_def Let_def)
  have same: "settle now ?es = ?es" if "\<And>h' e'. ?es h' = Some e' \<Longrightarrow> \<not> qh_ready e' \<Longrightarrow> now < qh_ready_at e'"
  proof
    fix h'
    show "settle now ?es h' = ?es h'"
    proof (cases "?es h'")
      case (Some e')
      have "(qh_ready e' \<or> qh_ready_at e' \<le> now) = qh_ready e'" using that [OF Some] by (metis not_le)
      then have "e' \<lparr> qh_ready := (qh_ready e' \<or> qh_ready_at e' \<le> now) \<rparr> = e'" by simp
      then show ?thesis using Some by (simp add: settle_def)
    qed (simp add: settle_def)
  qed
  show ?case
  proof (cases "pq_waiting q")
    case Nil
    then show ?thesis
      using same indexed_empty [OF ix] less.prems by (subst promote_ready.simps) simp
  next
    case (Cons kv waiting)
    obtain k h where kv: "kv = (k, h)" by fastforce
    have first: "bfirst (pq_waiting q) = Some (k, h)" using Cons kv by (simp add: bfirst_def)
    obtain e where e: "?es h = Some e" "ready_key e = k" "\<not> qh_ready e" using indexed_hit [OF ix, of k h] Cons kv by auto
    have least: "k \<le> ready_key e'" if "?es h' = Some e'" "\<not> qh_ready e'" for h' e'
      using indexed_first [OF ix first] e that by auto
    show ?thesis
    proof (cases "now < fst k")
      case True
      have "now < qh_ready_at e'" if "?es h' = Some e'" "\<not> qh_ready e'" for h' e'
        using least [OF that] True by (cases k) (auto simp: ready_key_def)
      then show ?thesis using same Cons kv True less.prems by (subst promote_ready.simps) simp
    next
      case False
      define q1 where "q1 = (let q = q \<lparr> pq_waiting := waiting,
                            pq_entries := hput h (e \<lparr> qh_ready := True \<rparr>) (pq_entries q) \<rparr>
                   in if qh_is_retry e
                         then q \<lparr> pq_ready_retry := bput k h (pq_ready_retry q) \<rparr>
                         else q \<lparr> pq_ready_fresh := bput (qh_order_key e) h (pq_ready_fresh q) \<rparr>)"
      have inv1: "pq_inv q1"
        using promote_step_inv [OF less.prems Cons [unfolded kv] e(1) e(2) [symmetric] e(3) q1_def] .
      have q1: "hget (pq_entries q1) = ?es(h \<mapsto> e \<lparr> qh_ready := True \<rparr>)" "pq_waiting q1 = waiting"
        "pq_sequence q1 = pq_sequence q" "pq_fresh_dispatches q1 = pq_fresh_dispatches q"
        by (simp_all add: q1_def Let_def)
      have "settle now (?es(h \<mapsto> e \<lparr> qh_ready := True \<rparr>)) = settle now ?es"
        using False e by (auto simp: settle_def fun_eq_iff ready_key_def)
      moreover have "ok (promote_ready q1 now) (\<lambda>q'. pq_inv q' \<and> hget (pq_entries q') = settle now (hget (pq_entries q1)) \<and>
          pq_sequence q' = pq_sequence q1 \<and> pq_fresh_dispatches q' = pq_fresh_dispatches q1)"
        using Cons by (intro less.hyps inv1) (simp add: q1)
      moreover have "promote_ready q now = promote_ready q1 now"
        using Cons kv False e(1) by (subst promote_ready.simps) (simp add: q1_def Let_def)
      ultimately show ?thesis by (simp add: q1)
    qed
  qed
qed

text \<open>What \<open>pop_newest_ready\<close> chooses from: the entries that have not expired, with their readiness at \<open>now\<close>.\<close>

definition choices :: "pending_hash_queue \<Rightarrow> instant \<Rightarrow> string \<Rightarrow> queued_hash option" where
  "choices q now = settle now (live now (hget (pq_entries q)))"

definition ready_class :: "bool \<Rightarrow> pending_hash_queue \<Rightarrow> instant \<Rightarrow> queued_hash set" where
  "ready_class is_retry q now = {e \<in> ran (choices q now). qh_ready e \<and> qh_is_retry e = is_retry}"

definition pop_effect :: "pending_hash_queue \<Rightarrow> instant \<Rightarrow> queued_hash option \<Rightarrow> pending_hash_queue \<Rightarrow> bool" where
  "pop_effect q now r q' =
     (let due = ready_class True q now; fresh = ready_class False q now;
          use_retry = (due \<noteq> {} \<and> (3 \<le> pq_fresh_dispatches q \<or> fresh = {})) in
      pq_fresh_dispatches q' = (if use_retry then 0 else min (pq_fresh_dispatches q + 1) 255) \<and>
      (case r of
         None \<Rightarrow> due = {} \<and> fresh = {} \<and> hget (pq_entries q') = choices q now
       | Some e \<Rightarrow>
           hget (pq_entries q') = (choices q now)(qh_info_hash e := None) \<and>
           (if use_retry then e \<in> due \<and> (\<forall>e' \<in> due. ready_key e \<le> ready_key e')
            else e \<in> fresh \<and> (\<forall>e' \<in> fresh. qh_order_key e' \<le> qh_order_key e))))"

lemma indexed_class:
  "indexed m key P es \<Longrightarrow> m = [] \<longleftrightarrow> {e \<in> ran es. P e} = {}"
  using indexed_empty [of m key P es] by (auto simp: ran_def)

lemma pq_fresh_update [simp]:
  "pq_inv (q \<lparr> pq_fresh_dispatches := n \<rparr>) = pq_inv q"
  by (simp add: pq_inv_def pq_indexed_def)

lemma pop_newest_ready_ok:
  assumes "pq_inv q"
  shows "ok (pop_newest_ready q now) (\<lambda>(r, q'). pq_inv q' \<and> pq_sequence q' = pq_sequence q \<and> pop_effect q now r q')"
proof -
  obtain n q1 where q1: "pq_expire q now = Some (n, q1)" "pq_inv q1" "hget (pq_entries q1) = live now (hget (pq_entries q))"
    "pq_sequence q1 = pq_sequence q" "pq_fresh_dispatches q1 = pq_fresh_dispatches q"
    using expire_from_ok [OF assms, of now 0] by (auto simp: ok_iff pq_expire_def)
  obtain q2 where q2: "promote_ready q1 now = Some q2" "pq_inv q2" "hget (pq_entries q2) = choices q now"
    "pq_sequence q2 = pq_sequence q" "pq_fresh_dispatches q2 = pq_fresh_dispatches q"
    using promote_ready_ok [OF q1(2), of now] q1 by (auto simp: ok_iff choices_def)
  have ixr: "indexed (pq_ready_retry q2) ready_key (\<lambda>e. qh_ready e \<and> qh_is_retry e) (choices q now)"
    and ixf: "indexed (pq_ready_fresh q2) qh_order_key (\<lambda>e. qh_ready e \<and> \<not> qh_is_retry e) (choices q now)"
    using q2(2,3) by (simp_all add: pq_inv_def pq_indexed_def Let_def)
  have due: "pq_ready_retry q2 = [] \<longleftrightarrow> ready_class True q now = {}" and fresh: "pq_ready_fresh q2 = [] \<longleftrightarrow> ready_class False q now = {}"
    using indexed_class [OF ixr] indexed_class [OF ixf] by (simp_all add: ready_class_def)
  define use_retry where "use_retry \<longleftrightarrow> pq_ready_retry q2 \<noteq> [] \<and> (3 \<le> pq_fresh_dispatches q \<or> pq_ready_fresh q2 = [])"
  have ur: "(ready_class True q now \<noteq> {} \<and> (3 \<le> pq_fresh_dispatches q \<or> ready_class False q now = {})) = use_retry"
    unfolding use_retry_def due fresh ..
  define q3 where "q3 = q2 \<lparr> pq_fresh_dispatches := (if use_retry then 0 else min (pq_fresh_dispatches q + 1) 255) \<rparr>"
  have q3: "pq_inv q3" "pq_sequence q3 = pq_sequence q" "hget (pq_entries q3) = choices q now"
    "pq_ready_retry q3 = pq_ready_retry q2" "pq_ready_fresh q3 = pq_ready_fresh q2"
    "pq_fresh_dispatches q3 = (if use_retry then 0 else min (pq_fresh_dispatches q + 1) 255)"
    using q2 by (simp_all add: q3_def)
  have pop: "pop_newest_ready q now = (if use_retry then
        (case bfirst (pq_ready_retry q3) of None \<Rightarrow> Some (None, q3) | Some (_, hash) \<Rightarrow> Some (pq_remove q3 hash))
      else (case blast_entry (pq_ready_fresh q3) of None \<Rightarrow> Some (None, q3) | Some (_, hash) \<Rightarrow> Some (pq_remove q3 hash)))"
    unfolding q3_def use_retry_def using q1(1) q2(1,5)
    by (auto simp: pop_newest_ready_def Let_def split: option.split)
  have name: "qh_info_hash e = h" if "choices q now h = Some e" for h e
    using that q3(1,3) by (simp add: pq_inv_def uniq_def)
  have served: "pq_inv (snd (pq_remove q3 h)) \<and> pq_sequence (snd (pq_remove q3 h)) = pq_sequence q \<and>
      fst (pq_remove q3 h) = Some e \<and> hget (pq_entries (snd (pq_remove q3 h))) = (choices q now)(qh_info_hash e := None) \<and>
      pq_fresh_dispatches (snd (pq_remove q3 h)) = pq_fresh_dispatches q3" if "choices q now h = Some e" for h e
    using that name [OF that] pq_remove_inv(1) [OF q3(1), of h] by (simp add: pq_remove_entries q3(2,3))
  show ?thesis
  proof (cases use_retry)
    case True
    then obtain kh where "bfirst (pq_ready_retry q3) = Some kh"
      by (cases "pq_ready_retry q2") (auto simp: use_retry_def q3(4) bfirst_def)
    then obtain k h where h: "bfirst (pq_ready_retry q3) = Some (k, h)" by (cases kh) simp
    obtain e where e: "choices q now h = Some e" "qh_ready e \<and> qh_is_retry e"
      "\<forall>h' e'. choices q now h' = Some e' \<longrightarrow> qh_ready e' \<and> qh_is_retry e' \<longrightarrow> ready_key e \<le> ready_key e'"
      using indexed_first [OF ixr, of k h] h q3(4) by auto
    have "e \<in> ready_class True q now" "\<forall>e' \<in> ready_class True q now. ready_key e \<le> ready_key e'"
      using e by (auto simp: ready_class_def ran_def)
    then show ?thesis
      using True pop h served [OF e(1)] q3(6)
      by (simp add: pop_effect_def Let_def ur case_prod_beta)
  next
    case no: False
    show ?thesis
    proof (cases "blast_entry (pq_ready_fresh q3)")
      case None
      then have "pq_ready_fresh q2 = []" by (auto simp: q3(5) blast_entry_def split: if_splits)
      then have "ready_class False q now = {}" "ready_class True q now = {}"
        using no due fresh by (auto simp: use_retry_def)
      then show ?thesis
        using no pop None q3 by (simp add: pop_effect_def)
    next
      case (Some kh)
      obtain k h where h: "kh = (k, h)" by fastforce
      obtain e where e: "choices q now h = Some e" "qh_ready e \<and> \<not> qh_is_retry e"
        "\<forall>h' e'. choices q now h' = Some e' \<longrightarrow> qh_ready e' \<and> \<not> qh_is_retry e' \<longrightarrow> qh_order_key e' \<le> qh_order_key e"
        using indexed_last [OF ixf, of k h] Some h q3(5) by auto
      have "e \<in> ready_class False q now" "\<forall>e' \<in> ready_class False q now. qh_order_key e' \<le> qh_order_key e"
        using e by (auto simp: ready_class_def ran_def)
      then show ?thesis
        using no pop Some h served [OF e(1)] q3(6)
        by (simp add: pop_effect_def Let_def ur case_prod_beta)
    qed
  qed
qed

subsection \<open>What stays fixed\<close>

lemma promote_ready_capacity: "promote_ready q now = Some q' \<Longrightarrow> pq_capacity q' = pq_capacity q"
proof (induction q now rule: promote_ready.induct)
  case (1 q now)
  note step = 1(2) [unfolded promote_ready.simps [of q now]]
  show ?case
  proof (cases "pq_waiting q")
    case (Cons kv waiting)
    obtain k h where kv: "kv = (k, h)" by fastforce
    show ?thesis
    proof (cases "now < fst k \<or> hget (pq_entries q) h = None")
      case False
      then obtain e where e: "\<not> now < fst k" "hget (pq_entries q) h = Some e" by auto
      show ?thesis
        using 1(1) [OF Cons kv [symmetric] e refl refl] step Cons kv e by (simp add: Let_def split: if_splits)
    qed (use step Cons kv in \<open>auto split: if_splits\<close>)
  qed (use step in simp)
qed

lemma expire_from_capacity:
  assumes "expire_from q now n = Some r"
  shows "pq_capacity (snd r) = pq_capacity q"
  by (rule expire_from.raw_induct [where P = "\<lambda>q _ _ r. pq_capacity (snd r) = pq_capacity q", OF _ assms])
    (auto simp: pq_remove_entries split: list.splits if_splits)

lemma pq_remove_capacity: "pq_remove q h = (r, q') \<Longrightarrow> pq_capacity q' = pq_capacity q"
  using pq_remove_entries(4) [of q h] by (cases "pq_remove q h") simp

lemma pop_newest_ready_capacity:
  assumes "pop_newest_ready q now = Some (r, q')"
  shows "pq_capacity q' = pq_capacity q"
proof -
  obtain n q1 q2 where q1: "pq_expire q now = Some (n, q1)" and q2: "promote_ready q1 now = Some q2"
    using assms by (auto simp: pop_newest_ready_def bind_eq_Some_conv)
  have same: "pq_capacity q2 = pq_capacity q"
    using expire_from_capacity [of q now 0 "(n, q1)"] q1 promote_ready_capacity [OF q2] by (simp add: pq_expire_def)
  have "pq_capacity q' = pq_capacity q2"
    using assms q1 q2
    by (auto simp: pop_newest_ready_def Let_def split: if_splits option.splits dest!: pq_remove_capacity)
  then show ?thesis using same by simp
qed

lemma pq_push_capacity: "pq_push q ev now = Some (kind, q') \<Longrightarrow> pq_capacity q' = pq_capacity q"
  using pq_remove_entries(4) [of q "hd_info_hash ev"]
  by (cases "pq_remove q (hd_info_hash ev)")
    (auto simp: pq_push_def Let_def pq_insert_entries pq_remove_entries bind_eq_Some_conv split: if_splits option.splits)

lemma pq_defer_capacity: "pq_capacity (snd (pq_defer q e r)) = pq_capacity q"
  by (simp add: pq_defer_def Let_def pq_insert_entries pq_remove_entries)

lemma pq_defer_hashes:
  "pq_hashes (snd (pq_defer q e r)) =
     (if fst (pq_defer q e r) then insert (qh_info_hash e) (pq_hashes q) else pq_hashes q - {qh_info_hash e})"
  by (auto simp: pq_defer_def Let_def pq_hashes_insert pq_hashes_remove)

subsection \<open>Runs\<close>

datatype queue_op =
    PushHash hash_discovered instant
  | RemoveHash string
  | DeferHash queued_hash retry_record
  | PromoteReady instant
  | ExpireHashes instant
  | PopReady instant

fun queue_step :: "pending_hash_queue \<Rightarrow> queue_op \<Rightarrow> pending_hash_queue option" where
  "queue_step q (PushHash ev now) = map_option snd (pq_push q ev now)"
| "queue_step q (RemoveHash h) = Some (snd (pq_remove q h))"
| "queue_step q (DeferHash e r) = Some (snd (pq_defer q e r))"
| "queue_step q (PromoteReady now) = promote_ready q now"
| "queue_step q (ExpireHashes now) = map_option snd (pq_expire q now)"
| "queue_step q (PopReady now) = map_option snd (pop_newest_ready q now)"

lemma queue_step_ok:
  assumes "pq_inv q" and "pq_sequence q + 1 < 2 ^ 64"
  shows "ok (queue_step q oper) (\<lambda>q'. pq_inv q' \<and> pq_sequence q' \<le> pq_sequence q + 1)"
proof (cases oper)
  case (PushHash ev now)
  then show ?thesis by (auto intro: ok_mono [OF pq_push_ok [OF assms]])
next
  case (RemoveHash h)
  then show ?thesis using pq_remove_inv(1) [OF assms(1)] by (simp add: pq_remove_entries)
next
  case (DeferHash e r)
  then show ?thesis using pq_defer_ok [OF assms] by simp
next
  case (PromoteReady now)
  then show ?thesis by (auto intro: ok_mono [OF promote_ready_ok [OF assms(1)]])
next
  case (ExpireHashes now)
  then show ?thesis by (auto simp: pq_expire_def intro: ok_mono [OF expire_from_ok [OF assms(1)]])
next
  case (PopReady now)
  then show ?thesis by (auto intro: ok_mono [OF pop_newest_ready_ok [OF assms(1)]])
qed

text \<open>What a queue uses up is its 64-bit sequence number.\<close>

interpretation pq: budgeted_machine queue_step pq_inv pq_sequence 1 "2 ^ 64"
  by unfold_locales (rule queue_step_ok)

fun queue_run :: "pending_hash_queue \<Rightarrow> queue_op list \<Rightarrow> pending_hash_queue option" where
  "queue_run q [] = Some q"
| "queue_run q (oper # ops) = Option.bind (queue_step q oper) (\<lambda>q'. queue_run q' ops)"

lemma queue_run_eq: "queue_run q ops = pq.run q ops"
  by (induction ops arbitrary: q) simp_all

lemma queue_run_ok:
  assumes "pq_inv q" and "pq_sequence q + length ops < 2 ^ 64"
  shows "ok (queue_run q ops) pq_inv"
  unfolding queue_run_eq by (rule ok_mono [OF pq.run_within [OF assms(1)]]) (use assms(2) in simp_all)

lemma queue_reachable:
  assumes "queue_run (pq_new capacity ttl) ops = Some q" and "length ops + 1 < 2 ^ 64"
  shows "pq_inv q" and "pq_sequence q + 1 < 2 ^ 64"
proof -
  have "pq_sequence (pq_new capacity ttl) = 0" by (simp add: pq_new_def)
  then have "pq_inv q \<and> pq_sequence q \<le> length ops"
    using pq.run_within [OF pq_new_inv, of capacity ttl ops] assms by (simp add: queue_run_eq)
  then show "pq_inv q" and "pq_sequence q + 1 < 2 ^ 64" using assms(2) by simp_all
qed

definition queue_bounded :: "pending_hash_queue \<Rightarrow> bool" where
  "queue_bounded q =
     (length (pq_entries q) \<le> pq_capacity q \<and> distinct (map fst (pq_entries q)) \<and>
      length (pq_expiry q) = length (pq_entries q) \<and>
      length (pq_waiting q) + length (pq_ready_fresh q) + length (pq_ready_retry q) = length (pq_entries q) \<and>
      length (pq_retry_expiry q) = length (filter (\<lambda>(_, e). qh_is_retry e) (pq_entries q)) \<and>
      length (pq_retry_expiry q) \<le> max (pq_capacity q div 4) 1)"

text \<open>Each map has one entry per indexed hash.\<close>

lemma indexed_length:
  assumes "hwf es" and "indexed m key P (hget es)" and "seq_key key" and "uniq (hget es)"
  shows "length m = length (filter (\<lambda>(_, e). P e) es)"
proof -
  let ?fs = "filter (\<lambda>(_, e). P e) es"
  have "bij_betw (\<lambda>(h, e). (key e, h)) (set ?fs) (set m)"
    unfolding bij_betw_def
  proof
    show "inj_on (\<lambda>(h, e). (key e, h)) (set ?fs)"
      using assms(1) by (auto simp: inj_on_def hget_in_set [symmetric])
    show "(\<lambda>(h, e). (key e, h)) ` set ?fs = set m"
      using assms(1,2) by (force simp: indexed_def image_index_def hget_in_set)
  qed
  then have "card (set ?fs) = card (set m)" by (rule bij_betw_same_card)
  moreover have "distinct ?fs" using assms(1) by (simp add: hwf_def distinct_map)
  moreover have "distinct m" using assms(2) bwf_distinct [of m] by (simp add: indexed_def distinct_map)
  ultimately show ?thesis by (metis distinct_card)
qed

lemma filter_three:
  "length (filter (\<lambda>(_, e). \<not> P e) es) + length (filter (\<lambda>(_, e). P e \<and> \<not> Q e) es) +
   length (filter (\<lambda>(_, e). P e \<and> Q e) es) = length es"
  by (induction es) auto

lemma pq_inv_bounded:
  assumes "pq_inv q"
  shows "queue_bounded q"
proof -
  let ?es = "pq_entries q"
  have len: "length m = length (filter (\<lambda>(_, e). P e) ?es)" if "indexed m key P (hget ?es)" "seq_key key" for m key P
    using indexed_length [OF _ that] assms by (simp add: pq_inv_def)
  have ix: "pq_indexed q" using assms by (simp add: pq_inv_def)
  note filter_three [of qh_ready ?es qh_is_retry]
  moreover have "length (filter (\<lambda>(_, e). True) ?es) = length ?es" by (simp add: case_prod_beta)
  ultimately show ?thesis
    using assms ix len [of "pq_expiry q" expiry_key "\<lambda>_. True"] len [of "pq_retry_expiry q" expiry_key qh_is_retry]
      len [of "pq_waiting q" ready_key "\<lambda>e. \<not> qh_ready e"]
      len [of "pq_ready_fresh q" qh_order_key "\<lambda>e. qh_ready e \<and> \<not> qh_is_retry e"]
      len [of "pq_ready_retry q" ready_key "\<lambda>e. qh_ready e \<and> qh_is_retry e"]
    by (simp add: queue_bounded_def pq_inv_def pq_indexed_def Let_def hwf_def)
qed

text \<open>
  C21. The queue under any sequence of fewer than \<open>2 ^ 64\<close> operations (additions, removals, deferrals,
  promotions, expiry, serving): no operation panics on a dangling index and every loop ends; the
  queue never holds more hashes than its capacity nor more retries than a quarter of it (one at
  least); and its five ordered maps always have exactly one entry for each hash they should index.
\<close>

theorem hash_queue_safe:
  assumes "length ops < 2 ^ 64"
  shows "ok (queue_run (pq_new capacity ttl) ops) queue_bounded"
proof -
  have "ok (queue_run (pq_new capacity ttl) ops) pq_inv"
    using assms by (intro queue_run_ok pq_new_inv) (simp add: pq_new_def)
  then show ?thesis by (rule ok_mono) (rule pq_inv_bounded)
qed

definition sample_event :: "string \<Rightarrow> instant \<Rightarrow> hash_discovered" where
  "sample_event h t = \<lparr> hd_info_hash = h, hd_peer_addr = Some (SockV4 [8, 8, 8, 8] 6881), hd_source_node = None,
                       hd_source = Announce, hd_discovered_at = t \<rparr>"

theorem hash_queue_safe_witness:
  "ok (queue_run (pq_new 1 (secs 60)) [PushHash (sample_event ''a'' 5) 5, PushHash (sample_event ''b'' 6) 7, PopReady (secs 1)]) queue_bounded"
  using hash_queue_safe [of "[PushHash (sample_event ''a'' 5) 5, PushHash (sample_event ''b'' 6) 7, PopReady (secs 1)]" 1 "secs 60"]
  by simp



text \<open>
  C23. Whom a reachable queue serves. Among the hashes that have not expired and are ready at \<open>now\<close>,
  \<open>pop_newest_ready\<close> serves the retry that has been due longest if a retry is due and either three
  fresh hashes were served since the last retry or no fresh hash is ready; otherwise it serves the
  fresh hash discovered last. It serves nothing only if nothing is ready, so no class of hashes can
  starve the other, and it removes exactly the served and the expired hashes.
\<close>

theorem hash_queue_pop:
  assumes "queue_run (pq_new capacity ttl) ops = Some q" and "length ops + 1 < 2 ^ 64"
  shows "ok (pop_newest_ready q now) (\<lambda>(r, q'). pop_effect q now r q')"
  by (rule ok_mono [OF pop_newest_ready_ok [OF queue_reachable(1) [OF assms]]]) auto

theorem hash_queue_pop_witness:
  "\<exists>q. queue_run (pq_new 4 (secs 60)) [PushHash (sample_event ''a'' 5) 5, PushHash (sample_event ''b'' 6) 7] = Some q \<and>
     ok (pop_newest_ready q (secs 1)) (\<lambda>(r, q'). pop_effect q (secs 1) r q' \<and> map_option qh_info_hash r = Some ''b'')"
proof -
  let ?ops = "[PushHash (sample_event ''a'' 5) 5, PushHash (sample_event ''b'' 6) 7]"
  obtain q where q: "queue_run (pq_new 4 (secs 60)) ?ops = Some q"
    using queue_run_ok [OF pq_new_inv, of 4 "secs 60" ?ops] by (auto simp: ok_iff pq_new_def)
  have "Option.bind (queue_run (pq_new 4 (secs 60)) ?ops)
      (\<lambda>q. map_option (\<lambda>(r, q'). map_option qh_info_hash r) (pop_newest_ready q (secs 1))) = Some (Some ''b'')" by code_simp
  then have "map_option (\<lambda>(r, q'). map_option qh_info_hash r) (pop_newest_ready q (secs 1)) = Some (Some ''b'')"
    unfolding q by simp
  then show ?thesis using q hash_queue_pop [OF q, of "secs 1"] by (auto simp: ok_iff)
qed

end
