(* ===== verification/Retry_History.thy ===== *)
theory Retry_History
  imports Hash_Queue Ttl_Cache Options "HOL-Library.Char_ord"
begin

text \<open>
  \<open>RetryHistory\<close> of \<open>src/src/scheduler.rs\<close>: how often a metadata job for a hash has failed, when it may
  be tried again, and until when that is remembered. The entries live in a hash map; an ordered set
  of (expiry, hash) pairs finds the expired ones.

  Results: the history is one of the program's deadline caches (\<open>ttl_cache\<close>): no operation panics, it
  stays within its capacity, and the lifetime of a record is fixed when it is created, so that no
  later failure, announcement or deferral extends it. The delay before a retry follows the
  configured exponential back-off, and no hash gets more than two extra attempts.
\<close>

subsection \<open>Operations\<close>

definition MAX_RETRY_LIFETIME :: duration where
  "MAX_RETRY_LIFETIME = secs (7 * 24 * 60 * 60)"

definition retry_deadline :: "instant \<Rightarrow> duration \<Rightarrow> instant" where
  "retry_deadline now delay = now + min delay MAX_RETRY_LIFETIME"

definition attempt_limit :: "retry_record \<Rightarrow> metadata_options \<Rightarrow> nat" where
  "attempt_limit r policy = sat_add64 (retry_max_attempts policy) (rr_extra_attempts r)"

record retry_state =
  rst_record :: retry_record
  rst_peers :: "socket_addr list"
  rst_sources :: "socket_addr list"

definition observe_one :: "socket_addr option \<Rightarrow> socket_addr list \<Rightarrow> nat \<Rightarrow> bool \<times> socket_addr list" where
  "observe_one candidate seen capacity =
     (case candidate of
        None \<Rightarrow> (False, seen)
      | Some addr \<Rightarrow>
          if addr \<in> set seen then (False, seen)
          else (True, if length seen < capacity then seen @ [addr] else seen))"

definition observe :: "retry_state \<Rightarrow> socket_addr option \<Rightarrow> socket_addr option \<Rightarrow> bool \<times> retry_state" where
  "observe st peer source =
     (let (novel_peer, peers) = observe_one peer (rst_peers st) MAX_METADATA_CANDIDATES_PER_HASH;
          (novel_source, sources) = observe_one source (rst_sources st) 8
      in (novel_peer \<or> novel_source, st \<lparr> rst_peers := peers, rst_sources := sources \<rparr>))"

record retry_history =
  rh_entries :: "(string, retry_state) hmap"
  rh_expiry :: "(instant \<times> string) list"

definition rh_default :: retry_history where
  "rh_default = \<lparr> rh_entries = [], rh_expiry = [] \<rparr>"

function rh_expire :: "retry_history \<Rightarrow> instant \<Rightarrow> retry_history" where
  "rh_expire rh now =
     (case rh_expiry rh of
        [] \<Rightarrow> rh
      | (due, hash) # expiry \<Rightarrow>
          if now < due then rh
          else rh_expire (rh \<lparr> rh_expiry := expiry, rh_entries := hdel hash (rh_entries rh) \<rparr>) now)"
  by pat_completeness auto
termination by (relation "measure (\<lambda>(rh, _). length (rh_expiry rh))") auto

declare rh_expire.simps [simp del]

definition rh_remove :: "retry_history \<Rightarrow> string \<Rightarrow> retry_history" where
  "rh_remove rh hash =
     (case hget (rh_entries rh) hash of
        None \<Rightarrow> rh
      | Some state \<Rightarrow> rh \<lparr> rh_entries := hdel hash (rh_entries rh),
                          rh_expiry := sdel (rr_expires_at (rst_record state), hash) (rh_expiry rh) \<rparr>)"

definition retry_backoff :: "metadata_options \<Rightarrow> nat \<Rightarrow> duration" where
  "retry_backoff policy failures =
     (let multiplier = 2 ^ min (failures - 1) 31
      in secs (min (min (retry_initial_delay_secs policy * multiplier) (2 ^ 64 - 1)) (retry_max_delay_secs policy)))"

text \<open>\<open>None\<close> outside is a panic (\<open>unwrap\<close> of a missing entry), \<open>None\<close> inside a full history.\<close>

definition rh_record ::
  "retry_history \<Rightarrow> string \<Rightarrow> instant \<Rightarrow> bool \<Rightarrow> duration \<Rightarrow> metadata_options \<Rightarrow>
   (retry_record option \<times> retry_history) option" where
  "rh_record rh hash now failed delay policy =
     (let rh = rh_expire rh now in
      if hget (rh_entries rh) hash = None \<and> retry_history_capacity policy \<le> length (rh_entries rh) then Some (None, rh)
      else let rh = (if hget (rh_entries rh) hash = None then
               let due = retry_deadline now (secs (retry_history_ttl_secs policy)) in
               rh \<lparr> rh_entries := hput hash
                      \<lparr> rst_record = \<lparr> rr_failures = 0, rr_next_due = now, rr_expires_at = due, rr_extra_attempts = 0 \<rparr>,
                        rst_peers = [], rst_sources = [] \<rparr> (rh_entries rh),
                    rh_expiry := sput (due, hash) (rh_expiry rh) \<rparr>
             else rh)
        in do {
          state \<leftarrow> hget (rh_entries rh) hash;
          let r = rst_record state;
          let r = (if failed then r \<lparr> rr_failures := sat_add64 (rr_failures r) 1 \<rparr> else r);
          let backoff = (if failed then retry_backoff policy (rr_failures r) else delay);
          let r = r \<lparr> rr_next_due := retry_deadline now (max backoff (millis 100)) \<rparr>;
          Some (Some r, rh \<lparr> rh_entries := hput hash (state \<lparr> rst_record := r \<rparr>) (rh_entries rh) \<rparr>)
        })"

definition observe_event ::
  "retry_history \<Rightarrow> hash_discovered \<Rightarrow> instant \<Rightarrow> metadata_options \<Rightarrow> retry_record option \<times> retry_history" where
  "observe_event rh event now policy =
     (let rh = rh_expire rh now in
      case hget (rh_entries rh) (hd_info_hash event) of
        None \<Rightarrow> (None, rh)
      | Some state \<Rightarrow>
          let (novel, state) = observe state (hd_peer_addr event) (map_option nt_addr (hd_source_node event));
              r = rst_record state;
              r = (if attempt_limit r policy \<le> rr_failures r \<and> novel \<and> rr_extra_attempts r < 2 \<and> 0 < retry_max_attempts policy
                   then r \<lparr> rr_extra_attempts := rr_extra_attempts r + 1,
                            rr_next_due := retry_deadline now (max (secs (retry_initial_delay_secs policy)) (millis 100)) \<rparr>
                   else r)
          in (Some r, rh \<lparr> rh_entries := hput (hd_info_hash event) (state \<lparr> rst_record := r \<rparr>) (rh_entries rh) \<rparr>))"

definition remember :: "retry_history \<Rightarrow> queued_hash \<Rightarrow> retry_history" where
  "remember rh entry =
     (case hget (rh_entries rh) (qh_info_hash entry) of
        None \<Rightarrow> rh
      | Some state \<Rightarrow>
          let state = fold (\<lambda>peer st. snd (observe st (Some (pc_addr peer)) None)) (qh_peers entry) state;
              state = fold (\<lambda>node st. snd (observe st None (Some (nt_addr node)))) (qh_source_nodes entry) state
          in rh \<lparr> rh_entries := hput (qh_info_hash entry) state (rh_entries rh) \<rparr>)"

subsection \<open>The invariant\<close>

definition rh_lifetime :: "retry_history \<Rightarrow> string \<Rightarrow> instant option" where
  "rh_lifetime rh h = map_option (\<lambda>st. rr_expires_at (rst_record st)) (hget (rh_entries rh) h)"

definition state_wf :: "retry_state \<Rightarrow> bool" where
  "state_wf st = (rr_extra_attempts (rst_record st) \<le> 2 \<and>
     length (rst_peers st) \<le> MAX_METADATA_CANDIDATES_PER_HASH \<and> length (rst_sources st) \<le> 8)"

definition rh_inv :: "nat \<Rightarrow> retry_history \<Rightarrow> bool" where
  "rh_inv cap rh =
     (hwf (rh_entries rh) \<and> swf (rh_expiry rh) \<and>
      (\<forall>t h. (t, h) \<in> set (rh_expiry rh) \<longleftrightarrow> rh_lifetime rh h = Some t) \<and>
      (\<forall>h st. hget (rh_entries rh) h = Some st \<longrightarrow> state_wf st) \<and>
      length (rh_entries rh) \<le> cap)"

lemma rh_inv_default: "rh_inv cap rh_default"
  by (simp add: rh_inv_def rh_default_def rh_lifetime_def)

lemma rh_expire_spec:
  assumes "rh_inv cap rh"
  shows "rh_inv cap (rh_expire rh now) \<and>
    hget (rh_entries (rh_expire rh now)) = (\<lambda>h. if (\<exists>t \<le> now. rh_lifetime rh h = Some t) then None else hget (rh_entries rh) h)"
  using assms
proof (induction rh now rule: rh_expire.induct)
  case (1 rh now)
  show ?case
  proof (cases "rh_expiry rh")
    case Nil
    then have "rh_lifetime rh h = None" for h using 1(2) by (cases "rh_lifetime rh h") (auto simp: rh_inv_def)
    then show ?thesis using 1(2) Nil by (simp add: rh_expire.simps [of rh])
  next
    case (Cons p expiry)
    obtain due hash where p: "p = (due, hash)" by fastforce
    have member: "(t, h) \<in> set (rh_expiry rh) \<longleftrightarrow> rh_lifetime rh h = Some t" for t h
      using 1(2) by (simp add: rh_inv_def)
    have sorted: "swf ((due, hash) # expiry)" using 1(2) Cons p by (simp add: rh_inv_def)
    have first: "due \<le> t" if "rh_lifetime rh h = Some t" for h t
      using that member [of t h] swf_first_less [OF sorted] Cons p by fastforce
    show ?thesis
    proof (cases "now < due")
      case True
      have "\<not> (\<exists>t \<le> now. rh_lifetime rh h = Some t)" for h using first [of h] True by fastforce
      then show ?thesis using 1(2) Cons p True by (subst (1 2) rh_expire.simps) (auto simp: fun_eq_iff)
    next
      case False
      let ?rh = "rh \<lparr> rh_expiry := expiry, rh_entries := hdel hash (rh_entries rh) \<rparr>"
      have life: "rh_lifetime ?rh h = (if h = hash then None else rh_lifetime rh h)" for h by (simp add: rh_lifetime_def)
      have here: "rh_lifetime rh hash = Some due" using member [of due hash] Cons p by simp
      have "(t, h) \<in> set expiry \<longleftrightarrow> rh_lifetime ?rh h = Some t" for t h
        using member [of t h] Cons p here sorted unfolding life by (auto simp: swf_iff)
      moreover have "length (hdel hash (rh_entries rh)) \<le> cap"
        using 1(2) length_hdel_le [of hash "rh_entries rh"] by (simp add: rh_inv_def)
      ultimately have inv: "rh_inv cap ?rh"
        using 1(2) sorted by (auto simp: rh_inv_def swf_def split: if_splits)
      have step: "rh_expire rh now = rh_expire ?rh now" using Cons p False by (subst rh_expire.simps) simp
      have "rh_inv cap (rh_expire ?rh now) \<and>
          hget (rh_entries (rh_expire ?rh now)) = (\<lambda>h. if (\<exists>t \<le> now. rh_lifetime ?rh h = Some t) then None else hget (rh_entries ?rh) h)"
        using 1(1) [OF Cons p [symmetric] False inv] .
      then show ?thesis
        unfolding step life using here False by (auto simp: fun_eq_iff not_less)
    qed
  qed
qed


lemma rh_inv_expire: "rh_inv cap rh \<Longrightarrow> rh_inv cap (rh_expire rh now)"
  using rh_expire_spec by blast

lemma rh_lifetime_expire:
  "rh_inv cap rh \<Longrightarrow> rh_lifetime (rh_expire rh now) h =
     (case rh_lifetime rh h of None \<Rightarrow> None | Some d \<Rightarrow> if d \<le> now then None else Some d)"
  using rh_expire_spec [of cap rh now] by (auto simp: rh_lifetime_def split: option.split)

lemma hget_expire_live:
  "rh_inv cap rh \<Longrightarrow> now < rr_expires_at (rst_record st) \<Longrightarrow> hget (rh_entries rh) h = Some st \<Longrightarrow>
   hget (rh_entries (rh_expire rh now)) h = Some st"
  using rh_expire_spec [of cap rh now] by (auto simp: rh_lifetime_def)

lemma hget_expire_Some:
  "rh_inv cap rh \<Longrightarrow> hget (rh_entries (rh_expire rh now)) h = Some st \<longleftrightarrow>
   hget (rh_entries rh) h = Some st \<and> now < rr_expires_at (rst_record st)"
  using rh_expire_spec [of cap rh now] by (auto simp: rh_lifetime_def not_le split: if_splits)

lemma rh_lifetime_same:
  assumes "hget (rh_entries rh) h = Some st" and "rr_expires_at (rst_record st') = rr_expires_at (rst_record st)"
  shows "rh_lifetime (rh \<lparr> rh_entries := hput h st' (rh_entries rh) \<rparr>) = rh_lifetime rh"
  using assms by (auto simp: rh_lifetime_def fun_eq_iff)

lemma rh_inv_update:
  assumes "rh_inv cap rh" and "hget (rh_entries rh) h = Some st"
    and "rr_expires_at (rst_record st') = rr_expires_at (rst_record st)" and "state_wf st'"
  shows "rh_inv cap (rh \<lparr> rh_entries := hput h st' (rh_entries rh) \<rparr>)"
  unfolding rh_inv_def rh_lifetime_same [OF assms(2,3)]
  using assms by (auto simp: rh_inv_def length_hput)

lemma rh_inv_create:
  assumes "rh_inv cap rh" and "hget (rh_entries rh) h = None" and "length (rh_entries rh) < cap" and "state_wf st"
  shows "rh_inv cap (rh \<lparr> rh_entries := hput h st (rh_entries rh),
                          rh_expiry := sput (rr_expires_at (rst_record st), h) (rh_expiry rh) \<rparr>)"
proof -
  have "rh_lifetime rh h = None" using assms(2) by (simp add: rh_lifetime_def)
  moreover have "rh_lifetime (rh \<lparr> rh_entries := hput h st (rh_entries rh), rh_expiry := x \<rparr>) =
      (rh_lifetime rh)(h \<mapsto> rr_expires_at (rst_record st))" for x
    by (auto simp: rh_lifetime_def)
  ultimately show ?thesis using assms by (auto simp: rh_inv_def length_hput)
qed

lemma rh_remove_spec:
  assumes "rh_inv cap rh"
  shows "rh_inv cap (rh_remove rh h)" and "hget (rh_entries (rh_remove rh h)) = (hget (rh_entries rh))(h := None)"
proof -
  show "hget (rh_entries (rh_remove rh h)) = (hget (rh_entries rh))(h := None)"
    by (auto simp: rh_remove_def split: option.split)
  then have "rh_lifetime (rh_remove rh h) = (rh_lifetime rh)(h := None)" by (auto simp: rh_lifetime_def)
  then show "rh_inv cap (rh_remove rh h)"
    using assms length_hdel_le [of h "rh_entries rh"]
    by (auto simp: rh_inv_def rh_remove_def rh_lifetime_def split: option.splits if_splits)
qed

lemma observe_spec:
  assumes "observe st peer source = (novel, st')"
  shows "rst_record st' = rst_record st" and "state_wf st \<Longrightarrow> state_wf st'"
  using assms by (auto simp: observe_def observe_one_def state_wf_def Let_def split: option.splits if_splits)

lemma fold_observe_spec:
  "rst_record (fold (\<lambda>x st. snd (observe st (f x) (g x))) xs st) = rst_record st \<and>
   (state_wf st \<longrightarrow> state_wf (fold (\<lambda>x st. snd (observe st (f x) (g x))) xs st))"
proof (induction xs arbitrary: st)
  case (Cons x xs)
  obtain n st' where o: "observe st (f x) (g x) = (n, st')" by fastforce
  show ?case using Cons [of st'] observe_spec [OF o] by (auto simp: o)
qed simp

lemma remember_spec:
  assumes "rh_inv cap rh"
  shows "rh_inv cap (remember rh entry)" and "rh_lifetime (remember rh entry) = rh_lifetime rh"
    and "map_option rst_record (hget (rh_entries (remember rh entry)) h) = map_option rst_record (hget (rh_entries rh) h)"
proof -
  let ?h = "qh_info_hash entry"
  have "rh_inv cap (remember rh entry) \<and> rh_lifetime (remember rh entry) = rh_lifetime rh \<and>
      map_option rst_record (hget (rh_entries (remember rh entry)) h) = map_option rst_record (hget (rh_entries rh) h)"
  proof (cases "hget (rh_entries rh) ?h")
    case (Some st)
    define st1 where "st1 = fold (\<lambda>peer st. snd (observe st (Some (pc_addr peer)) None)) (qh_peers entry) st"
    define st2 where "st2 = fold (\<lambda>node st. snd (observe st None (Some (nt_addr node)))) (qh_source_nodes entry) st1"
    have wf: "state_wf st" using assms Some by (auto simp: rh_inv_def)
    have st2: "rst_record st2 = rst_record st" "state_wf st2"
      using wf fold_observe_spec [of "\<lambda>p. Some (pc_addr p)" "\<lambda>_. None" "qh_peers entry" st]
        fold_observe_spec [of "\<lambda>_. None" "\<lambda>n. Some (nt_addr n)" "qh_source_nodes entry" st1]
      by (simp_all add: st1_def [symmetric] st2_def [symmetric])
    have eq: "remember rh entry = rh \<lparr> rh_entries := hput ?h st2 (rh_entries rh) \<rparr>"
      by (simp add: remember_def Some st1_def st2_def Let_def)
    show ?thesis unfolding eq
      using rh_inv_update [OF assms Some, of st2] rh_lifetime_same [OF Some, of st2] st2 Some by auto
  qed (simp add: remember_def assms)
  then show "rh_inv cap (remember rh entry)" and "rh_lifetime (remember rh entry) = rh_lifetime rh"
    and "map_option rst_record (hget (rh_entries (remember rh entry)) h) = map_option rst_record (hget (rh_entries rh) h)"
    by blast+
qed

lemma observe_event_spec:
  assumes "rh_inv cap rh" and "observe_event rh event now policy = (r, rh')"
  shows "rh_inv cap rh'" and "rh_lifetime rh' = rh_lifetime (rh_expire rh now)"
    and "r = map_option rst_record (hget (rh_entries rh') (hd_info_hash event))"
proof -
  let ?h = "hd_info_hash event" and ?rh = "rh_expire rh now"
  have inv: "rh_inv cap ?rh" by (rule rh_inv_expire [OF assms(1)])
  have "rh_inv cap rh' \<and> rh_lifetime rh' = rh_lifetime ?rh \<and> r = map_option rst_record (hget (rh_entries rh') ?h)"
  proof (cases "hget (rh_entries ?rh) ?h")
    case None
    then show ?thesis using assms(2) inv by (auto simp: observe_event_def Let_def)
  next
    case (Some st)
    obtain novel st1 where o: "observe st (hd_peer_addr event) (map_option nt_addr (hd_source_node event)) = (novel, st1)"
      by fastforce
    have wf: "state_wf st1" and same: "rst_record st1 = rst_record st"
      using observe_spec [OF o] inv Some by (auto simp: rh_inv_def)
    obtain r1 where r1: "r = Some r1" "rh' = ?rh \<lparr> rh_entries := hput ?h (st1 \<lparr> rst_record := r1 \<rparr>) (rh_entries ?rh) \<rparr>"
      and keep: "rr_expires_at r1 = rr_expires_at (rst_record st1)" and le: "rr_extra_attempts r1 \<le> 2"
      using assms(2) Some o wf by (auto simp: observe_event_def Let_def state_wf_def split: if_splits)
    show ?thesis
      using rh_inv_update [OF inv Some, of "st1 \<lparr> rst_record := r1 \<rparr>"]
        rh_lifetime_same [OF Some, of "st1 \<lparr> rst_record := r1 \<rparr>"] keep le same wf
      by (simp add: r1 state_wf_def)
  qed
  then show "rh_inv cap rh'" and "rh_lifetime rh' = rh_lifetime ?rh"
    and "r = map_option rst_record (hget (rh_entries rh') ?h)" by blast+
qed

subsection \<open>Recording an attempt\<close>

text \<open>What \<open>record\<close> starts from: the live record of the hash, or a new one.\<close>

definition rh_live :: "retry_history \<Rightarrow> string \<Rightarrow> instant \<Rightarrow> retry_state option" where
  "rh_live rh h now = hget (rh_entries (rh_expire rh now)) h"

definition new_state :: "instant \<Rightarrow> metadata_options \<Rightarrow> retry_state" where
  "new_state now policy =
     \<lparr> rst_record = \<lparr> rr_failures = 0, rr_next_due = now,
                     rr_expires_at = now + min (secs (retry_history_ttl_secs policy)) MAX_RETRY_LIFETIME,
                     rr_extra_attempts = 0 \<rparr>,
       rst_peers = [], rst_sources = [] \<rparr>"

definition recorded :: "retry_record \<Rightarrow> instant \<Rightarrow> bool \<Rightarrow> duration \<Rightarrow> metadata_options \<Rightarrow> retry_record" where
  "recorded r now failed delay policy =
     (let failures = (if failed then min (rr_failures r + 1) (2 ^ 64 - 1) else rr_failures r);
          wait = (if failed then secs (min (retry_initial_delay_secs policy * 2 ^ min (failures - 1) 31)
                                           (min (2 ^ 64 - 1) (retry_max_delay_secs policy)))
                  else delay)
      in r \<lparr> rr_failures := failures, rr_next_due := now + min (max wait (millis 100)) MAX_RETRY_LIFETIME \<rparr>)"

definition record_effect ::
  "retry_history \<Rightarrow> string \<Rightarrow> instant \<Rightarrow> bool \<Rightarrow> duration \<Rightarrow> metadata_options \<Rightarrow>
   retry_record option \<Rightarrow> retry_history \<Rightarrow> bool" where
  "record_effect rh h now failed delay policy r rh' =
     (if rh_live rh h now = None \<and> retry_history_capacity policy \<le> length (rh_entries (rh_expire rh now))
      then r = None \<and> rh' = rh_expire rh now
      else let st = (case rh_live rh h now of None \<Rightarrow> new_state now policy | Some st \<Rightarrow> st);
               r' = recorded (rst_record st) now failed delay policy
           in r = Some r' \<and> (\<forall>k. hget (rh_entries rh') k =
                (if k = h then Some (st \<lparr> rst_record := r' \<rparr>) else rh_live rh k now)))"

lemma state_wf_new: "state_wf (new_state now policy)"
  by (simp add: state_wf_def new_state_def)

lemma rh_record_unfold:
  "rh_record rh h now failed delay policy =
     (let rh1 = rh_expire rh now in
      if rh_live rh h now = None \<and> retry_history_capacity policy \<le> length (rh_entries rh1) then Some (None, rh1)
      else let st = (case rh_live rh h now of None \<Rightarrow> new_state now policy | Some st \<Rightarrow> st);
               rh2 = (if rh_live rh h now = None
                      then rh1 \<lparr> rh_entries := hput h st (rh_entries rh1),
                                 rh_expiry := sput (rr_expires_at (rst_record st), h) (rh_expiry rh1) \<rparr>
                      else rh1);
               r = recorded (rst_record st) now failed delay policy
           in Some (Some r, rh2 \<lparr> rh_entries := hput h (st \<lparr> rst_record := r \<rparr>) (rh_entries rh2) \<rparr>))"
  by (cases "rh_live rh h now"; cases failed)
    (simp_all add: rh_record_def rh_live_def recorded_def new_state_def retry_deadline_def retry_backoff_def
      sat_add64_def Let_def min.assoc)

lemma recorded_keeps [simp]:
  "rr_expires_at (recorded r now failed delay policy) = rr_expires_at r"
  "rr_extra_attempts (recorded r now failed delay policy) = rr_extra_attempts r"
  by (simp_all add: recorded_def Let_def)

lemma rh_record_spec:
  assumes "rh_inv (retry_history_capacity policy) rh"
  shows "ok (rh_record rh h now failed delay policy) (\<lambda>(r, rh'). rh_inv (retry_history_capacity policy) rh' \<and>
           record_effect rh h now failed delay policy r rh')"
proof -
  let ?cap = "retry_history_capacity policy" and ?rh = "rh_expire rh now"
  define st where "st = (case rh_live rh h now of None \<Rightarrow> new_state now policy | Some st \<Rightarrow> st)"
  define r where "r = recorded (rst_record st) now failed delay policy"
  have inv: "rh_inv ?cap ?rh" by (rule rh_inv_expire [OF assms])
  have wf: "state_wf st" using inv by (auto simp: st_def rh_live_def state_wf_new rh_inv_def split: option.split)
  then have wf': "state_wf (st \<lparr> rst_record := r \<rparr>)" by (simp add: state_wf_def r_def)
  show ?thesis
  proof (cases "rh_live rh h now = None \<and> ?cap \<le> length (rh_entries ?rh)")
    case True
    then show ?thesis using inv by (simp add: rh_record_unfold record_effect_def)
  next
    case False
    define rh2 where "rh2 = (if rh_live rh h now = None
        then ?rh \<lparr> rh_entries := hput h st (rh_entries ?rh),
                   rh_expiry := sput (rr_expires_at (rst_record st), h) (rh_expiry ?rh) \<rparr> else ?rh)"
    have get: "hget (rh_entries rh2) k = (if k = h then Some st else rh_live rh k now)" for k
      by (auto simp: rh2_def st_def rh_live_def)
    have "rh_inv ?cap rh2"
      using False inv rh_inv_create [OF inv _ _ wf] by (auto simp: rh2_def rh_live_def not_le)
    from rh_inv_update [OF this, of h st "st \<lparr> rst_record := r \<rparr>"]
    have "rh_inv ?cap (rh2 \<lparr> rh_entries := hput h (st \<lparr> rst_record := r \<rparr>) (rh_entries rh2) \<rparr>)"
      using get wf' by (simp add: r_def)
    moreover have "rh_record rh h now failed delay policy =
        Some (Some r, rh2 \<lparr> rh_entries := hput h (st \<lparr> rst_record := r \<rparr>) (rh_entries rh2) \<rparr>)"
      using False by (simp add: rh_record_unfold Let_def st_def [symmetric] r_def [symmetric] rh2_def)
    moreover have "record_effect rh h now failed delay policy (Some r)
        (rh2 \<lparr> rh_entries := hput h (st \<lparr> rst_record := r \<rparr>) (rh_entries rh2) \<rparr>)"
      using False get by (simp add: record_effect_def Let_def st_def [symmetric] r_def [symmetric])
    ultimately show ?thesis by simp
  qed
qed

lemma rh_record_lifetime:
  assumes "rh_inv (retry_history_capacity policy) rh" and "rh_record rh h now failed delay policy = Some (r, rh')"
    and "rh_lifetime rh k = Some d" and "now < d"
  shows "rh_lifetime rh' k = Some d"
proof -
  have eff: "record_effect rh h now failed delay policy r rh'"
    using rh_record_spec [OF assms(1), of h now failed delay] assms(2) by simp
  obtain st where "hget (rh_entries rh) k = Some st" and d: "rr_expires_at (rst_record st) = d"
    using assms(3) by (auto simp: rh_lifetime_def)
  then have live: "rh_live rh k now = Some st" using assms(1,4) by (simp add: rh_live_def hget_expire_live)
  show ?thesis
  proof (cases "rh_live rh h now = None \<and> retry_history_capacity policy \<le> length (rh_entries (rh_expire rh now))")
    case True
    then show ?thesis using eff live d by (simp add: record_effect_def rh_lifetime_def rh_live_def)
  next
    case False
    then show ?thesis using eff live d by (auto simp: record_effect_def Let_def rh_lifetime_def)
  qed
qed

subsection \<open>The history as a cache of deadlines\<close>

datatype retry_op =
  RhExpire instant
| RhRemove string
| RhRecord string instant bool duration
| RhObserve hash_discovered instant
| RhRemember queued_hash

fun retry_step :: "metadata_options \<Rightarrow> retry_history \<Rightarrow> retry_op \<Rightarrow> retry_history option" where
  "retry_step policy rh (RhExpire now) = Some (rh_expire rh now)"
| "retry_step policy rh (RhRemove h) = Some (rh_remove rh h)"
| "retry_step policy rh (RhRecord h now failed delay) = map_option snd (rh_record rh h now failed delay policy)"
| "retry_step policy rh (RhObserve event now) = Some (snd (observe_event rh event now policy))"
| "retry_step policy rh (RhRemember entry) = Some (remember rh entry)"

text \<open>The time an operation reads; \<open>remove\<close> and \<open>remember\<close> read none.\<close>

fun retry_at :: "retry_op \<Rightarrow> instant" where
  "retry_at (RhExpire now) = now"
| "retry_at (RhRecord h now failed delay) = now"
| "retry_at (RhObserve event now) = now"
| "retry_at _ = 0"

definition retry_may_drop :: "retry_history \<Rightarrow> retry_op \<Rightarrow> string \<Rightarrow> bool" where
  "retry_may_drop rh e h = (e = RhRemove h)"

lemma retry_step_ok:
  assumes "rh_inv (retry_history_capacity policy) rh"
  shows "ok (retry_step policy rh e) (rh_inv (retry_history_capacity policy))"
proof (cases e)
  case (RhRecord h now failed delay)
  show ?thesis
    unfolding RhRecord retry_step.simps ok_map_option
    by (rule ok_mono [OF rh_record_spec [OF assms]]) (auto simp: split_beta)
next
  case (RhObserve event now)
  obtain r rh' where "observe_event rh event now policy = (r, rh')" by fastforce
  with observe_event_spec(1) [OF assms this] RhObserve show ?thesis by simp
qed (simp_all add: assms rh_inv_expire rh_remove_spec remember_spec)

lemma retry_step_keeps:
  assumes "rh_inv (retry_history_capacity policy) rh" and "retry_step policy rh e = Some rh'"
    and "rh_lifetime rh h = Some d" and "retry_at e < d" and "\<not> retry_may_drop rh e h"
  shows "rh_lifetime rh' h = Some d"
proof (cases e)
  case (RhExpire now)
  then show ?thesis using assms by (auto simp: rh_lifetime_expire)
next
  case (RhRemove k)
  then show ?thesis using assms rh_remove_spec(2) [OF assms(1), of k] by (auto simp: retry_may_drop_def rh_lifetime_def)
next
  case (RhRecord k now failed delay)
  then obtain r where "rh_record rh k now failed delay policy = Some (r, rh')" using assms(2) by auto
  then show ?thesis using rh_record_lifetime [OF assms(1)] assms RhRecord by simp
next
  case (RhObserve event now)
  obtain r where r: "observe_event rh event now policy = (r, rh')"
    using assms(2) RhObserve by (cases "observe_event rh event now policy") auto
  show ?thesis using assms RhObserve by (auto simp: observe_event_spec(2) [OF assms(1) r] rh_lifetime_expire)
next
  case (RhRemember entry)
  then show ?thesis using assms remember_spec(2) [OF assms(1)] by auto
qed

interpretation rh: ttl_cache "retry_step policy" "rh_inv (retry_history_capacity policy)" rh_lifetime
  retry_at retry_may_drop "\<lambda>rh. length (rh_entries rh)" "\<lambda>_. retry_history_capacity policy" for policy
proof unfold_locales
  show "rh_inv (retry_history_capacity policy) s \<Longrightarrow> ok (retry_step policy s e) (rh_inv (retry_history_capacity policy))" for s e
    by (rule retry_step_ok)
  show "rh_inv (retry_history_capacity policy) s \<Longrightarrow> length (rh_entries s) \<le> retry_history_capacity policy" for s
    by (simp add: rh_inv_def)
qed (rule refl, rule retry_step_keeps)

fun retry_run :: "metadata_options \<Rightarrow> retry_history \<Rightarrow> retry_op list \<Rightarrow> retry_history option" where
  "retry_run policy rh [] = Some rh"
| "retry_run policy rh (e # es) = Option.bind (retry_step policy rh e) (\<lambda>rh'. retry_run policy rh' es)"

lemma retry_run_eq: "retry_run policy rh es = rh.run policy rh es"
  by (induction es arbitrary: rh) simp_all

lemma retry_run_inv:
  "retry_run policy rh_default es = Some rh \<Longrightarrow> rh_inv (retry_history_capacity policy) rh"
  using rh.run_ok [OF rh_inv_default, of policy es] by (simp add: retry_run_eq)

lemma retry_undisturbed:
  assumes "rh_inv (retry_history_capacity policy) rh" and "\<forall>e \<in> set es. retry_at e < d \<and> e \<noteq> RhRemove h"
  shows "rh.undisturbed policy h d rh es"
  using assms
proof (induction es arbitrary: rh)
  case (Cons e es)
  have "\<not> retry_may_drop rh e h" using Cons.prems(2) by (simp add: retry_may_drop_def)
  with retry_step_ok [OF Cons.prems(1), of e] Cons show ?case by (auto simp: ok_iff)
qed simp

subsection \<open>Properties\<close>

text \<open>
  C24. The lifetime of a retry record is absolute. However the history was reached, no further
  sequence of failures, deferrals, announcements or expiries panics or exceeds the configured capacity; as
  long as the hash is not explicitly removed and the clock has not reached the record's expiry
  time, the record is still there with that same expiry time, and the first expiry at or after that
  time forgets it.
\<close>

theorem retry_lifetime_absolute:
  assumes "retry_run policy rh_default es = Some rh" and "rh_lifetime rh h = Some d"
    and "\<forall>e \<in> set fs. retry_at e < d \<and> e \<noteq> RhRemove h" and "d \<le> now"
  shows "ok (retry_run policy rh fs) (\<lambda>rh'. rh_lifetime rh' h = Some d \<and>
           length (rh_entries rh') \<le> retry_history_capacity policy \<and> rh_lifetime (rh_expire rh' now) h = None)"
proof -
  have inv: "rh_inv (retry_history_capacity policy) rh" by (rule retry_run_inv [OF assms(1)])
  have "ok (retry_run policy rh fs) (\<lambda>rh'. rh_lifetime rh' h = Some d)"
    unfolding retry_run_eq by (rule rh.run_remembers [OF inv assms(2) retry_undisturbed [OF inv assms(3)]])
  with rh.run_bounded [OF inv, of fs] show ?thesis
    using assms(4) by (auto simp: ok_iff retry_run_eq rh_lifetime_expire)
qed

definition sample_policy :: metadata_options where
  "sample_policy = metadata_options_default \<lparr> retry_history_capacity := 1 \<rparr>"

theorem retry_lifetime_absolute_witness:
  "\<exists>rh d. retry_run sample_policy rh_default [RhRecord ''aa'' 5 True 0] = Some rh \<and> rh_lifetime rh ''aa'' = Some d \<and>
     d = 5 + secs (retry_history_ttl_secs sample_policy) \<and>
     ok (retry_run sample_policy rh [RhRecord ''aa'' 7 True 0, RhRecord ''bb'' 8 False 9, RhExpire 9]) (\<lambda>rh'. rh_lifetime rh' ''aa'' = Some d)"
proof -
  let ?rh = "the (retry_run sample_policy rh_default [RhRecord ''aa'' 5 True 0])"
  let ?d = "5 + secs (retry_history_ttl_secs sample_policy)"
  have 1: "retry_run sample_policy rh_default [RhRecord ''aa'' 5 True 0] = Some ?rh" by code_simp
  have 2: "rh_lifetime ?rh ''aa'' = Some ?d" by code_simp
  have 3: "\<forall>e \<in> set [RhRecord ''aa'' 7 True 0, RhRecord ''bb'' 8 False 9, RhExpire 9]. retry_at e < ?d \<and> e \<noteq> RhRemove ''aa''"
    by code_simp
  have 4: "ok (retry_run sample_policy ?rh [RhRecord ''aa'' 7 True 0, RhRecord ''bb'' 8 False 9, RhExpire 9])
      (\<lambda>rh'. rh_lifetime rh' ''aa'' = Some ?d)"
    by (rule ok_mono [OF retry_lifetime_absolute [OF 1 2 3 order_refl]]) blast
  show ?thesis by (intro exI [of _ ?rh] exI [of _ ?d] conjI refl 1 2 4)
qed



end
