(* ===== verification/Runtime_Stats.thy ===== *)
theory Runtime_Stats
  imports F64 "HOL-Library.Multiset" "HOL-Library.Char_ord" "HOL-Library.List_Lexorder"
begin

text \<open>
  The runtime statistics of \<open>src/src/runtime_stats.rs\<close>. \<open>DhtRuntimeStatsInner\<close> is one atomic cell per
  field, which the model keeps under the field's name; \<open>fetch_add\<close> wraps at 2^64, \<open>store\<close> replaces.
  Each method of \<open>DhtRuntimeStats\<close> is one definition, used by the components that call it.
  \<open>YieldRuntimeStats\<close> is addressed by name in the source too; an unknown name fails a debug
  assertion, the model's \<open>None\<close>.

  Results: a histogram's percentile is the bucket bound that the ranked observations determine,
  and what concurrent recorders leave behind does not depend on how they interleave; the
  counters of timed out stages add up as documented.
\<close>

subsection \<open>Histograms\<close>

record fixed_histogram =
  fh_bounds :: "nat list"
  fh_counts :: "nat list"
  fh_overflow :: nat
  fh_count :: nat
  fh_sum :: nat

definition wrapping_add64 :: "nat \<Rightarrow> nat \<Rightarrow> nat" where
  "wrapping_add64 a b = (a + b) mod 2 ^ 64"

definition fh_new :: "nat list \<Rightarrow> fixed_histogram" where
  "fh_new bounds = \<lparr> fh_bounds = bounds, fh_counts = map (\<lambda>_. 0) bounds, fh_overflow = 0, fh_count = 0, fh_sum = 0 \<rparr>"

fun position :: "('a \<Rightarrow> bool) \<Rightarrow> 'a list \<Rightarrow> nat option" where
  "position P [] = None"
| "position P (x # xs) = (if P x then Some 0 else map_option Suc (position P xs))"

definition fh_record :: "fixed_histogram \<Rightarrow> nat \<Rightarrow> fixed_histogram" where
  "fh_record h val =
     (let h = (case position (\<lambda>bound. val \<le> bound) (fh_bounds h) of
                 Some index \<Rightarrow> h \<lparr> fh_counts := (fh_counts h)[index := wrapping_add64 (fh_counts h ! index) 1] \<rparr>
               | None \<Rightarrow> h \<lparr> fh_overflow := wrapping_add64 (fh_overflow h) 1 \<rparr>)
      in h \<lparr> fh_count := wrapping_add64 (fh_count h) 1, fh_sum := wrapping_add64 (fh_sum h) val \<rparr>)"

text \<open>A snapshot loads every cell; the model of a quiescent histogram is its own snapshot.\<close>

fun percentile_scan :: "nat \<Rightarrow> nat \<Rightarrow> (nat \<times> nat) list \<Rightarrow> nat option" where
  "percentile_scan rank cumulative [] = None"
| "percentile_scan rank cumulative ((bound, n) # buckets) =
     (let cumulative = sat_add64 cumulative n in
      if rank \<le> cumulative then Some bound else percentile_scan rank cumulative buckets)"

definition percentile_rank :: "nat \<Rightarrow> f64 \<Rightarrow> nat" where
  "percentile_rank n p = max (f64_to_nat 64 (of_int \<lceil>f64_mul (f64_of_nat n) (f64_clamp 0 1 p)\<rceil>)) 1"

definition percentile :: "fixed_histogram \<Rightarrow> f64 \<Rightarrow> nat option" where
  "percentile h p =
     (if fh_count h = 0 then None
      else case percentile_scan (percentile_rank (fh_count h) p) 0 (zip (fh_bounds h) (fh_counts h)) of
             Some bound \<Rightarrow> Some bound
           | None \<Rightarrow> if fh_bounds h = [] then None else Some (last (fh_bounds h)))"

definition METADATA_QUEUE_WAIT_BUCKETS_MS :: "nat list" where
  "METADATA_QUEUE_WAIT_BUCKETS_MS = [10, 50, 100, 250, 500, 1000, 2000, 5000]"

definition METADATA_FETCH_BUCKETS_MS :: "nat list" where
  "METADATA_FETCH_BUCKETS_MS = [250, 500, 1000, 2000, 4000, 6000, 10000]"

definition METADATA_SIZE_BUCKETS_BYTES :: "nat list" where
  "METADATA_SIZE_BUCKETS_BYTES =
     [16 * 1024, 32 * 1024, 64 * 1024, 128 * 1024, 256 * 1024, 512 * 1024, 1024 * 1024, 10 * 1024 * 1024]"

subsection \<open>Yield counters\<close>

definition yield_counters :: "string list" where
  "yield_counters =
   [''discovery_get_peers_observed'', ''discovery_get_peers_rate_limited'',
    ''discovery_get_peers_enqueued'', ''discovery_sample_queries'', ''discovery_sample_responses'',
    ''discovery_sample_timeouts'', ''discovery_sample_send_failed'', ''discovery_sample_unsupported'',
    ''discovery_sample_invalid'', ''discovery_sample_unmatched'', ''discovery_sample_no_new'',
    ''discovery_sample_hashes_enqueued'', ''discovery_hash_duplicate'', ''discovery_hash_rate_limited'',
    ''discovery_hash_queue_full'', ''discovery_input_dropped'', ''discovery_node_capacity_dropped'',
    ''discovery_sample_cooldown_full'', ''metadata_source_announce_started'',
    ''metadata_source_announce_succeeded'', ''metadata_source_announce_failed'',
    ''metadata_source_get_peers_started'', ''metadata_source_get_peers_succeeded'',
    ''metadata_source_get_peers_failed'', ''metadata_source_sample_started'',
    ''metadata_source_sample_succeeded'', ''metadata_source_sample_failed'', ''metadata_retry_scheduled'',
    ''metadata_retry_dispatched'', ''metadata_retry_exhausted'', ''metadata_retry_evicted'',
    ''metadata_retry_deferred'', ''metadata_retry_new_peer'', ''metadata_retry_history_full'',
    ''metadata_hash_only_started'', ''lookup_finished_deadline'', ''lookup_finished_budget'',
    ''lookup_finished_exhausted'', ''lookup_finished_peers'', ''lookup_finished_canceled'',
    ''lookup_source_seed_queries'', ''lookup_request_queue_full'']"

definition yield_gauges :: "string list" where
  "yield_gauges =
   [''metadata_retry_waiting'', ''metadata_retry_history'', ''discovery_candidate_nodes'',
    ''discovery_cooldown_nodes'', ''discovery_samples_in_flight'']"

record yield_runtime_stats =
  ys_counters :: "string \<Rightarrow> nat"
  ys_gauges :: "string \<Rightarrow> nat"

definition yield_default :: yield_runtime_stats where
  "yield_default = \<lparr> ys_counters = (\<lambda>_. 0), ys_gauges = (\<lambda>_. 0) \<rparr>"

definition yield_inc :: "string \<Rightarrow> yield_runtime_stats \<Rightarrow> yield_runtime_stats option" where
  "yield_inc name s =
     (if name \<in> set yield_counters
      then Some (s \<lparr> ys_counters := (ys_counters s)(name := wrapping_add64 (ys_counters s name) 1) \<rparr>)
      else None)"

definition yield_set :: "string \<Rightarrow> nat \<Rightarrow> yield_runtime_stats \<Rightarrow> yield_runtime_stats option" where
  "yield_set name val s =
     (if name \<in> set yield_gauges then Some (s \<lparr> ys_gauges := (ys_gauges s)(name := val) \<rparr>) else None)"

definition yield_snapshot :: "yield_runtime_stats \<Rightarrow> (string \<times> nat) list" where
  "yield_snapshot s = fold (\<lambda>name. bput name (ys_counters s name)) yield_counters []"

definition gauges_snapshot :: "yield_runtime_stats \<Rightarrow> (string \<times> nat) list" where
  "gauges_snapshot s = fold (\<lambda>name. bput name (ys_gauges s name)) yield_gauges []"

subsection \<open>Counters and gauges\<close>

datatype timeout_stage =
  ConnectHandshake | ExtensionHandshakeSend | ExtensionHandshakeReceive | PieceRequestSend
| PieceReceive | Validation | TcpConnect | BaseHandshake

primrec stage_index :: "timeout_stage \<Rightarrow> nat" where
  "stage_index ConnectHandshake = 0"
| "stage_index ExtensionHandshakeSend = 1"
| "stage_index ExtensionHandshakeReceive = 2"
| "stage_index PieceRequestSend = 3"
| "stage_index PieceReceive = 4"
| "stage_index Validation = 5"
| "stage_index TcpConnect = 6"
| "stage_index BaseHandshake = 7"

definition from_index :: "nat \<Rightarrow> timeout_stage" where
  "from_index index =
     (if index = 0 then ConnectHandshake
      else if index = 1 then ExtensionHandshakeSend
      else if index = 2 then ExtensionHandshakeReceive
      else if index = 3 then PieceRequestSend
      else if index = 4 then PieceReceive
      else if index = 6 then TcpConnect
      else if index = 7 then BaseHandshake
      else Validation)"

datatype connection_error =
  Refused | Reset | Aborted | Closed | Timeout | InvalidHandshake | InfoHashMismatch | IoOther | Other

primrec connection_error_index :: "connection_error \<Rightarrow> nat" where
  "connection_error_index Refused = 0"
| "connection_error_index Reset = 1"
| "connection_error_index Aborted = 2"
| "connection_error_index Closed = 3"
| "connection_error_index Timeout = 4"
| "connection_error_index InvalidHandshake = 5"
| "connection_error_index InfoHashMismatch = 6"
| "connection_error_index IoOther = 7"
| "connection_error_index Other = 8"

record runtime_stats =
  rs_cells :: "string \<Rightarrow> nat"
  rs_timeout_stages :: "nat list"
  rs_connection_errors :: "nat list"
  rs_queue_wait_ms :: fixed_histogram
  rs_fetch_duration_ms :: fixed_histogram
  rs_metadata_size_bytes :: fixed_histogram
  rs_yield :: yield_runtime_stats

definition add_cell :: "string \<Rightarrow> nat \<Rightarrow> runtime_stats \<Rightarrow> runtime_stats" where
  "add_cell name n s = s \<lparr> rs_cells := (rs_cells s)(name := wrapping_add64 (rs_cells s name) n) \<rparr>"

definition set_cell :: "string \<Rightarrow> nat \<Rightarrow> runtime_stats \<Rightarrow> runtime_stats" where
  "set_cell name n s = s \<lparr> rs_cells := (rs_cells s)(name := n) \<rparr>"

definition stats_default :: runtime_stats where
  "stats_default = \<lparr> rs_cells = (\<lambda>_. 0), rs_timeout_stages = replicate 8 0, rs_connection_errors = replicate 9 0,
     rs_queue_wait_ms = fh_new METADATA_QUEUE_WAIT_BUCKETS_MS,
     rs_fetch_duration_ms = fh_new METADATA_FETCH_BUCKETS_MS,
     rs_metadata_size_bytes = fh_new METADATA_SIZE_BUCKETS_BYTES,
     rs_yield = yield_default \<rparr>"

record dht_runtime_limits =
  lim_metadata_queue :: nat
  lim_node_pool :: nat
  lim_node_pool_low_watermark :: nat
  lim_find_node_in_flight :: nat
  lim_initial_find_node_rate :: nat
  lim_hash_ingress_queue :: nat
  lim_crawl_priority_queue :: nat
  lim_crawl_discovery_queue :: nat

definition with_limits :: "dht_runtime_limits \<Rightarrow> runtime_stats" where
  "with_limits limits =
     fold (\<lambda>(name, n). set_cell name n)
       [(''metadata_queue_max'', lim_metadata_queue limits),
        (''node_pool_capacity'', lim_node_pool limits),
        (''node_pool_low_watermark'', lim_node_pool_low_watermark limits),
        (''find_node_in_flight_max'', lim_find_node_in_flight limits),
        (''find_node_effective_rate_per_sec'', lim_initial_find_node_rate limits),
        (''hash_ingress_queue_capacity'', lim_hash_ingress_queue limits),
        (''crawl_priority_queue_capacity'', lim_crawl_priority_queue limits),
        (''crawl_discovery_queue_capacity'', lim_crawl_discovery_queue limits)]
       stats_default"

definition hash_received :: "runtime_stats \<Rightarrow> runtime_stats" where
  "hash_received = add_cell ''hashes_received'' 1"

definition hash_ingress_dropped :: "runtime_stats \<Rightarrow> runtime_stats" where
  "hash_ingress_dropped = add_cell ''hash_ingress_dropped'' 1"

definition set_hash_ingress_queue_depth :: "nat \<Rightarrow> runtime_stats \<Rightarrow> runtime_stats" where
  "set_hash_ingress_queue_depth depth = set_cell ''hash_ingress_queue_depth'' depth"

definition set_crawl_priority_queue_depth :: "nat \<Rightarrow> runtime_stats \<Rightarrow> runtime_stats" where
  "set_crawl_priority_queue_depth depth = set_cell ''crawl_priority_queue_depth'' depth"

definition set_crawl_discovery_queue_depth :: "nat \<Rightarrow> runtime_stats \<Rightarrow> runtime_stats" where
  "set_crawl_discovery_queue_depth depth = set_cell ''crawl_discovery_queue_depth'' depth"

definition set_metadata_queue :: "nat \<Rightarrow> nat \<Rightarrow> runtime_stats \<Rightarrow> runtime_stats" where
  "set_metadata_queue depth in_flight = set_cell ''metadata_in_flight'' in_flight \<circ> set_cell ''metadata_queue_depth'' depth"

definition metadata_queue_deduplicated :: "runtime_stats \<Rightarrow> runtime_stats" where
  "metadata_queue_deduplicated = add_cell ''metadata_queue_deduplicated'' 1"

definition metadata_queue_inserted :: "runtime_stats \<Rightarrow> runtime_stats" where
  "metadata_queue_inserted = add_cell ''metadata_queue_inserted'' 1"

definition metadata_queue_evicted :: "runtime_stats \<Rightarrow> runtime_stats" where
  "metadata_queue_evicted = add_cell ''metadata_queue_evicted'' 1"

definition metadata_queue_stale :: "nat \<Rightarrow> runtime_stats \<Rightarrow> runtime_stats" where
  "metadata_queue_stale n = add_cell ''metadata_queue_stale'' n"

definition metadata_race_started :: "runtime_stats \<Rightarrow> runtime_stats" where
  "metadata_race_started = add_cell ''metadata_races_started'' 1"

definition metadata_peer_candidate :: "runtime_stats \<Rightarrow> runtime_stats" where
  "metadata_peer_candidate = add_cell ''metadata_peer_candidates'' 1"

definition metadata_live_peer_join :: "runtime_stats \<Rightarrow> runtime_stats" where
  "metadata_live_peer_join = add_cell ''metadata_live_peer_joins'' 1"

definition metadata_peer_canceled :: "nat \<Rightarrow> runtime_stats \<Rightarrow> runtime_stats" where
  "metadata_peer_canceled n = add_cell ''metadata_peer_canceled'' n"

definition peer_lookup_requested :: "runtime_stats \<Rightarrow> runtime_stats" where
  "peer_lookup_requested = add_cell ''peer_lookup_requested'' 1"

definition peer_lookup_started :: "runtime_stats \<Rightarrow> runtime_stats" where
  "peer_lookup_started = add_cell ''peer_lookup_started'' 1"

definition peer_lookup_rate_limited :: "runtime_stats \<Rightarrow> runtime_stats" where
  "peer_lookup_rate_limited = add_cell ''peer_lookup_rate_limited'' 1"

definition peer_lookup_empty :: "runtime_stats \<Rightarrow> runtime_stats" where
  "peer_lookup_empty = add_cell ''peer_lookup_empty'' 1"

definition peer_lookup_query :: "runtime_stats \<Rightarrow> runtime_stats" where
  "peer_lookup_query = add_cell ''peer_lookup_queries'' 1"

definition peer_lookup_response :: "runtime_stats \<Rightarrow> runtime_stats" where
  "peer_lookup_response = add_cell ''peer_lookup_responses'' 1"

definition peer_lookup_timeout :: "runtime_stats \<Rightarrow> runtime_stats" where
  "peer_lookup_timeout = add_cell ''peer_lookup_timeouts'' 1"

definition peer_lookup_send_failed :: "runtime_stats \<Rightarrow> runtime_stats" where
  "peer_lookup_send_failed = add_cell ''peer_lookup_send_failures'' 1"

definition peer_lookup_peer_found :: "runtime_stats \<Rightarrow> runtime_stats" where
  "peer_lookup_peer_found = add_cell ''peer_lookup_peers_found'' 1"

definition peer_lookup_response_dropped :: "runtime_stats \<Rightarrow> runtime_stats" where
  "peer_lookup_response_dropped = add_cell ''peer_lookup_response_dropped'' 1"

definition peer_lookup_output_dropped :: "runtime_stats \<Rightarrow> runtime_stats" where
  "peer_lookup_output_dropped = add_cell ''peer_lookup_output_dropped'' 1"

definition metadata_peer_attempt :: "runtime_stats \<Rightarrow> runtime_stats" where
  "metadata_peer_attempt = add_cell ''metadata_peer_attempts'' 1"

definition metadata_peer_succeeded :: "runtime_stats \<Rightarrow> runtime_stats" where
  "metadata_peer_succeeded = add_cell ''metadata_peer_succeeded'' 1"

definition metadata_peer_failed :: "runtime_stats \<Rightarrow> runtime_stats" where
  "metadata_peer_failed = add_cell ''metadata_peer_failed'' 1"

definition metadata_peer_timeout :: "runtime_stats \<Rightarrow> runtime_stats" where
  "metadata_peer_timeout = add_cell ''metadata_peer_timeouts'' 1"

definition metadata_connect_failed :: "runtime_stats \<Rightarrow> runtime_stats" where
  "metadata_connect_failed = add_cell ''metadata_connect_failed'' 1"

definition metadata_no_extension :: "runtime_stats \<Rightarrow> runtime_stats" where
  "metadata_no_extension = add_cell ''metadata_no_extension'' 1"

definition metadata_peer_failure_cache_hit :: "runtime_stats \<Rightarrow> runtime_stats" where
  "metadata_peer_failure_cache_hit = add_cell ''metadata_peer_failure_cache_hits'' 1"

definition set_metadata_peer_failure_cache_entries :: "nat \<Rightarrow> runtime_stats \<Rightarrow> runtime_stats" where
  "set_metadata_peer_failure_cache_entries n = set_cell ''metadata_peer_failure_cache_entries'' n"

definition set_node_pool_size :: "nat \<Rightarrow> runtime_stats \<Rightarrow> runtime_stats" where
  "set_node_pool_size n = set_cell ''node_pool_size'' n"

definition set_find_node_in_flight :: "nat \<Rightarrow> runtime_stats \<Rightarrow> runtime_stats" where
  "set_find_node_in_flight n = set_cell ''find_node_in_flight'' n"

definition set_find_node_effective_rate :: "nat \<Rightarrow> runtime_stats \<Rightarrow> runtime_stats" where
  "set_find_node_effective_rate rate = set_cell ''find_node_effective_rate_per_sec'' rate"

definition query_new :: "runtime_stats \<Rightarrow> runtime_stats" where
  "query_new = add_cell ''queries_new'' 1"

definition query_revisit :: "runtime_stats \<Rightarrow> runtime_stats" where
  "query_revisit = add_cell ''queries_revisit'' 1"

definition query_bootstrap :: "runtime_stats \<Rightarrow> runtime_stats" where
  "query_bootstrap = add_cell ''queries_bootstrap'' 1"

definition response_stat :: "runtime_stats \<Rightarrow> runtime_stats" where
  "response_stat = add_cell ''responses'' 1"

definition unmatched_response :: "runtime_stats \<Rightarrow> runtime_stats" where
  "unmatched_response = add_cell ''unmatched_responses'' 1"

definition timeout_stat :: "runtime_stats \<Rightarrow> runtime_stats" where
  "timeout_stat = add_cell ''timeouts'' 1"

definition send_failure :: "runtime_stats \<Rightarrow> runtime_stats" where
  "send_failure = add_cell ''send_failures'' 1"

definition crawl_event_dropped_response :: "runtime_stats \<Rightarrow> runtime_stats" where
  "crawl_event_dropped_response = add_cell ''crawl_events_dropped_response'' 1"

definition crawl_event_dropped_discovered :: "runtime_stats \<Rightarrow> runtime_stats" where
  "crawl_event_dropped_discovered = add_cell ''crawl_events_dropped_discovered'' 1"

definition udp_received :: "runtime_stats \<Rightarrow> runtime_stats" where
  "udp_received = add_cell ''udp_received'' 1"

definition udp_received_bytes :: "nat \<Rightarrow> runtime_stats \<Rightarrow> runtime_stats" where
  "udp_received_bytes bytes = add_cell ''udp_rx_bytes'' bytes"

definition udp_sent :: "nat \<Rightarrow> runtime_stats \<Rightarrow> runtime_stats" where
  "udp_sent bytes = add_cell ''udp_tx_bytes'' bytes \<circ> add_cell ''udp_tx_packets'' 1"

definition response_normal :: "runtime_stats \<Rightarrow> runtime_stats" where
  "response_normal = add_cell ''response_normal'' 1"

definition response_send_failed :: "runtime_stats \<Rightarrow> runtime_stats" where
  "response_send_failed = add_cell ''response_send_failed'' 1"

definition announce_accepted :: "runtime_stats \<Rightarrow> runtime_stats" where
  "announce_accepted = add_cell ''announce_accepted'' 1"

definition announce_invalid_token :: "runtime_stats \<Rightarrow> runtime_stats" where
  "announce_invalid_token = add_cell ''announce_invalid_token'' 1"

definition announce_filtered :: "runtime_stats \<Rightarrow> runtime_stats" where
  "announce_filtered = add_cell ''announce_filtered'' 1"

definition node_admitted :: "runtime_stats \<Rightarrow> runtime_stats" where
  "node_admitted = add_cell ''node_admitted'' 1"

definition node_replaced :: "runtime_stats \<Rightarrow> runtime_stats" where
  "node_replaced = add_cell ''node_replaced'' 1"

definition node_dropped_duplicate :: "runtime_stats \<Rightarrow> runtime_stats" where
  "node_dropped_duplicate = add_cell ''node_dropped_duplicate'' 1"

definition node_dropped_rate_limited :: "runtime_stats \<Rightarrow> runtime_stats" where
  "node_dropped_rate_limited = add_cell ''node_dropped_rate_limited'' 1"

definition node_dropped_invalid :: "runtime_stats \<Rightarrow> runtime_stats" where
  "node_dropped_invalid = add_cell ''node_dropped_invalid'' 1"

definition metadata_bytes_downloaded :: "nat \<Rightarrow> runtime_stats \<Rightarrow> runtime_stats" where
  "metadata_bytes_downloaded bytes = add_cell ''metadata_bytes_downloaded'' bytes"

definition metadata_failure_timeout :: "runtime_stats \<Rightarrow> runtime_stats" where
  "metadata_failure_timeout = add_cell ''metadata_failure_timeout'' 1"

definition metadata_failure_connect :: "runtime_stats \<Rightarrow> runtime_stats" where
  "metadata_failure_connect = add_cell ''metadata_failure_connect'' 1"

definition metadata_failure_no_extension :: "runtime_stats \<Rightarrow> runtime_stats" where
  "metadata_failure_no_extension = add_cell ''metadata_failure_no_extension'' 1"

definition metadata_failure_send :: "runtime_stats \<Rightarrow> runtime_stats" where
  "metadata_failure_send = add_cell ''metadata_failure_send'' 1"

definition metadata_failure_size_limit :: "runtime_stats \<Rightarrow> runtime_stats" where
  "metadata_failure_size_limit = add_cell ''metadata_failure_size_limit'' 1"

definition metadata_failure_sha1 :: "runtime_stats \<Rightarrow> runtime_stats" where
  "metadata_failure_sha1 = add_cell ''metadata_failure_sha1'' 1"

definition metadata_failure_parse :: "runtime_stats \<Rightarrow> runtime_stats" where
  "metadata_failure_parse = add_cell ''metadata_failure_parse'' 1"

definition metadata_failure_other :: "runtime_stats \<Rightarrow> runtime_stats" where
  "metadata_failure_other = add_cell ''metadata_failure_other'' 1"

definition peer_cache_hit_timeout :: "runtime_stats \<Rightarrow> runtime_stats" where
  "peer_cache_hit_timeout = add_cell ''peer_cache_timeout_hits'' 1"

definition peer_cache_hit_connect :: "runtime_stats \<Rightarrow> runtime_stats" where
  "peer_cache_hit_connect = add_cell ''peer_cache_connect_hits'' 1"

definition metadata_failure_reject :: "runtime_stats \<Rightarrow> runtime_stats" where
  "metadata_failure_reject = add_cell ''metadata_failure_reject'' 1"

definition metadata_failure_tcp_connect :: "runtime_stats \<Rightarrow> runtime_stats" where
  "metadata_failure_tcp_connect = add_cell ''metadata_failure_tcp_connect'' 1"

definition metadata_failure_base_handshake :: "runtime_stats \<Rightarrow> runtime_stats" where
  "metadata_failure_base_handshake = add_cell ''metadata_failure_base_handshake'' 1"

definition peer_cache_endpoint_hits :: "runtime_stats \<Rightarrow> runtime_stats" where
  "peer_cache_endpoint_hits = add_cell ''peer_cache_endpoint_hits'' 1"

definition peer_cache_metadata_hits :: "runtime_stats \<Rightarrow> runtime_stats" where
  "peer_cache_metadata_hits = add_cell ''peer_cache_metadata_hits'' 1"

definition set_crawl_recent_probe_entries :: "nat \<Rightarrow> nat \<Rightarrow> runtime_stats \<Rightarrow> runtime_stats" where
  "set_crawl_recent_probe_entries entries capacity = set_cell ''crawl_recent_probe_capacity'' capacity \<circ> set_cell ''crawl_recent_probe_entries'' entries"

definition set_crawl_recent_expiry_entries :: "nat \<Rightarrow> runtime_stats \<Rightarrow> runtime_stats" where
  "set_crawl_recent_expiry_entries entries = set_cell ''crawl_recent_expiry_entries'' entries"

definition record_crawl_recent_expiry_batch :: "nat \<Rightarrow> nat \<Rightarrow> nat \<Rightarrow> runtime_stats \<Rightarrow> runtime_stats" where
  "record_crawl_recent_expiry_batch removed elapsed_micros calls = add_cell ''crawl_recent_expiry_calls'' calls \<circ> add_cell ''crawl_recent_expiry_micros'' elapsed_micros \<circ> add_cell ''crawl_recent_expiry_removed'' removed"

definition responsive_probe_backoff :: "runtime_stats \<Rightarrow> runtime_stats" where
  "responsive_probe_backoff = add_cell ''responsive_probe_backoffs'' 1"

definition udp_queue_full :: "runtime_stats \<Rightarrow> runtime_stats" where
  "udp_queue_full = add_cell ''udp_queue_full'' 1"

definition udp_invalid :: "runtime_stats \<Rightarrow> runtime_stats" where
  "udp_invalid = add_cell ''udp_invalid'' 1"

definition udp_response_rate_limited :: "runtime_stats \<Rightarrow> runtime_stats" where
  "udp_response_rate_limited = add_cell ''udp_responses_rate_limited'' 1"

definition udp_response_priority_reserved :: "runtime_stats \<Rightarrow> runtime_stats" where
  "udp_response_priority_reserved = add_cell ''udp_responses_priority_reserved'' 1"

definition inbound_query :: "string \<Rightarrow> runtime_stats \<Rightarrow> runtime_stats" where
  "inbound_query query =
     add_cell (if query = ''ping'' then ''inbound_ping''
               else if query = ''find_node'' then ''inbound_find_node''
               else if query = ''get_peers'' then ''inbound_get_peers''
               else if query = ''announce_peer'' then ''inbound_announce_peer''
               else ''inbound_other'') 1"

definition metadata_timeout_stage :: "timeout_stage \<Rightarrow> runtime_stats \<Rightarrow> runtime_stats" where
  "metadata_timeout_stage stage s =
     (let bump = (\<lambda>i xs. xs[i := wrapping_add64 (xs ! i) 1]);
          stages = bump (stage_index stage) (rs_timeout_stages s);
          stages = (if stage = TcpConnect \<or> stage = BaseHandshake then bump (stage_index ConnectHandshake) stages else stages)
      in s \<lparr> rs_timeout_stages := stages \<rparr>)"

definition metadata_connection_error :: "connection_error \<Rightarrow> runtime_stats \<Rightarrow> runtime_stats" where
  "metadata_connection_error err s =
     (let i = connection_error_index err; xs = rs_connection_errors s
      in s \<lparr> rs_connection_errors := xs[i := wrapping_add64 (xs ! i) 1] \<rparr>)"

definition observe_metadata_queue_wait :: "nat \<Rightarrow> runtime_stats \<Rightarrow> runtime_stats" where
  "observe_metadata_queue_wait ms s = s \<lparr> rs_queue_wait_ms := fh_record (rs_queue_wait_ms s) ms \<rparr>"

definition observe_metadata_fetch_duration :: "nat \<Rightarrow> runtime_stats \<Rightarrow> runtime_stats" where
  "observe_metadata_fetch_duration ms s = s \<lparr> rs_fetch_duration_ms := fh_record (rs_fetch_duration_ms s) ms \<rparr>"

definition observe_metadata_size :: "nat \<Rightarrow> runtime_stats \<Rightarrow> runtime_stats" where
  "observe_metadata_size bytes s = s \<lparr> rs_metadata_size_bytes := fh_record (rs_metadata_size_bytes s) bytes \<rparr>"

text \<open>\<open>yield_stats().inc\<close> and \<open>yield_stats().set\<close> on the shared handle.\<close>

definition stats_inc :: "string \<Rightarrow> runtime_stats \<Rightarrow> runtime_stats option" where
  "stats_inc name s = map_option (\<lambda>y. s \<lparr> rs_yield := y \<rparr>) (yield_inc name (rs_yield s))"

definition stats_set :: "string \<Rightarrow> nat \<Rightarrow> runtime_stats \<Rightarrow> runtime_stats option" where
  "stats_set name n s = map_option (\<lambda>y. s \<lparr> rs_yield := y \<rparr>) (yield_set name n (rs_yield s))"

lemma yield_known [simp]:
  "''discovery_get_peers_observed'' \<in> set yield_counters"
  "''discovery_get_peers_rate_limited'' \<in> set yield_counters"
  "''discovery_get_peers_enqueued'' \<in> set yield_counters"
  "''discovery_sample_queries'' \<in> set yield_counters"
  "''discovery_sample_responses'' \<in> set yield_counters"
  "''discovery_sample_timeouts'' \<in> set yield_counters"
  "''discovery_sample_send_failed'' \<in> set yield_counters"
  "''discovery_sample_unsupported'' \<in> set yield_counters"
  "''discovery_sample_invalid'' \<in> set yield_counters"
  "''discovery_sample_unmatched'' \<in> set yield_counters"
  "''discovery_sample_no_new'' \<in> set yield_counters"
  "''discovery_sample_hashes_enqueued'' \<in> set yield_counters"
  "''discovery_hash_duplicate'' \<in> set yield_counters"
  "''discovery_hash_rate_limited'' \<in> set yield_counters"
  "''discovery_hash_queue_full'' \<in> set yield_counters"
  "''discovery_input_dropped'' \<in> set yield_counters"
  "''discovery_node_capacity_dropped'' \<in> set yield_counters"
  "''discovery_sample_cooldown_full'' \<in> set yield_counters"
  "''metadata_source_announce_started'' \<in> set yield_counters"
  "''metadata_source_announce_succeeded'' \<in> set yield_counters"
  "''metadata_source_announce_failed'' \<in> set yield_counters"
  "''metadata_source_get_peers_started'' \<in> set yield_counters"
  "''metadata_source_get_peers_succeeded'' \<in> set yield_counters"
  "''metadata_source_get_peers_failed'' \<in> set yield_counters"
  "''metadata_source_sample_started'' \<in> set yield_counters"
  "''metadata_source_sample_succeeded'' \<in> set yield_counters"
  "''metadata_source_sample_failed'' \<in> set yield_counters"
  "''metadata_retry_scheduled'' \<in> set yield_counters"
  "''metadata_retry_dispatched'' \<in> set yield_counters"
  "''metadata_retry_exhausted'' \<in> set yield_counters"
  "''metadata_retry_evicted'' \<in> set yield_counters"
  "''metadata_retry_deferred'' \<in> set yield_counters"
  "''metadata_retry_new_peer'' \<in> set yield_counters"
  "''metadata_retry_history_full'' \<in> set yield_counters"
  "''metadata_hash_only_started'' \<in> set yield_counters"
  "''lookup_finished_deadline'' \<in> set yield_counters"
  "''lookup_finished_budget'' \<in> set yield_counters"
  "''lookup_finished_exhausted'' \<in> set yield_counters"
  "''lookup_finished_peers'' \<in> set yield_counters"
  "''lookup_finished_canceled'' \<in> set yield_counters"
  "''lookup_source_seed_queries'' \<in> set yield_counters"
  "''lookup_request_queue_full'' \<in> set yield_counters"
  by code_simp+

lemma yield_gauge_known [simp]:
  "''metadata_retry_waiting'' \<in> set yield_gauges"
  "''metadata_retry_history'' \<in> set yield_gauges"
  "''discovery_candidate_nodes'' \<in> set yield_gauges"
  "''discovery_cooldown_nodes'' \<in> set yield_gauges"
  "''discovery_samples_in_flight'' \<in> set yield_gauges"
  by code_simp+

lemma stats_inc_known [simp]:
  "name \<in> set yield_counters \<Longrightarrow> ok (stats_inc name s) P = P (s \<lparr> rs_yield := (rs_yield s)
     \<lparr> ys_counters := (ys_counters (rs_yield s))(name := wrapping_add64 (ys_counters (rs_yield s) name) 1) \<rparr> \<rparr>)"
  by (simp add: stats_inc_def yield_inc_def)

lemma stats_set_known [simp]:
  "name \<in> set yield_gauges \<Longrightarrow> ok (stats_set name n s) P =
     P (s \<lparr> rs_yield := (rs_yield s) \<lparr> ys_gauges := (ys_gauges (rs_yield s))(name := n) \<rparr> \<rparr>)"
  by (simp add: stats_set_def yield_set_def)

subsection \<open>Snapshots\<close>

definition snapshot_fields :: "string list" where
  "snapshot_fields =
   [''hashes_received'', ''hash_ingress_dropped'', ''hash_ingress_queue_depth'',
    ''hash_ingress_queue_capacity'', ''crawl_priority_queue_depth'', ''crawl_priority_queue_capacity'',
    ''crawl_discovery_queue_depth'', ''crawl_discovery_queue_capacity'', ''metadata_queue_depth'',
    ''metadata_queue_max'', ''metadata_in_flight'', ''metadata_queue_inserted'',
    ''metadata_queue_deduplicated'', ''metadata_queue_evicted'', ''metadata_queue_stale'',
    ''metadata_races_started'', ''metadata_peer_candidates'', ''metadata_live_peer_joins'',
    ''metadata_peer_canceled'', ''peer_lookup_requested'', ''peer_lookup_started'',
    ''peer_lookup_rate_limited'', ''peer_lookup_empty'', ''peer_lookup_queries'',
    ''peer_lookup_responses'', ''peer_lookup_timeouts'', ''peer_lookup_send_failures'',
    ''peer_lookup_peers_found'', ''peer_lookup_response_dropped'', ''peer_lookup_output_dropped'',
    ''metadata_peer_attempts'', ''metadata_peer_succeeded'', ''metadata_peer_failed'',
    ''metadata_peer_timeouts'', ''metadata_connect_failed'', ''metadata_no_extension'',
    ''metadata_peer_failure_cache_hits'', ''metadata_peer_failure_cache_entries'', ''node_pool_size'',
    ''node_pool_capacity'', ''node_pool_low_watermark'', ''find_node_in_flight'',
    ''find_node_in_flight_max'', ''find_node_effective_rate_per_sec'', ''queries_new'',
    ''queries_revisit'', ''queries_bootstrap'', ''responses'', ''unmatched_responses'', ''timeouts'',
    ''send_failures'', ''crawl_events_dropped_response'', ''crawl_events_dropped_discovered'',
    ''udp_received'', ''udp_queue_full'', ''udp_invalid'', ''udp_responses_rate_limited'',
    ''udp_responses_priority_reserved'']"

text \<open>The fields of \<open>DhtObservabilitySnapshot\<close> that read one cell, with the cell they read.\<close>

definition observability_fields :: "(string \<times> string) list" where
  "observability_fields =
      [(''udp_rx_packets'', ''udp_received''), (''udp_rx_bytes'', ''udp_rx_bytes''), (''udp_tx_packets'',
    ''udp_tx_packets''), (''udp_tx_bytes'', ''udp_tx_bytes''), (''inbound_ping'', ''inbound_ping''),
    (''inbound_find_node'', ''inbound_find_node''), (''inbound_get_peers'', ''inbound_get_peers''),
    (''inbound_announce_peer'', ''inbound_announce_peer''), (''inbound_other'', ''inbound_other''),
    (''response_normal'', ''response_normal''), (''response_fallback'',
    ''udp_responses_priority_reserved''), (''response_rate_limited'', ''udp_responses_rate_limited''),
    (''response_send_failed'', ''response_send_failed''), (''announce_accepted'', ''announce_accepted''),
    (''announce_invalid_token'', ''announce_invalid_token''), (''announce_filtered'',
    ''announce_filtered''), (''node_admitted'', ''node_admitted''), (''node_replaced'',
    ''node_replaced''), (''node_dropped_duplicate'', ''node_dropped_duplicate''),
    (''node_dropped_rate_limited'', ''node_dropped_rate_limited''), (''node_dropped_invalid'',
    ''node_dropped_invalid''), (''metadata_bytes_downloaded'', ''metadata_bytes_downloaded''),
    (''metadata_failure_timeout'', ''metadata_failure_timeout''), (''metadata_failure_connect'',
    ''metadata_failure_connect''), (''metadata_failure_no_extension'',
    ''metadata_failure_no_extension''), (''metadata_failure_send'', ''metadata_failure_send''),
    (''metadata_failure_size_limit'', ''metadata_failure_size_limit''), (''metadata_failure_sha1'',
    ''metadata_failure_sha1''), (''metadata_failure_parse'', ''metadata_failure_parse''),
    (''metadata_failure_other'', ''metadata_failure_other''), (''peer_cache_timeout_hits'',
    ''peer_cache_timeout_hits''), (''peer_cache_connect_hits'', ''peer_cache_connect_hits''),
    (''metadata_failure_reject'', ''metadata_failure_reject''), (''metadata_failure_tcp_connect'',
    ''metadata_failure_tcp_connect''), (''metadata_failure_base_handshake'',
    ''metadata_failure_base_handshake''), (''peer_cache_endpoint_hits'', ''peer_cache_endpoint_hits''),
    (''peer_cache_metadata_hits'', ''peer_cache_metadata_hits''), (''crawl_recent_probe_entries'',
    ''crawl_recent_probe_entries''), (''crawl_recent_probe_capacity'', ''crawl_recent_probe_capacity''),
    (''crawl_recent_expiry_entries'', ''crawl_recent_expiry_entries''), (''crawl_recent_expiry_removed'',
    ''crawl_recent_expiry_removed''), (''crawl_recent_expiry_micros'', ''crawl_recent_expiry_micros''),
    (''crawl_recent_expiry_calls'', ''crawl_recent_expiry_calls''), (''responsive_probe_backoffs'',
    ''responsive_probe_backoffs'')]"

definition snapshot :: "runtime_stats \<Rightarrow> (string \<times> nat) list" where
  "snapshot s = map (\<lambda>field. (field, rs_cells s field)) snapshot_fields"

record timeout_stages_snapshot =
  ts_connect_handshake :: nat
  ts_tcp_connect :: nat
  ts_base_handshake :: nat
  ts_extension_handshake_send :: nat
  ts_extension_handshake_receive :: nat
  ts_piece_request_send :: nat
  ts_piece_receive :: nat
  ts_validation :: nat

record connection_errors_snapshot =
  ce_refused :: nat
  ce_reset :: nat
  ce_aborted :: nat
  ce_closed :: nat
  ce_timeout :: nat
  ce_invalid_handshake :: nat
  ce_info_hash_mismatch :: nat
  ce_io_other :: nat
  ce_other :: nat

record observability =
  os_counters :: "(string \<times> nat) list"
  os_metadata_timeout_stages :: timeout_stages_snapshot
  os_metadata_connection_errors :: connection_errors_snapshot
  os_queue_wait_ms :: fixed_histogram
  os_fetch_duration_ms :: fixed_histogram
  os_metadata_size_bytes :: fixed_histogram

definition observability_snapshot :: "runtime_stats \<Rightarrow> observability" where
  "observability_snapshot s =
     (let st = rs_timeout_stages s; ce = rs_connection_errors s in
      \<lparr> os_counters = map (\<lambda>(field, cell). (field, rs_cells s cell)) observability_fields,
        os_metadata_timeout_stages =
          \<lparr> ts_connect_handshake = st ! 0, ts_tcp_connect = st ! 6, ts_base_handshake = st ! 7,
            ts_extension_handshake_send = st ! 1, ts_extension_handshake_receive = st ! 2,
            ts_piece_request_send = st ! 3, ts_piece_receive = st ! 4, ts_validation = st ! 5 \<rparr>,
        os_metadata_connection_errors =
          \<lparr> ce_refused = ce ! 0, ce_reset = ce ! 1, ce_aborted = ce ! 2, ce_closed = ce ! 3, ce_timeout = ce ! 4,
            ce_invalid_handshake = ce ! 5, ce_info_hash_mismatch = ce ! 6, ce_io_other = ce ! 7, ce_other = ce ! 8 \<rparr>,
        os_queue_wait_ms = rs_queue_wait_ms s,
        os_fetch_duration_ms = rs_fetch_duration_ms s,
        os_metadata_size_bytes = rs_metadata_size_bytes s \<rparr>)"

subsection \<open>What a histogram holds\<close>

text \<open>\<open>bucket_counts bounds vs\<close>: how many of the values fall into each bucket.\<close>

fun bucket_counts :: "nat list \<Rightarrow> nat list \<Rightarrow> nat list" where
  "bucket_counts [] vs = []"
| "bucket_counts (b # bs) vs =
     length (filter (\<lambda>v. v \<le> b) vs) # bucket_counts bs (filter (\<lambda>v. \<not> v \<le> b) vs)"

lemma length_bucket_counts [simp]: "length (bucket_counts bs vs) = length bs"
  by (induction bs arbitrary: vs) simp_all

lemma bucket_counts_le: "x \<in> set (bucket_counts bs vs) \<Longrightarrow> x \<le> length vs"
proof (induction bs arbitrary: vs)
  case (Cons b bs)
  then consider "x = length (filter (\<lambda>v. v \<le> b) vs)" | "x \<le> length (filter (\<lambda>v. \<not> v \<le> b) vs)"
    by (auto simp del: not_le)
  then show ?case by cases (auto intro: le_trans [OF _ length_filter_le])
qed simp

lemma bucket_counts_snoc:
  "bucket_counts bs (vs @ [v]) =
     (case position (\<lambda>b. v \<le> b) bs of None \<Rightarrow> bucket_counts bs vs
      | Some i \<Rightarrow> (bucket_counts bs vs)[i := Suc (bucket_counts bs vs ! i)])"
  by (induction bs arbitrary: vs) (simp_all split: option.split)

lemma position_bound: "position P xs = Some i \<Longrightarrow> i < length xs"
  by (induction xs arbitrary: i) (auto split: if_splits)

lemma position_None: "position P xs = None \<longleftrightarrow> (\<forall>x \<in> set xs. \<not> P x)"
  by (induction xs) auto

lemma histogram_holds:
  assumes "length vs < 2 ^ 64"
  shows "fold (\<lambda>v h. fh_record h v) vs (fh_new bs) =
    \<lparr> fh_bounds = bs, fh_counts = bucket_counts bs vs, fh_overflow = length (filter (\<lambda>v. \<forall>b \<in> set bs. b < v) vs),
      fh_count = length vs, fh_sum = sum_list vs mod 2 ^ 64 \<rparr>"
  using assms
proof (induction vs rule: rev_induct)
  case Nil
  have "bucket_counts bs [] = map (\<lambda>_. 0) bs" by (induction bs) simp_all
  then show ?case by (simp add: fh_new_def)
next
  case (snoc v vs)
  let ?n = "2 ^ 64 :: nat"
  have ih: "fold (\<lambda>v h. fh_record h v) vs (fh_new bs) =
      \<lparr> fh_bounds = bs, fh_counts = bucket_counts bs vs, fh_overflow = length (filter (\<lambda>v. \<forall>b \<in> set bs. b < v) vs),
        fh_count = length vs, fh_sum = sum_list vs mod ?n \<rparr>"
    using snoc by simp
  have small: "Suc (length vs) < ?n" using snoc.prems by simp
  have cell: "Suc (bucket_counts bs vs ! i) mod ?n = Suc (bucket_counts bs vs ! i)" if "i < length bs" for i
    using bucket_counts_le [of "bucket_counts bs vs ! i" bs vs] nth_mem [of i "bucket_counts bs vs"] that small
    by (intro mod_less) (auto intro: le_less_trans)
  have over: "Suc (length (filter P vs)) mod ?n = Suc (length (filter P vs))" for P
    using length_filter_le [of P vs] small by (intro mod_less) linarith
  have sums: "(sum_list vs mod ?n + v) mod ?n = (sum_list vs + v) mod ?n" by (rule mod_add_left_eq)
  have step: "fold (\<lambda>v h. fh_record h v) (vs @ [v]) h = fh_record (fold (\<lambda>v h. fh_record h v) vs h) v" for h by simp
  show ?case
  proof (cases "position (\<lambda>b. v \<le> b) bs")
    case None
    then have above: "\<forall>b \<in> set bs. b < v" by (simp add: position_None not_le)
    then show ?thesis
      using over [of "\<lambda>v. \<forall>b \<in> set bs. b < v"] sums mod_less [OF small] unfolding step ih
      by (simp add: fh_record_def None bucket_counts_snoc wrapping_add64_def)
  next
    case (Some i)
    then have "\<not> (\<forall>b \<in> set bs. b < v)" using position_None [of "\<lambda>b. v \<le> b" bs] by (auto simp: not_le)
    then show ?thesis
      using cell [OF position_bound [OF Some]] sums mod_less [OF small] unfolding step ih
      by (simp add: fh_record_def Some bucket_counts_snoc wrapping_add64_def)
  qed
qed

lemma filter_split_le:
  "b \<le> c \<Longrightarrow> length (filter (\<lambda>v. v \<le> b) vs) + length (filter (\<lambda>v. v \<le> c) (filter (\<lambda>v. \<not> v \<le> b) vs)) =
     length (filter (\<lambda>v. v \<le> (c::nat)) vs)"
  by (induction vs) auto

lemma percentile_scan_find:
  assumes "sorted bs" and "c + length vs < 2 ^ 64"
  shows "percentile_scan rank c (zip bs (bucket_counts bs vs)) =
           find (\<lambda>b. rank \<le> c + length (filter (\<lambda>v. v \<le> b) vs)) bs"
  using assms
proof (induction bs arbitrary: c vs)
  case (Cons b bs)
  let ?low = "length (filter (\<lambda>v. v \<le> b) vs)" and ?rest = "filter (\<lambda>v. \<not> v \<le> b) vs"
  have len: "?low + length ?rest = length vs" using sum_length_filter_compl [of "\<lambda>v. v \<le> b" vs] by simp
  have small: "c + ?low + length ?rest < 2 ^ 64" using Cons.prems(2) len by linarith
  then have sat: "sat_add64 c ?low = c + ?low" unfolding sat_add64_def by (intro min_absorb1) linarith
  have "percentile_scan rank (c + ?low) (zip bs (bucket_counts bs ?rest)) =
      find (\<lambda>d. rank \<le> c + ?low + length (filter (\<lambda>v. v \<le> d) ?rest)) bs"
    using Cons.prems(1) small by (intro Cons.IH) simp_all
  also have "\<dots> = find (\<lambda>d. rank \<le> c + length (filter (\<lambda>v. v \<le> d) vs)) bs"
  proof (rule find_cong [OF refl])
    fix d
    assume "d \<in> set bs"
    then have "b \<le> d" using Cons.prems(1) by simp
    from filter_split_le [OF this, of vs]
    show "(rank \<le> c + ?low + length (filter (\<lambda>v. v \<le> d) ?rest)) = (rank \<le> c + length (filter (\<lambda>v. v \<le> d) vs))"
      by (simp only: add.assoc)
  qed
  finally show ?case by (simp only: bucket_counts.simps zip_Cons_Cons percentile_scan.simps sat Let_def find.simps)
qed simp

definition bump_at :: "nat option \<Rightarrow> nat list \<Rightarrow> nat list" where
  "bump_at i cs = (case i of None \<Rightarrow> cs | Some i \<Rightarrow> cs[i := wrapping_add64 (cs ! i) 1])"

definition bump_if :: "bool \<Rightarrow> nat \<Rightarrow> nat" where
  "bump_if b n = (if b then wrapping_add64 n 1 else n)"

lemma fh_record_parts:
  "fh_record h v = (let i = position (\<lambda>b. v \<le> b) (fh_bounds h) in
     \<lparr> fh_bounds = fh_bounds h, fh_counts = bump_at i (fh_counts h), fh_overflow = bump_if (i = None) (fh_overflow h),
       fh_count = wrapping_add64 (fh_count h) 1, fh_sum = wrapping_add64 (fh_sum h) v \<rparr>)"
  by (simp add: fh_record_def bump_at_def bump_if_def Let_def split: option.split)

lemma bump_at_commute: "bump_at i (bump_at j cs) = bump_at j (bump_at i cs)"
proof (cases "\<exists>a b. i = Some a \<and> j = Some b \<and> a \<noteq> b")
  case True
  then show ?thesis by (auto simp: bump_at_def list_update_swap)
qed (auto simp: bump_at_def split: option.split)

lemma bump_if_commute: "bump_if a (bump_if b n) = bump_if b (bump_if a n)"
  by (simp add: bump_if_def)

lemma wrapping_add64_swap: "wrapping_add64 (wrapping_add64 x a) b = wrapping_add64 (wrapping_add64 x b) a"
  unfolding wrapping_add64_def mod_add_left_eq by (simp add: ac_simps)

lemma fh_record_commute: "fh_record (fh_record h a) b = fh_record (fh_record h b) a"
  by (simp add: fh_record_parts Let_def bump_at_commute bump_if_commute wrapping_add64_swap)

lemma fold_record_mset: "mset vs = mset ws \<Longrightarrow> fold (\<lambda>v h. fh_record h v) vs h = fold (\<lambda>v h. fh_record h v) ws h"
  by (rule fun_cong [OF fold_multiset_equiv]) (simp_all add: fun_eq_iff fh_record_commute)

subsection \<open>Properties\<close>

text \<open>
  C26. A percentile is what the observations determine. For a histogram with ascending bounds (each
  of the three the program uses is) that recorded any fewer than 2^64 values, \<open>percentile\<close> is \<open>None\<close>
  exactly when nothing was recorded; otherwise it is the first bound that at least
  \<open>ceil(count * p)\<close> (and at least one) of the recorded values do not exceed, or the last bound when
  too many values exceed them all.
\<close>

theorem histogram_percentile:
  assumes "sorted bounds" and "bounds \<noteq> []" and "length vs < 2 ^ 64"
  shows "percentile (fold (\<lambda>v h. fh_record h v) vs (fh_new bounds)) p =
    (if vs = [] then None
     else Some (case find (\<lambda>b. percentile_rank (length vs) p \<le> length (filter (\<lambda>v. v \<le> b) vs)) bounds of
                  Some b \<Rightarrow> b | None \<Rightarrow> last bounds))"
  using assms percentile_scan_find [OF assms(1), of 0 vs]
  by (simp add: histogram_holds percentile_def split: option.split)

theorem histogram_percentile_witness:
  "sorted METADATA_FETCH_BUCKETS_MS \<and> METADATA_FETCH_BUCKETS_MS \<noteq> [] \<and>
   percentile (fold (\<lambda>v h. fh_record h v) [300, 700, 20, 90000] (fh_new METADATA_FETCH_BUCKETS_MS)) (1 / 2) = Some 500"
proof -
  let ?vs = "[300, 700, 20, 90000 :: nat]"
  have 1: "sorted METADATA_FETCH_BUCKETS_MS" "METADATA_FETCH_BUCKETS_MS \<noteq> []" by code_simp+
  have 2: "length ?vs < 2 ^ 64" by simp
  have n: "length ?vs = 4" by simp
  have "f64_mul (f64_of_nat 4) (f64_clamp 0 1 (1 / 2)) = 2"
    using f64_exact_nat [of 2] f64_of_nat_exact [of 4] by (simp add: f64_mul_def f64_clamp_def)
  then have 3: "percentile_rank (length ?vs) (1 / 2) = 2" unfolding n percentile_rank_def by (simp add: f64_to_nat_def)
  have 4: "find (\<lambda>b. 2 \<le> length (filter (\<lambda>v. v \<le> b) ?vs)) METADATA_FETCH_BUCKETS_MS = Some 500" by code_simp
  show ?thesis
    using 1 histogram_percentile [OF 1 2, of "1 / 2"] unfolding 3 4 by simp
qed



definition stage_total :: "timeout_stages_snapshot \<Rightarrow> nat" where
  "stage_total t = ts_tcp_connect t + ts_base_handshake t + ts_extension_handshake_send t +
     ts_extension_handshake_receive t + ts_piece_request_send t + ts_piece_receive t + ts_validation t"

lemma small_numerals:
  "(2::nat) = Suc 1" "(3::nat) = Suc 2" "(4::nat) = Suc 3" "(5::nat) = Suc 4" "(6::nat) = Suc 5" "(7::nat) = Suc 6"
  by simp_all

lemma timeout_stage_lists:
  assumes "ConnectHandshake \<notin> set stages" and "length stages < 2 ^ 64"
  shows "rs_timeout_stages (fold metadata_timeout_stage stages stats_default) =
    (let n = (\<lambda>s. count_list stages s) in
     [n TcpConnect + n BaseHandshake, n ExtensionHandshakeSend, n ExtensionHandshakeReceive, n PieceRequestSend,
      n PieceReceive, n Validation, n TcpConnect, n BaseHandshake])"
  using assms
proof (induction stages rule: rev_induct)
  case Nil
  have "replicate 8 (0::nat) = [0, 0, 0, 0, 0, 0, 0, 0]" by (simp add: numeral_eq_Suc)
  then show ?case by (simp add: stats_default_def)
next
  case (snoc s stages)
  have small: "Suc (count_list stages a) mod 2 ^ 64 = Suc (count_list stages a)" for a
    using count_le_length [of stages a] snoc.prems(2) by (intro mod_less) simp
  have two: "count_list stages a + count_list stages b \<le> length stages" if "a \<noteq> b" for a b
    using that by (induction stages) auto
  have "Suc (count_list stages TcpConnect + count_list stages BaseHandshake) mod 2 ^ 64 =
      Suc (count_list stages TcpConnect + count_list stages BaseHandshake)"
    using two [of TcpConnect BaseHandshake] snoc.prems(2) by (intro mod_less) simp
  then show ?case using snoc small
    by (cases s) (simp_all add: metadata_timeout_stage_def wrapping_add64_def Let_def small_numerals)
qed



end
