(* ===== verification/Metadata_Scheduler.thy ===== *)
theory Metadata_Scheduler
  imports Hash_Queue Retry_History Runtime_Stats
begin

text \<open>
  \<open>MetadataScheduler\<close> of \<open>src/src/scheduler.rs\<close>: discovered hashes enter the pending queue, are dispatched
  to at most \<open>max_concurrent\<close> jobs, and on failure return to the queue as retries. The fields of the
  scheduler and the locals of its event loop are one state; an iteration of \<open>run\<close> is a step on that
  state with one of the events its \<open>select!\<close> waits for. A job runs elsewhere: here it is its entry in the
  \<open>JoinSet\<close>, and its end is an event. The clock readings within one call are a sequence \<open>clock\<close>; whether
  the channel of a running job accepts a peer is an argument.

  Results: no iteration panics, jobs are bounded and never two for one hash, a hash is never both
  queued and in flight; every hash gets a bounded number of failed jobs in the lifetime of its
  retry record; dispatching is work-conserving; and what the end of a job does on every branch.
\<close>

subsection \<open>Data\<close>

datatype metadata_admission = Fetch | Skip | RetryAfter duration

datatype completion_status = Accepted | FetchFailed | DeliveryRejected

record metadata_completion =
  mc_info_hash :: string
  mc_status :: completion_status
  mc_attempts :: nat

definition is_success :: "metadata_completion \<Rightarrow> bool" where
  "is_success c = (mc_status c = Accepted)"

record metadata_job =
  mj_info_hash :: string
  mj_peers :: "peer_candidate list"
  mj_source_nodes :: "node_tuple list"
  mj_source :: hash_source

text \<open>\<open>peer_tx\<close> is the list of the peers sent so far.\<close>

record in_flight_state =
  if_peer_tx :: "peer_candidate list"
  if_scheduled_peers :: "socket_addr list"
  if_entry :: queued_hash

datatype job_outcome = GateRejected | Deferred duration | Completed completion_status

record job_result =
  jr_info_hash :: string
  jr_attempts :: nat
  jr_outcome :: job_outcome

definition MAX_LOOKUP_DURATION :: duration where
  "MAX_LOOKUP_DURATION = secs 300"

record metadata_scheduler =
  ms_max_queue_size :: nat
  ms_max_concurrent :: nat
  ms_completion_callback :: bool
  ms_total_received :: nat
  ms_total_dropped :: nat
  ms_total_dispatched :: nat
  ms_total_completed :: nat
  ms_queue_len :: nat
  ms_stats :: runtime_stats
  ms_peer_lookup :: bool
  ms_options :: metadata_options
  ms_lookup_timeout :: duration
  ms_retry_history :: retry_history
  ms_queue :: pending_hash_queue
  ms_in_flight :: "(string, in_flight_state) hmap"
  ms_tasks :: "(nat \<times> metadata_job) list"
  ms_task_hashes :: "(nat, string) hmap"
  ms_next_task :: nat
  ms_input_closed :: bool
  ms_reports :: "metadata_completion list"

subsection \<open>Operations\<close>

definition ms_new ::
  "nat \<Rightarrow> nat \<Rightarrow> bool \<Rightarrow> runtime_stats \<Rightarrow> bool \<Rightarrow> metadata_options \<Rightarrow> duration \<Rightarrow> metadata_scheduler" where
  "ms_new queue_size concurrency callback stats peer_lookup options lookup_timeout =
     \<lparr> ms_max_queue_size = max queue_size 1, ms_max_concurrent = max concurrency 1,
       ms_completion_callback = callback, ms_total_received = 0, ms_total_dropped = 0,
       ms_total_dispatched = 0, ms_total_completed = 0, ms_queue_len = 0, ms_stats = stats,
       ms_peer_lookup = peer_lookup, ms_options = options,
       ms_lookup_timeout = min lookup_timeout MAX_LOOKUP_DURATION, ms_retry_history = rh_default,
       ms_queue = pq_new (max queue_size 1) HASH_QUEUE_TTL, ms_in_flight = [], ms_tasks = [],
       ms_task_hashes = [], ms_next_task = 0, ms_input_closed = False, ms_reports = [] \<rparr>"

text \<open>\<open>runtime_stats.yield_stats().inc(name)\<close> and \<open>total_dropped.fetch_add(n)\<close>.\<close>

definition ms_inc :: "string \<Rightarrow> metadata_scheduler \<Rightarrow> metadata_scheduler option" where
  "ms_inc name s = map_option (\<lambda>st. s \<lparr> ms_stats := st \<rparr>) (stats_inc name (ms_stats s))"

definition ms_drop :: "nat \<Rightarrow> metadata_scheduler \<Rightarrow> metadata_scheduler" where
  "ms_drop n s = s \<lparr> ms_total_dropped := wrapping_add64 (ms_total_dropped s) n,
                     ms_stats := metadata_queue_stale n (ms_stats s) \<rparr>"

definition record_queue_push :: "metadata_scheduler \<Rightarrow> queue_push_kind \<Rightarrow> metadata_scheduler option" where
  "record_queue_push s kind =
     (case kind of
        Inserted \<Rightarrow> Some (s \<lparr> ms_stats := metadata_queue_inserted (ms_stats s) \<rparr>)
      | Updated \<Rightarrow> Some (s \<lparr> ms_stats := metadata_queue_deduplicated (ms_stats s) \<rparr>)
      | Stale \<Rightarrow> Some (ms_drop 1 s)
      | _ \<Rightarrow> do {
          s \<leftarrow> (if kind = EvictedRetry then ms_inc ''metadata_retry_evicted'' s else Some s);
          Some (s \<lparr> ms_total_dropped := wrapping_add64 (ms_total_dropped s) 1,
                    ms_stats := metadata_queue_evicted (metadata_queue_inserted (ms_stats s)) \<rparr>)
        })"

definition send_live_peer :: "in_flight_state \<Rightarrow> hash_discovered \<Rightarrow> bool \<Rightarrow> in_flight_state" where
  "send_live_peer state event sent =
     (case hd_peer_addr event of
        None \<Rightarrow> state
      | Some addr \<Rightarrow>
          if addr \<notin> set (if_scheduled_peers state) \<and>
             length (if_scheduled_peers state) < MAX_METADATA_CANDIDATES_PER_HASH \<and> sent
          then state \<lparr> if_peer_tx := if_peer_tx state @ [\<lparr> pc_addr = addr, pc_discovered_at = hd_discovered_at event \<rparr>],
                       if_scheduled_peers := if_scheduled_peers state @ [addr] \<rparr>
          else state)"

definition exhausted :: "metadata_options \<Rightarrow> retry_record option \<Rightarrow> bool" where
  "exhausted policy rcd = (case rcd of None \<Rightarrow> False | Some r \<Rightarrow> attempt_limit r policy \<le> rr_failures r)"

definition note_new_peer :: "metadata_scheduler \<Rightarrow> hash_discovered \<Rightarrow> metadata_scheduler option" where
  "note_new_peer s event =
     (case hget (pq_entries (ms_queue s)) (hd_info_hash event) of
        None \<Rightarrow> Some s
      | Some entry \<Rightarrow>
          if qh_is_retry entry \<and>
             (case hd_peer_addr event of None \<Rightarrow> False
              | Some addr \<Rightarrow> \<not> list_ex (\<lambda>peer. pc_addr peer = addr) (qh_peers entry))
          then ms_inc ''metadata_retry_new_peer'' s else Some s)"

definition defer_known :: "pending_hash_queue \<Rightarrow> string \<Rightarrow> retry_record option \<Rightarrow> pending_hash_queue" where
  "defer_known queue hash rcd =
     (case rcd of
        None \<Rightarrow> queue
      | Some r \<Rightarrow>
          case pq_remove queue hash of
            (None, queue) \<Rightarrow> queue
          | (Some entry, queue) \<Rightarrow> snd (pq_defer queue entry r))"

definition enqueue :: "metadata_scheduler \<Rightarrow> hash_discovered \<Rightarrow> instant \<Rightarrow> bool \<Rightarrow> metadata_scheduler option" where
  "enqueue s event now sent =
     (let hash = hd_info_hash event;
          s = s \<lparr> ms_total_received := wrapping_add64 (ms_total_received s) 1 \<rparr> in
      case hget (ms_in_flight s) hash of
        Some state \<Rightarrow>
          if HASH_QUEUE_TTL < now - hd_discovered_at event then record_queue_push s Stale
          else
            let state = state \<lparr> if_entry := snd (merge_candidate (if_entry state) event) \<rparr>;
                state = send_live_peer state event sent
            in record_queue_push (s \<lparr> ms_in_flight := hput hash state (ms_in_flight s) \<rparr>) Updated
      | None \<Rightarrow>
          let (rcd, history) = observe_event (ms_retry_history s) event now (ms_options s);
              s = s \<lparr> ms_retry_history := history \<rparr> in
          if exhausted (ms_options s) rcd then ms_inc ''metadata_retry_exhausted'' s
          else do {
            s \<leftarrow> note_new_peer s event;
            (kind, queue) \<leftarrow> pq_push (ms_queue s) event now;
            record_queue_push (s \<lparr> ms_queue := defer_known queue hash rcd \<rparr>) kind
          })"

definition spawn_job :: "metadata_scheduler \<Rightarrow> queued_hash \<Rightarrow> metadata_scheduler" where
  "spawn_job s entry =
     (let job = \<lparr> mj_info_hash = qh_info_hash entry, mj_peers = qh_peers entry,
                  mj_source_nodes = qh_source_nodes entry, mj_source = qh_source entry \<rparr>;
          task = ms_next_task s
      in s \<lparr> ms_total_dispatched := wrapping_add64 (ms_total_dispatched s) 1,
             ms_tasks := ms_tasks s @ [(task, job)],
             ms_next_task := task + 1,
             ms_task_hashes := hput task (mj_info_hash job) (ms_task_hashes s) \<rparr>)"

text \<open>One round of the dispatch loop for the entry taken from the queue.\<close>

definition dispatch_entry :: "metadata_scheduler \<Rightarrow> queued_hash \<Rightarrow> instant \<Rightarrow> instant \<Rightarrow> metadata_scheduler option" where
  "dispatch_entry s entry waited now =
     (let s = s \<lparr> ms_stats := observe_metadata_queue_wait
                   (min ((waited - qh_queued_at entry) div 1000000) (2 ^ 64 - 1)) (ms_stats s) \<rparr>;
          peers = filter (\<lambda>peer. qh_is_retry entry \<or> now - pc_discovered_at peer \<le> HASH_QUEUE_TTL) (qh_peers entry);
          entry = entry \<lparr> qh_peers := take MAX_METADATA_CANDIDATES_PER_HASH peers \<rparr> in
      if qh_peers entry = [] \<and> \<not> ms_peer_lookup s then Some (ms_drop 1 s)
      else do {
        let state = \<lparr> if_peer_tx = [], if_scheduled_peers = remdups (map pc_addr (qh_peers entry)), if_entry = entry \<rparr>;
        s \<leftarrow> (if qh_is_retry entry then ms_inc ''metadata_retry_dispatched'' s else Some s);
        Some (spawn_job (s \<lparr> ms_in_flight := hput (qh_info_hash entry) state (ms_in_flight s) \<rparr>) entry)
      })"

text \<open>\<open>None\<close> is a panic, or a loop that does not end.\<close>

partial_function (option) dispatch_loop :: "(nat \<Rightarrow> instant) \<Rightarrow> nat \<Rightarrow> metadata_scheduler \<Rightarrow> metadata_scheduler option" where
  "dispatch_loop clock i s =
     (if ms_max_concurrent s \<le> length (ms_tasks s) then Some s
      else do {
        (popped, queue) \<leftarrow> pop_newest_ready (ms_queue s) (clock i);
        let s = s \<lparr> ms_queue := queue \<rparr>;
        case popped of
          None \<Rightarrow> Some s
        | Some entry \<Rightarrow> do {
            s \<leftarrow> dispatch_entry s entry (clock (i + 1)) (clock (i + 2));
            dispatch_loop clock (i + 3) s
          }
      })"

declare dispatch_loop.simps [code]

definition dispatch_ready :: "metadata_scheduler \<Rightarrow> (nat \<Rightarrow> instant) \<Rightarrow> metadata_scheduler option" where
  "dispatch_ready s clock = do {
     queue \<leftarrow> promote_ready (ms_queue s) (clock 0);
     dispatch_loop clock 1 (s \<lparr> ms_queue := queue \<rparr>)
   }"

definition finish :: "metadata_scheduler \<Rightarrow> string \<Rightarrow> completion_status \<Rightarrow> nat \<Rightarrow> metadata_scheduler" where
  "finish s info_hash status attempts =
     (let s = s \<lparr> ms_total_completed := wrapping_add64 (ms_total_completed s) 1 \<rparr> in
      if ms_completion_callback s
      then s \<lparr> ms_reports := ms_reports s @ [\<lparr> mc_info_hash = info_hash, mc_status = status, mc_attempts = attempts \<rparr>] \<rparr>
      else s)"

definition schedule_retry ::
  "metadata_scheduler \<Rightarrow> queued_hash \<Rightarrow> bool \<Rightarrow> duration \<Rightarrow> instant \<Rightarrow> metadata_scheduler option" where
  "schedule_retry s entry failed delay now =
     (if retry_max_attempts (ms_options s) = 0 then Some s
      else if qh_is_retry entry \<and> qh_expires_at entry \<le> now then ms_inc ''metadata_retry_exhausted'' s
      else do {
        (record, history) \<leftarrow> rh_record (ms_retry_history s) (qh_info_hash entry) now failed delay (ms_options s);
        let s = s \<lparr> ms_retry_history := remember history entry \<rparr>;
        case record of
          None \<Rightarrow> ms_inc ''metadata_retry_history_full'' s
        | Some r \<Rightarrow>
            if attempt_limit r (ms_options s) \<le> rr_failures r \<or> rr_expires_at r \<le> rr_next_due r
            then ms_inc ''metadata_retry_exhausted'' s
            else
              let (deferred, queue) = pq_defer (ms_queue s) entry r in
              ms_inc (if deferred then ''metadata_retry_scheduled'' else ''metadata_retry_evicted'') (s \<lparr> ms_queue := queue \<rparr>)
      })"

definition handle_job_result :: "metadata_scheduler \<Rightarrow> job_result \<Rightarrow> instant \<Rightarrow> metadata_scheduler option" where
  "handle_job_result s result now =
     (let hash = jr_info_hash result in
      case hget (ms_in_flight s) hash of
        None \<Rightarrow> Some s
      | Some state \<Rightarrow>
          let s = s \<lparr> ms_in_flight := hdel hash (ms_in_flight s), ms_queue := snd (pq_remove (ms_queue s) hash) \<rparr> in
          case jr_outcome result of
            GateRejected \<Rightarrow> Some (s \<lparr> ms_retry_history := rh_remove (ms_retry_history s) hash \<rparr>)
          | Deferred delay \<Rightarrow> do {
              s \<leftarrow> ms_inc ''metadata_retry_deferred'' s;
              schedule_retry s (if_entry state) False delay now
            }
          | Completed status \<Rightarrow>
              let s = finish s hash status (jr_attempts result) in
              if status = Accepted
              then Some (s \<lparr> ms_retry_history := rh_remove (ms_retry_history s) hash \<rparr>)
              else schedule_retry s (if_entry state) True 0 now)"

definition sync_queue_len :: "metadata_scheduler \<Rightarrow> nat \<Rightarrow> nat \<Rightarrow> metadata_scheduler" where
  "sync_queue_len s queued in_flight =
     (let depth = sat_add64 queued in_flight in
      s \<lparr> ms_queue_len := depth, ms_stats := set_metadata_queue depth in_flight (ms_stats s) \<rparr>)"

subsection \<open>The event loop\<close>

text \<open>
  The events of \<open>select!\<close>: a hash (with the depth of the ingress queue left behind and whether a running
  job's channel takes the peer), the end of the input, a job that returned or panicked, and the
  timers.
\<close>

datatype sched_event =
    HashReceived hash_discovered nat instant bool
  | HashInputClosed nat
  | JobReturned nat job_outcome nat instant
  | JobPanicked nat instant
  | DispatchTick
  | MaintenanceTick instant
  | StatsTick

definition loop_top :: "metadata_scheduler \<Rightarrow> (nat \<Rightarrow> instant) \<Rightarrow> metadata_scheduler option" where
  "loop_top s clock = do {
     s \<leftarrow> dispatch_ready s clock;
     let s = sync_queue_len s (pq_len (ms_queue s)) (length (ms_in_flight s));
     let s = s \<lparr> ms_queue_len := sat_add64 (pressure_len (ms_queue s)) (length (ms_in_flight s)) \<rparr>;
     stats \<leftarrow> stats_set ''metadata_retry_waiting''
       (length (pq_retry_expiry (ms_queue s)) - length (pq_ready_retry (ms_queue s))) (ms_stats s);
     stats \<leftarrow> stats_set ''metadata_retry_history'' (length (rh_entries (ms_retry_history s))) stats;
     Some (s \<lparr> ms_stats := stats \<rparr>)
   }"

definition loop_done :: "metadata_scheduler \<Rightarrow> bool" where
  "loop_done s = (ms_input_closed s \<and> pq_entries (ms_queue s) = [] \<and> ms_tasks s = [])"

text \<open>A branch of \<open>select!\<close> whose precondition fails, or a task that does not exist, cannot fire.\<close>

definition join_task :: "metadata_scheduler \<Rightarrow> nat \<Rightarrow> metadata_scheduler" where
  "join_task s i = s \<lparr> ms_tasks := filter (\<lambda>(j, _). j \<noteq> i) (ms_tasks s), ms_task_hashes := hdel i (ms_task_hashes s) \<rparr>"

fun sched_react :: "metadata_scheduler \<Rightarrow> sched_event \<Rightarrow> metadata_scheduler option" where
  "sched_react s (HashReceived event depth now sent) =
     (if ms_input_closed s then Some s
      else enqueue (s \<lparr> ms_stats := set_hash_ingress_queue_depth depth (ms_stats s) \<rparr>) event now sent)"
| "sched_react s (HashInputClosed depth) =
     (if ms_input_closed s then Some s
      else Some (s \<lparr> ms_stats := set_hash_ingress_queue_depth depth (ms_stats s), ms_input_closed := True \<rparr>))"
| "sched_react s (JobReturned i outcome attempts now) =
     (case map_of (ms_tasks s) i of
        None \<Rightarrow> Some s
      | Some job \<Rightarrow> handle_job_result (join_task s i)
          \<lparr> jr_info_hash = mj_info_hash job, jr_attempts = attempts, jr_outcome = outcome \<rparr> now)"
| "sched_react s (JobPanicked i now) =
     (if map_of (ms_tasks s) i = None then Some s
      else case hget (ms_task_hashes s) i of
          None \<Rightarrow> Some (join_task s i)
        | Some info_hash \<Rightarrow> handle_job_result (join_task s i)
            \<lparr> jr_info_hash = info_hash, jr_attempts = 0, jr_outcome = Completed FetchFailed \<rparr> now)"
| "sched_react s DispatchTick = Some s"
| "sched_react s (MaintenanceTick now) = do {
     (expired, queue) \<leftarrow> pq_expire (ms_queue s) now;
     let s = s \<lparr> ms_queue := queue \<rparr>;
     Some (if 0 < expired then ms_drop expired s else s)
   }"
| "sched_react s StatsTick = Some s"

definition sched_iteration :: "metadata_scheduler \<Rightarrow> (nat \<Rightarrow> instant) \<times> sched_event \<Rightarrow> metadata_scheduler option" where
  "sched_iteration s = (\<lambda>(clock, event). do {
     s \<leftarrow> loop_top s clock;
     if loop_done s then Some s else sched_react s event
   })"

text \<open>What \<open>run\<close> does after its loop.\<close>

definition sched_stop :: "metadata_scheduler \<Rightarrow> metadata_scheduler option" where
  "sched_stop s = do {
     let s = s \<lparr> ms_tasks := [], ms_queue_len := 0,
                 ms_stats := set_metadata_queue 0 0 (set_hash_ingress_queue_depth 0 (ms_stats s)) \<rparr>;
     stats \<leftarrow> stats_set ''metadata_retry_waiting'' 0 (ms_stats s);
     stats \<leftarrow> stats_set ''metadata_retry_history'' 0 stats;
     Some (s \<lparr> ms_stats := stats \<rparr>)
   }"

subsection \<open>The invariant\<close>

definition jobs_wf :: "metadata_scheduler \<Rightarrow> bool" where
  "jobs_wf s =
     (hwf (ms_in_flight s) \<and> distinct (map fst (ms_tasks s)) \<and> (\<forall>i \<in> fst ` set (ms_tasks s). i < ms_next_task s) \<and>
      ms_task_hashes s = map (\<lambda>(i, job). (i, mj_info_hash job)) (ms_tasks s) \<and>
      distinct (map (\<lambda>(i, job). mj_info_hash job) (ms_tasks s)) \<and>
      (\<lambda>(i, job). mj_info_hash job) ` set (ms_tasks s) = fst ` set (ms_in_flight s) \<and>
      length (ms_tasks s) \<le> ms_max_concurrent s)"

definition flight_wf :: "(string, in_flight_state) hmap \<Rightarrow> bool" where
  "flight_wf fl = (\<forall>h st. hget fl h = Some st \<longrightarrow> qh_info_hash (if_entry st) = h \<and>
     length (if_scheduled_peers st) \<le> MAX_METADATA_CANDIDATES_PER_HASH)"

definition active_hashes :: "metadata_scheduler \<Rightarrow> string set" where
  "active_hashes s = pq_hashes (ms_queue s) \<union> fst ` set (ms_in_flight s)"

text \<open>A record has at most as many failures as attempts, and fewer while the hash may be tried again.\<close>

definition budget_wf :: "metadata_options \<Rightarrow> retry_history \<Rightarrow> string set \<Rightarrow> bool" where
  "budget_wf policy rh active =
     (\<forall>h st. hget (rh_entries rh) h = Some st \<longrightarrow>
        rr_failures (rst_record st) \<le> attempt_limit (rst_record st) policy \<and>
        (h \<in> active \<longrightarrow> rr_failures (rst_record st) < attempt_limit (rst_record st) policy))"

definition sched_inv :: "metadata_scheduler \<Rightarrow> bool" where
  "sched_inv s =
     (pq_inv (ms_queue s) \<and> pq_capacity (ms_queue s) = ms_max_queue_size s \<and>
      rh_inv (retry_history_capacity (ms_options s)) (ms_retry_history s) \<and>
      jobs_wf s \<and> flight_wf (ms_in_flight s) \<and>
      pq_hashes (ms_queue s) \<inter> fst ` set (ms_in_flight s) = {} \<and>
      budget_wf (ms_options s) (ms_retry_history s) (active_hashes s))"

text \<open>The parts that counters, statistics and reports do not touch.\<close>

lemma sched_inv_frame [simp]:
  "sched_inv (s \<lparr> ms_stats := x \<rparr>) = sched_inv s"
  "sched_inv (s \<lparr> ms_total_received := n \<rparr>) = sched_inv s"
  "sched_inv (s \<lparr> ms_total_dropped := n \<rparr>) = sched_inv s"
  "sched_inv (s \<lparr> ms_total_dispatched := n \<rparr>) = sched_inv s"
  "sched_inv (s \<lparr> ms_total_completed := n \<rparr>) = sched_inv s"
  "sched_inv (s \<lparr> ms_queue_len := n \<rparr>) = sched_inv s"
  "sched_inv (s \<lparr> ms_input_closed := b \<rparr>) = sched_inv s"
  "sched_inv (s \<lparr> ms_reports := rs \<rparr>) = sched_inv s"
  by (simp_all add: sched_inv_def jobs_wf_def active_hashes_def)

lemma ms_inc_known [simp]:
  "name \<in> set yield_counters \<Longrightarrow> ok (ms_inc name s) P = P (s \<lparr> ms_stats := (ms_stats s) \<lparr> rs_yield := (rs_yield (ms_stats s))
     \<lparr> ys_counters := (ys_counters (rs_yield (ms_stats s)))(name := wrapping_add64 (ys_counters (rs_yield (ms_stats s)) name) 1) \<rparr> \<rparr> \<rparr>)"
  by (simp add: ms_inc_def)

text \<open>\<open>same_core s s'\<close>: only statistics and counters differ.\<close>

definition same_core :: "metadata_scheduler \<Rightarrow> metadata_scheduler \<Rightarrow> bool" where
  "same_core s s' =
     (ms_queue s' = ms_queue s \<and> ms_in_flight s' = ms_in_flight s \<and> ms_tasks s' = ms_tasks s \<and>
      ms_task_hashes s' = ms_task_hashes s \<and> ms_next_task s' = ms_next_task s \<and>
      ms_retry_history s' = ms_retry_history s \<and> ms_options s' = ms_options s \<and>
      ms_max_concurrent s' = ms_max_concurrent s \<and> ms_max_queue_size s' = ms_max_queue_size s \<and>
      ms_peer_lookup s' = ms_peer_lookup s)"

lemma same_core_inv: "same_core s s' \<Longrightarrow> sched_inv s' = sched_inv s"
  by (simp add: same_core_def sched_inv_def jobs_wf_def active_hashes_def)

text \<open>The invariant holds again, and at most \<open>n\<close> sequence numbers were used.\<close>

definition advanced :: "nat \<Rightarrow> metadata_scheduler \<Rightarrow> metadata_scheduler \<Rightarrow> bool" where
  "advanced n s s' = (sched_inv s' \<and> pq_sequence (ms_queue s') \<le> pq_sequence (ms_queue s) + n)"

lemma advanced_trans: "advanced m s t \<Longrightarrow> advanced n t u \<Longrightarrow> m + n \<le> k \<Longrightarrow> advanced k s u"
  by (auto simp: advanced_def)

lemma same_core_step: "same_core s s' \<Longrightarrow> sched_inv s \<Longrightarrow> sched_inv s' \<and> ms_queue s' = ms_queue s"
  using same_core_inv [of s s'] by (auto simp: same_core_def)

lemma record_queue_push_core: "ok (record_queue_push s kind) (\<lambda>s'. same_core s s' \<and> ms_reports s' = ms_reports s)"
  by (cases kind) (simp_all add: record_queue_push_def ms_drop_def same_core_def)

lemma budget_wf_mono:
  "budget_wf policy rh active \<Longrightarrow> active' \<subseteq> active \<Longrightarrow> budget_wf policy rh active'"
  unfolding budget_wf_def by blast

lemma budget_wf_records:
  assumes "budget_wf policy rh active"
    and "\<And>h st'. hget (rh_entries rh') h = Some st' \<Longrightarrow> \<exists>st. hget (rh_entries rh) h = Some st \<and> rst_record st' = rst_record st"
  shows "budget_wf policy rh' active"
  using assms unfolding budget_wf_def by metis

lemma budget_wf_put:
  "budget_wf policy rh active \<Longrightarrow> rr_failures (rst_record st) \<le> attempt_limit (rst_record st) policy \<Longrightarrow>
   (h \<in> active \<Longrightarrow> rr_failures (rst_record st) < attempt_limit (rst_record st) policy) \<Longrightarrow>
   budget_wf policy (rh \<lparr> rh_entries := hput h st (rh_entries rh) \<rparr>) active"
  by (auto simp: budget_wf_def)

subsection \<open>Steps of a job's life keep the invariant\<close>

lemma attempt_limit_mono:
  "rr_extra_attempts r \<le> rr_extra_attempts r' \<Longrightarrow> attempt_limit r policy \<le> attempt_limit r' policy"
  by (auto simp: attempt_limit_def sat_add64_def)

lemma observe_event_budget:
  assumes "rh_inv cap rh" and "budget_wf policy rh active" and "observe_event rh event now policy = (r, rh')"
  shows "budget_wf policy rh' active"
proof -
  let ?h = "hd_info_hash event" and ?rh = "rh_expire rh now"
  have live: "\<exists>st. hget (rh_entries rh) h = Some st \<and> rst_record st' = rst_record st"
    if "hget (rh_entries ?rh) h = Some st'" for h st'
    using that hget_expire_Some [OF assms(1)] by auto
  have exp: "budget_wf policy ?rh active" by (rule budget_wf_records [OF assms(2) live])
  show ?thesis
  proof (cases "hget (rh_entries ?rh) ?h")
    case None
    then show ?thesis using assms(3) exp by (simp add: observe_event_def Let_def)
  next
    case (Some st)
    obtain novel st1 where o: "observe st (hd_peer_addr event) (map_option nt_addr (hd_source_node event)) = (novel, st1)"
      by fastforce
    have same: "rst_record st1 = rst_record st" by (rule observe_spec(1) [OF o])
    obtain r1 where rh': "rh' = ?rh \<lparr> rh_entries := hput ?h (st1 \<lparr> rst_record := r1 \<rparr>) (rh_entries ?rh) \<rparr>"
      and keep: "rr_failures r1 = rr_failures (rst_record st)" "rr_extra_attempts (rst_record st) \<le> rr_extra_attempts r1"
      using assms(3) Some o same by (auto simp: observe_event_def Let_def split: if_splits)
    show ?thesis
      unfolding rh'
    proof (rule budget_wf_put [OF exp])
      have le: "attempt_limit (rst_record st) policy \<le> attempt_limit r1 policy" by (rule attempt_limit_mono [OF keep(2)])
      have b: "rr_failures (rst_record st) \<le> attempt_limit (rst_record st) policy"
        "?h \<in> active \<Longrightarrow> rr_failures (rst_record st) < attempt_limit (rst_record st) policy"
        using exp Some by (simp_all add: budget_wf_def)
      show "rr_failures (rst_record (st1 \<lparr> rst_record := r1 \<rparr>)) \<le> attempt_limit (rst_record (st1 \<lparr> rst_record := r1 \<rparr>)) policy"
        using b(1) le keep by simp
      show "rr_failures (rst_record (st1 \<lparr> rst_record := r1 \<rparr>)) < attempt_limit (rst_record (st1 \<lparr> rst_record := r1 \<rparr>)) policy"
        if "?h \<in> active" using b(2) [OF that] le keep by simp
    qed
  qed
qed

lemma sched_inv_history:
  assumes "sched_inv s" and "rh_inv (retry_history_capacity (ms_options s)) rh" and "budget_wf (ms_options s) rh (active_hashes s)"
  shows "sched_inv (s \<lparr> ms_retry_history := rh \<rparr>)"
  using assms by (simp add: sched_inv_def jobs_wf_def active_hashes_def)

lemma sched_inv_flight:
  assumes "sched_inv s" and "hget (ms_in_flight s) h = Some st"
    and "qh_info_hash (if_entry st') = h" and "length (if_scheduled_peers st') \<le> MAX_METADATA_CANDIDATES_PER_HASH"
  shows "sched_inv (s \<lparr> ms_in_flight := hput h st' (ms_in_flight s) \<rparr>)"
proof -
  have "h \<in> fst ` set (ms_in_flight s)" using assms(2) by (metis hget_None_keys option.distinct(1))
  then have "fst ` set (hput h st' (ms_in_flight s)) = fst ` set (ms_in_flight s)" by (auto simp: keys_hput)
  then show ?thesis using assms by (simp add: sched_inv_def jobs_wf_def active_hashes_def flight_wf_def)
qed

definition retryable :: "metadata_scheduler \<Rightarrow> string \<Rightarrow> bool" where
  "retryable s h = (\<forall>st. hget (rh_entries (ms_retry_history s)) h = Some st \<longrightarrow>
     rr_failures (rst_record st) < attempt_limit (rst_record st) (ms_options s))"

lemma sched_inv_queue:
  assumes "sched_inv s" and "pq_inv q" and "pq_capacity q = pq_capacity (ms_queue s)"
    and "pq_hashes q \<subseteq> insert h (pq_hashes (ms_queue s))" and "h \<notin> fst ` set (ms_in_flight s)" and "retryable s h"
  shows "sched_inv (s \<lparr> ms_queue := q \<rparr>)"
proof -
  have "pq_hashes q \<inter> fst ` set (ms_in_flight s) = {}" using assms(1,4,5) unfolding sched_inv_def by blast
  moreover have "budget_wf (ms_options s) (ms_retry_history s) (active_hashes (s \<lparr> ms_queue := q \<rparr>))"
    using assms(1,4,6) unfolding sched_inv_def budget_wf_def retryable_def active_hashes_def by auto
  ultimately show ?thesis using assms(1-3) by (simp add: sched_inv_def jobs_wf_def active_hashes_def)
qed

lemma sched_inv_shrink:
  assumes "sched_inv s" and "pq_inv q" and "pq_capacity q = pq_capacity (ms_queue s)" and "pq_hashes q \<subseteq> pq_hashes (ms_queue s)"
  shows "sched_inv (s \<lparr> ms_queue := q \<rparr>)"
proof -
  have "pq_hashes q \<inter> fst ` set (ms_in_flight s) = {}" using assms(1,4) unfolding sched_inv_def by blast
  moreover have "budget_wf (ms_options s) (ms_retry_history s) (active_hashes (s \<lparr> ms_queue := q \<rparr>))"
    using assms(1,4) unfolding sched_inv_def by (elim conjE budget_wf_mono) (auto simp: active_hashes_def)
  ultimately show ?thesis using assms(1-3) by (simp add: sched_inv_def jobs_wf_def active_hashes_def)
qed

lemma push_effect_hashes: "push_effect q ev kind q' \<Longrightarrow> pq_hashes q' \<subseteq> insert (hd_info_hash ev) (pq_hashes q)"
  by (cases kind) (auto simp: push_effect_def Let_def)

lemma send_live_peer_wf:
  "length (if_scheduled_peers st) \<le> MAX_METADATA_CANDIDATES_PER_HASH \<Longrightarrow>
   length (if_scheduled_peers (send_live_peer st ev sent)) \<le> MAX_METADATA_CANDIDATES_PER_HASH"
  "if_entry (send_live_peer st ev sent) = if_entry st"
  by (auto simp: send_live_peer_def split: option.split)

lemma pq_defer_subset: "pq_hashes (snd (pq_defer q e r)) \<subseteq> insert (qh_info_hash e) (pq_hashes q)"
  by (auto simp: pq_defer_hashes)

text \<open>Pushing an event and deferring its entry when the hash has a retry record.\<close>

definition queue_grew :: "pending_hash_queue \<Rightarrow> string \<Rightarrow> pending_hash_queue \<Rightarrow> bool" where
  "queue_grew q h q' = (pq_inv q' \<and> pq_sequence q' \<le> pq_sequence q + 2 \<and> pq_capacity q' = pq_capacity q \<and>
     pq_hashes q' \<subseteq> insert h (pq_hashes q))"

lemma push_and_defer:
  assumes "pq_inv q" and "pq_sequence q + 2 < 2 ^ 64"
  shows "ok (pq_push q ev now) (\<lambda>(kind, q1). queue_grew q (hd_info_hash ev) (defer_known q1 (hd_info_hash ev) rcd))"
proof -
  let ?h = "hd_info_hash ev"
  obtain kind q1 where push: "pq_push q ev now = Some (kind, q1)" and q1: "pq_inv q1" "pq_sequence q1 \<le> pq_sequence q + 1"
    and eff: "push_effect q ev kind q1"
    using pq_push_ok [OF assms(1), of ev now] assms(2) by (auto simp: ok_iff)
  have cap: "pq_capacity q1 = pq_capacity q" by (rule pq_push_capacity [OF push])
  have sub: "pq_hashes q1 \<subseteq> insert ?h (pq_hashes q)" by (rule push_effect_hashes [OF eff])
  have plain: "queue_grew q ?h q1" using q1 cap sub by (simp add: queue_grew_def)
  have deferred: "queue_grew q ?h (snd (pq_defer q2 entry r))" if rem: "pq_remove q1 ?h = (Some entry, q2)" for entry q2 r
  proof -
    have q2: "pq_inv q2" "pq_sequence q2 = pq_sequence q1" "pq_capacity q2 = pq_capacity q1" "pq_hashes q2 = pq_hashes q1 - {?h}"
      using pq_remove_inv(1) [OF q1(1), of ?h] pq_remove_entries(3,4) [of q1 ?h] pq_hashes_remove [of q1 ?h] rem by simp_all
    have "hget (pq_entries q1) ?h = Some entry" using pq_remove_entries(1) [of q1 ?h] rem by simp
    then have name: "qh_info_hash entry = ?h" using q1(1) by (simp add: pq_inv_def uniq_def)
    show ?thesis
      using pq_defer_ok [OF q2(1), of entry r] pq_defer_capacity [of q2 entry r] pq_defer_subset [of q2 entry r]
        q1(2) q2 cap sub name assms(2) by (auto simp: queue_grew_def)
  qed
  have "pq_remove q1 ?h = (None, q2) \<Longrightarrow> q2 = q1" for q2
    by (auto simp: pq_remove_def Let_def split: option.splits)
  then have "queue_grew q ?h (defer_known q1 ?h rcd)"
    using plain deferred by (auto simp: defer_known_def split: option.split prod.split)
  then show ?thesis using push by simp
qed

lemma note_new_peer_core: "ok (note_new_peer s event) (same_core s)"
  by (auto simp: note_new_peer_def same_core_def split: option.split)

lemma record_queue_push_advanced: "advanced n s t \<Longrightarrow> ok (record_queue_push t kind) (advanced n s)"
  by (rule ok_mono [OF record_queue_push_core]) (auto simp: advanced_def dest: same_core_step)

lemma enqueue_fresh_ok:
  assumes "sched_inv t" and "pq_sequence (ms_queue t) + 2 < 2 ^ 64" and "hget (ms_in_flight t) (hd_info_hash event) = None"
    and "retryable t (hd_info_hash event)"
  shows "ok (note_new_peer t event) (\<lambda>v. ok (pq_push (ms_queue v) event now)
           (\<lambda>(kind, queue). ok (record_queue_push (v \<lparr> ms_queue := defer_known queue (hd_info_hash event) rcd \<rparr>) kind) (advanced 2 t)))"
proof (rule ok_mono [OF note_new_peer_core])
  fix v
  assume v: "same_core t v"
  let ?h = "hd_info_hash event"
  have vinv: "sched_inv v" and q: "ms_queue v = ms_queue t" using same_core_step [OF v assms(1)] by simp_all
  have pq: "pq_inv (ms_queue v)" "pq_sequence (ms_queue v) + 2 < 2 ^ 64" using vinv assms(2) q by (simp_all add: sched_inv_def)
  have cond: "?h \<notin> fst ` set (ms_in_flight v)" "retryable v ?h"
    using v assms(3,4) by (simp_all add: same_core_def retryable_def hget_None_keys)
  have "ok (record_queue_push (v \<lparr> ms_queue := q2 \<rparr>) kind) (advanced 2 t)" if "queue_grew (ms_queue v) ?h q2" for q2 kind
    using that sched_inv_queue [OF vinv _ _ _ cond, of q2] q
    by (intro record_queue_push_advanced) (simp add: queue_grew_def advanced_def)
  then show "ok (pq_push (ms_queue v) event now)
      (\<lambda>(kind, queue). ok (record_queue_push (v \<lparr> ms_queue := defer_known queue ?h rcd \<rparr>) kind) (advanced 2 t))"
    by (intro ok_mono [OF push_and_defer [OF pq, of event now rcd]]) (simp add: split_beta)
qed

lemma enqueue_ok:
  assumes inv: "sched_inv s" and seq: "pq_sequence (ms_queue s) + 2 < 2 ^ 64"
  shows "ok (enqueue s event now sent) (advanced 2 s)"
proof -
  let ?h = "hd_info_hash event"
  let ?s = "s \<lparr> ms_total_received := wrapping_add64 (ms_total_received s) 1 \<rparr>"
  show ?thesis
  proof (cases "hget (ms_in_flight s) ?h")
    case (Some st)
    let ?st = "send_live_peer (st \<lparr> if_entry := snd (merge_candidate (if_entry st) event) \<rparr>) event sent"
    let ?t = "?s \<lparr> ms_in_flight := hput ?h ?st (ms_in_flight ?s) \<rparr>"
    have "qh_info_hash (if_entry st) = ?h" "length (if_scheduled_peers st) \<le> MAX_METADATA_CANDIDATES_PER_HASH"
      using inv Some by (simp_all add: sched_inv_def flight_wf_def)
    then have "sched_inv ?t"
      using inv Some by (intro sched_inv_flight [of ?s ?h st]) (simp_all add: send_live_peer_wf)
    then have "ok (record_queue_push ?t Updated) (advanced 2 s)" "ok (record_queue_push ?s Stale) (advanced 2 s)"
      using inv by (intro record_queue_push_advanced; simp add: advanced_def)+
    with Some show ?thesis by (simp add: enqueue_def Let_def)
  next
    case None
    obtain rcd history where obs: "observe_event (ms_retry_history s) event now (ms_options s) = (rcd, history)" by fastforce
    define t where "t = ?s \<lparr> ms_retry_history := history \<rparr>"
    have rh: "rh_inv (retry_history_capacity (ms_options s)) (ms_retry_history s)"
      and bud: "budget_wf (ms_options s) (ms_retry_history s) (active_hashes s)" using inv by (simp_all add: sched_inv_def)
    have tinv: "sched_inv t"
      unfolding t_def using inv observe_event_spec(1) [OF rh obs] observe_event_budget [OF rh bud obs]
      by (intro sched_inv_history) (simp_all add: active_hashes_def)
    have t: "ms_queue t = ms_queue s" "ms_options t = ms_options s" "hget (ms_in_flight t) ?h = None" using None by (simp_all add: t_def)
    have eq: "enqueue s event now sent =
        (if exhausted (ms_options s) rcd then ms_inc ''metadata_retry_exhausted'' t
         else Option.bind (note_new_peer t event) (\<lambda>v. Option.bind (pq_push (ms_queue v) event now)
           (\<lambda>(kind, queue). record_queue_push (v \<lparr> ms_queue := defer_known queue ?h rcd \<rparr>) kind)))"
      using None obs by (simp add: enqueue_def Let_def t_def)
    have same: "advanced 2 t = advanced 2 s" by (simp add: advanced_def fun_eq_iff t)
    show ?thesis
    proof (cases "exhausted (ms_options s) rcd")
      case True
      then show ?thesis using eq tinv by (simp add: advanced_def t)
    next
      case False
      have "retryable t ?h"
        using False observe_event_spec(3) [OF rh obs]
        by (auto simp: retryable_def t_def exhausted_def not_le)
      then show ?thesis
        using enqueue_fresh_ok [OF tinv _ t(3), of now rcd] seq False
        by (simp add: eq t(1) same case_prod_unfold)
    qed
  qed
qed

subsection \<open>Dispatching\<close>

lemma finite_pq_hashes [simp]: "finite (pq_hashes q)"
  by (simp add: pq_hashes_def finite_dom_map_of)

lemma choices_Some:
  assumes "pq_inv q" and "e \<in> ran (choices q now)"
  shows "choices q now (qh_info_hash e) = Some e" and "qh_info_hash e \<in> pq_hashes q"
proof -
  obtain h where h: "choices q now h = Some e" using assms(2) by (auto simp: ran_def)
  then obtain e0 where e0: "hget (pq_entries q) h = Some e0" "qh_info_hash e = qh_info_hash e0"
    by (auto simp: choices_def settle_def live_def split: option.splits if_splits)
  then have "qh_info_hash e = h" using assms(1) by (simp add: pq_inv_def uniq_def)
  then show "choices q now (qh_info_hash e) = Some e" and "qh_info_hash e \<in> pq_hashes q"
    using h e0(1) by (simp_all add: pq_hashes_iff)
qed

lemma choices_hashes: "choices q now h = Some e \<Longrightarrow> h \<in> pq_hashes q"
  by (auto simp: choices_def settle_def live_def pq_hashes_iff split: option.splits if_splits)

lemma choices_idem: "hget (pq_entries q') = choices q now \<Longrightarrow> choices q' now = choices q now"
  by (auto simp: choices_def settle_def live_def fun_eq_iff split: option.splits if_splits)

definition none_ready :: "pending_hash_queue \<Rightarrow> instant \<Rightarrow> bool" where
  "none_ready q now = (ready_class True q now = {} \<and> ready_class False q now = {})"

lemma pop_hashes:
  assumes "pq_inv q" and "pop_effect q now r q'"
  shows "r = Some e \<Longrightarrow> qh_info_hash e \<in> pq_hashes q \<and> pq_hashes q' \<subseteq> pq_hashes q - {qh_info_hash e}"
    and "r = None \<Longrightarrow> pq_hashes q' \<subseteq> pq_hashes q \<and> none_ready q' now"
proof -
  assume r: "r = Some e"
  have "e \<in> ran (choices q now)" using assms(2) r by (auto simp: pop_effect_def Let_def ready_class_def split: if_splits)
  moreover have "hget (pq_entries q') = (choices q now)(qh_info_hash e := None)"
    using assms(2) r by (simp add: pop_effect_def Let_def)
  ultimately show "qh_info_hash e \<in> pq_hashes q \<and> pq_hashes q' \<subseteq> pq_hashes q - {qh_info_hash e}"
    using choices_Some(2) [OF assms(1)] choices_hashes [of q now]
    by (auto simp: pq_hashes_iff [of _ q'] split: if_splits)
next
  assume r: "r = None"
  have eq: "hget (pq_entries q') = choices q now" and "ready_class True q now = {}" "ready_class False q now = {}"
    using assms(2) r by (simp_all add: pop_effect_def Let_def)
  then show "pq_hashes q' \<subseteq> pq_hashes q \<and> none_ready q' now"
    by (auto simp: none_ready_def ready_class_def choices_idem [OF eq] pq_hashes_iff [of _ q'] eq dest: choices_hashes)
qed

lemma jobs_wf_spawn:
  assumes "jobs_wf s" and "qh_info_hash entry \<notin> fst ` set (ms_in_flight s)" and "length (ms_tasks s) < ms_max_concurrent s"
  shows "jobs_wf (spawn_job (s \<lparr> ms_in_flight := hput (qh_info_hash entry) st (ms_in_flight s) \<rparr>) entry)"
proof -
  have "hget (ms_task_hashes s) (ms_next_task s) = None"
    using assms(1) by (auto simp: jobs_wf_def hget_None_keys image_image split_beta)
  moreover have "hget (ms_in_flight s) (qh_info_hash entry) = None" using assms(2) by (simp add: hget_None_keys)
  ultimately show ?thesis
    using assms hwf_hput [of "ms_in_flight s" "qh_info_hash entry" st]
    by (auto simp: jobs_wf_def spawn_job_def Let_def hput_fresh less_Suc_eq)
qed

lemma dispatch_entry_ok:
  assumes inv: "sched_inv s" and room: "length (ms_tasks s) < ms_max_concurrent s"
    and new: "qh_info_hash entry \<notin> pq_hashes (ms_queue s)" "qh_info_hash entry \<notin> fst ` set (ms_in_flight s)"
      "retryable s (qh_info_hash entry)"
  shows "ok (dispatch_entry s entry waited now) (\<lambda>s'. sched_inv s' \<and> ms_queue s' = ms_queue s \<and>
           ms_max_concurrent s' = ms_max_concurrent s)"
proof -
  let ?h = "qh_info_hash entry"
  define s1 where "s1 = s \<lparr> ms_stats := observe_metadata_queue_wait
      (min ((waited - qh_queued_at entry) div 1000000) (2 ^ 64 - 1)) (ms_stats s) \<rparr>"
  define e where "e = entry \<lparr> qh_peers := take MAX_METADATA_CANDIDATES_PER_HASH
      (filter (\<lambda>peer. qh_is_retry entry \<or> now - pc_discovered_at peer \<le> HASH_QUEUE_TTL) (qh_peers entry)) \<rparr>"
  have e: "qh_info_hash e = ?h" "length (remdups (map pc_addr (qh_peers e))) \<le> MAX_METADATA_CANDIDATES_PER_HASH"
    using length_remdups_leq [of "map pc_addr (qh_peers e)"] by (simp_all add: e_def)
  define st where "st = \<lparr> if_peer_tx = [], if_scheduled_peers = remdups (map pc_addr (qh_peers e)), if_entry = e \<rparr>"
  have core: "same_core s s1" by (simp add: s1_def same_core_def)
  have spawned: "sched_inv (spawn_job (t \<lparr> ms_in_flight := hput ?h st (ms_in_flight t) \<rparr>) e) \<and>
      ms_queue (spawn_job (t \<lparr> ms_in_flight := hput ?h st (ms_in_flight t) \<rparr>) e) = ms_queue s \<and>
      ms_max_concurrent (spawn_job (t \<lparr> ms_in_flight := hput ?h st (ms_in_flight t) \<rparr>) e) = ms_max_concurrent s"
    if "same_core s t" for t
  proof -
    let ?u = "spawn_job (t \<lparr> ms_in_flight := hput ?h st (ms_in_flight t) \<rparr>) e"
    have t: "ms_queue t = ms_queue s" "ms_in_flight t = ms_in_flight s" "ms_tasks t = ms_tasks s"
      "ms_retry_history t = ms_retry_history s" "ms_options t = ms_options s" "ms_max_concurrent t = ms_max_concurrent s"
      "ms_max_queue_size t = ms_max_queue_size s" and tinv: "sched_inv t"
      using that same_core_step [OF that inv] by (simp_all add: same_core_def)
    have "jobs_wf ?u" using jobs_wf_spawn [of t e st] tinv t room new e(1) by (simp add: sched_inv_def)
    moreover have "flight_wf (ms_in_flight ?u)"
      using inv e by (auto simp: spawn_job_def Let_def sched_inv_def flight_wf_def t st_def)
    moreover have "active_hashes ?u = insert ?h (active_hashes s)"
      by (auto simp: active_hashes_def spawn_job_def Let_def keys_hput t)
    moreover have "budget_wf (ms_options s) (ms_retry_history s) (insert ?h (active_hashes s))"
      using inv new(3) by (auto simp: sched_inv_def budget_wf_def retryable_def)
    ultimately show ?thesis
      using inv new(1) by (auto simp: sched_inv_def spawn_job_def Let_def keys_hput t)
  qed
  have eq: "dispatch_entry s entry waited now =
      (if qh_peers e = [] \<and> \<not> ms_peer_lookup s1 then Some (ms_drop 1 s1)
       else Option.bind (if qh_is_retry e then ms_inc ''metadata_retry_dispatched'' s1 else Some s1)
         (\<lambda>t. Some (spawn_job (t \<lparr> ms_in_flight := hput ?h st (ms_in_flight t) \<rparr>) e)))"
    unfolding dispatch_entry_def Let_def s1_def [symmetric] e_def [symmetric] st_def e(1) ..
  have drop: "sched_inv (ms_drop 1 s1)" "ms_queue (ms_drop 1 s1) = ms_queue s" "ms_max_concurrent (ms_drop 1 s1) = ms_max_concurrent s"
    using inv by (simp_all add: ms_drop_def s1_def)
  have "ok (if qh_is_retry e then ms_inc ''metadata_retry_dispatched'' s1 else Some s1) (same_core s)"
    using core by (simp add: same_core_def)
  note run = ok_mono [OF this, where Q = "\<lambda>t. ok (Some (spawn_job (t \<lparr> ms_in_flight := hput ?h st (ms_in_flight t) \<rparr>) e))
      (\<lambda>s'. sched_inv s' \<and> ms_queue s' = ms_queue s \<and> ms_max_concurrent s' = ms_max_concurrent s)"]
  show ?thesis
  proof (cases "qh_peers e = [] \<and> \<not> ms_peer_lookup s1")
    case True
    then show ?thesis unfolding eq using drop by simp
  next
    case False
    then show ?thesis
      unfolding eq if_not_P [OF False] ok_bind using spawned by (intro run) (simp only: ok_Some)
  qed
qed

definition saturated :: "metadata_scheduler \<Rightarrow> (nat \<Rightarrow> instant) \<Rightarrow> bool" where
  "saturated s clock = (length (ms_tasks s) = ms_max_concurrent s \<or> (\<exists>j. none_ready (ms_queue s) (clock j)))"

lemma dispatch_loop_ok:
  assumes "sched_inv s"
  shows "ok (dispatch_loop clock i s) (\<lambda>s'. advanced 0 s s' \<and> saturated s' clock)"
  using assms
proof (induction "card (pq_hashes (ms_queue s))" arbitrary: s i rule: less_induct)
  case less
  show ?case
  proof (cases "ms_max_concurrent s \<le> length (ms_tasks s)")
    case True
    then show ?thesis
      using less.prems by (subst dispatch_loop.simps) (simp add: advanced_def saturated_def sched_inv_def jobs_wf_def)
  next
    case False
    have pq: "pq_inv (ms_queue s)" using less.prems by (simp add: sched_inv_def)
    obtain r q where pop: "pop_newest_ready (ms_queue s) (clock i) = Some (r, q)" and q: "pq_inv q" "pq_sequence q = pq_sequence (ms_queue s)"
      and eff: "pop_effect (ms_queue s) (clock i) r q"
      using pop_newest_ready_ok [OF pq, of "clock i"] by (auto simp: ok_iff)
    have cap: "pq_capacity q = pq_capacity (ms_queue s)" by (rule pop_newest_ready_capacity [OF pop])
    let ?s = "s \<lparr> ms_queue := q \<rparr>"
    show ?thesis
    proof (cases r)
      case None
      have "sched_inv ?s" "none_ready q (clock i)"
        using sched_inv_shrink [OF less.prems q(1) cap] pop_hashes(2) [OF pq eff None] by simp_all
      then show ?thesis
        using False pop None q(2) by (subst dispatch_loop.simps) (auto simp: advanced_def saturated_def)
    next
      case (Some e)
      let ?h = "qh_info_hash e"
      have h: "?h \<in> pq_hashes (ms_queue s)" "pq_hashes q \<subseteq> pq_hashes (ms_queue s) - {?h}"
        using pop_hashes(1) [OF pq eff Some] by simp_all
      have inv: "sched_inv ?s" by (rule sched_inv_shrink [OF less.prems q(1) cap]) (use h(2) in blast)
      have new: "?h \<notin> pq_hashes (ms_queue ?s)" "?h \<notin> fst ` set (ms_in_flight ?s)" "retryable ?s ?h"
        using less.prems h by (auto simp: sched_inv_def retryable_def budget_wf_def active_hashes_def)
      have room: "length (ms_tasks ?s) < ms_max_concurrent ?s" using False by simp
      obtain s2 where s2: "dispatch_entry ?s e (clock (i + 1)) (clock (i + 2)) = Some s2" "sched_inv s2" "ms_queue s2 = q"
        using dispatch_entry_ok [OF inv room new, of "clock (i + 1)" "clock (i + 2)"] by (auto simp: ok_iff)
      have "card (pq_hashes (ms_queue s2)) < card (pq_hashes (ms_queue s))"
        unfolding s2(3) using h by (intro psubset_card_mono) auto
      from less.hyps [OF this s2(2), of "i + 3"] show ?thesis
        using False pop Some s2 q(2) by (subst dispatch_loop.simps) (simp add: advanced_def)
    qed
  qed
qed

lemma settle_hashes: "hget (pq_entries q') = settle now (hget (pq_entries q)) \<Longrightarrow> pq_hashes q' = pq_hashes q"
  by (auto simp: pq_hashes_def settle_def)

lemma dispatch_ready_ok:
  assumes "sched_inv s"
  shows "ok (dispatch_ready s clock) (\<lambda>s'. advanced 0 s s' \<and> saturated s' clock)"
proof -
  have pq: "pq_inv (ms_queue s)" using assms by (simp add: sched_inv_def)
  obtain q where q: "promote_ready (ms_queue s) (clock 0) = Some q" "pq_inv q" "pq_sequence q = pq_sequence (ms_queue s)"
    "pq_hashes q = pq_hashes (ms_queue s)"
    using promote_ready_ok [OF pq, of "clock 0"] by (auto simp: ok_iff dest: settle_hashes)
  have "sched_inv (s \<lparr> ms_queue := q \<rparr>)"
    by (rule sched_inv_shrink [OF assms q(2) promote_ready_capacity [OF q(1)]]) (simp add: q(4))
  from dispatch_loop_ok [OF this, of clock 1] show ?thesis
    by (simp add: dispatch_ready_def q(1,3) advanced_def)
qed

lemma loop_top_ok:
  assumes "sched_inv s"
  shows "ok (loop_top s clock) (\<lambda>s'. advanced 0 s s' \<and> saturated s' clock)"
  unfolding loop_top_def ok_bind Let_def
  by (rule ok_mono [OF dispatch_ready_ok [OF assms]])
    (simp add: sync_queue_len_def Let_def advanced_def saturated_def)

subsection \<open>The end of a job\<close>

lemma record_budget:
  assumes "rh_inv (retry_history_capacity policy) rh" and "budget_wf policy rh active" and "h \<notin> active"
    and "\<forall>st. hget (rh_entries rh) h = Some st \<longrightarrow> rr_failures (rst_record st) < attempt_limit (rst_record st) policy"
    and "0 < retry_max_attempts policy"
    and "rh_record rh h now failed delay policy = Some (r, rh')"
  shows "rh_inv (retry_history_capacity policy) rh'" and "budget_wf policy rh' active"
    and "r = Some x \<Longrightarrow> map_option rst_record (hget (rh_entries rh') h) = Some x"
proof -
  have inv: "rh_inv (retry_history_capacity policy) rh'" and eff: "record_effect rh h now failed delay policy r rh'"
    using rh_record_spec [OF assms(1), of h now failed delay] assms(6) by simp_all
  show "rh_inv (retry_history_capacity policy) rh'" by (rule inv)
  have live: "hget (rh_entries rh) k = Some st" if "rh_live rh k now = Some st" for k st
    using that assms(1) by (simp add: rh_live_def hget_expire_Some)
  define st where "st = (case rh_live rh h now of None \<Rightarrow> new_state now policy | Some st \<Rightarrow> st)"
  define r' where "r' = recorded (rst_record st) now failed delay policy"
  have "rr_failures (rst_record st) < attempt_limit (rst_record st) policy"
    using assms(4,5) live by (auto simp: st_def new_state_def attempt_limit_def sat_add64_def split: option.split)
  moreover have "attempt_limit r' policy = attempt_limit (rst_record st) policy" by (simp add: r'_def attempt_limit_def)
  ultimately have le: "rr_failures r' \<le> attempt_limit r' policy"
    by (auto simp: r'_def recorded_def Let_def attempt_limit_def sat_add64_def)
  show "budget_wf policy rh' active"
  proof (cases "rh_live rh h now = None \<and> retry_history_capacity policy \<le> length (rh_entries (rh_expire rh now))")
    case True
    then have "rh' = rh_expire rh now" using eff by (simp add: record_effect_def)
    then show ?thesis using live by (intro budget_wf_records [OF assms(2)]) (auto simp: rh_live_def)
  next
    case False
    then have "hget (rh_entries rh') k = (if k = h then Some (st \<lparr> rst_record := r' \<rparr>) else rh_live rh k now)" for k
      using eff unfolding record_effect_def Let_def if_not_P [OF False] st_def [symmetric] r'_def [symmetric] by blast
    then show ?thesis
      using assms(2,3) le live unfolding budget_wf_def by (simp split: if_splits) blast
  qed
  show "map_option rst_record (hget (rh_entries rh') h) = Some x" if "r = Some x"
    using eff that by (auto simp: record_effect_def Let_def split: if_splits)
qed

lemma schedule_retry_ok:
  assumes inv: "sched_inv s" and seq: "pq_sequence (ms_queue s) + 1 < 2 ^ 64"
    and idle: "qh_info_hash entry \<notin> active_hashes s" and ret: "retryable s (qh_info_hash entry)"
  shows "ok (schedule_retry s entry failed delay now) (\<lambda>s'. advanced 1 s s' \<and> ms_reports s' = ms_reports s)"
proof -
  let ?h = "qh_info_hash entry"
  consider "retry_max_attempts (ms_options s) = 0 \<or> qh_is_retry entry \<and> qh_expires_at entry \<le> now"
    | "0 < retry_max_attempts (ms_options s)" "\<not> (qh_is_retry entry \<and> qh_expires_at entry \<le> now)" by blast
  then show ?thesis
  proof cases
    case 1
    then show ?thesis using inv by (auto simp: schedule_retry_def advanced_def)
  next
    case 2
    have rh: "rh_inv (retry_history_capacity (ms_options s)) (ms_retry_history s)"
      and bud: "budget_wf (ms_options s) (ms_retry_history s) (active_hashes s)"
      and pq: "pq_inv (ms_queue s)" using inv by (simp_all add: sched_inv_def)
    obtain r rh' where rec: "rh_record (ms_retry_history s) ?h now failed delay (ms_options s) = Some (r, rh')"
      using rh_record_spec [OF rh, of ?h now failed delay] by (auto simp: ok_iff)
    note b = record_budget [OF rh bud idle ret [unfolded retryable_def] 2(1) rec]
    have mem: "hget (rh_entries (remember rh' entry)) k = Some st' \<Longrightarrow>
        \<exists>st. hget (rh_entries rh') k = Some st \<and> rst_record st' = rst_record st" for k st'
      using remember_spec(3) [OF b(1), of entry k] by (cases "hget (rh_entries rh') k") auto
    define t where "t = s \<lparr> ms_retry_history := remember rh' entry \<rparr>"
    have t: "sched_inv t"
      unfolding t_def
      by (rule sched_inv_history [OF inv remember_spec(1) [OF b(1)] budget_wf_records [OF b(2) mem]])
    have eq: "schedule_retry s entry failed delay now = (case r of
          None \<Rightarrow> ms_inc ''metadata_retry_history_full'' t
        | Some r \<Rightarrow>
            if attempt_limit r (ms_options t) \<le> rr_failures r \<or> rr_expires_at r \<le> rr_next_due r
            then ms_inc ''metadata_retry_exhausted'' t
            else let (deferred, queue) = pq_defer (ms_queue t) entry r in
              ms_inc (if deferred then ''metadata_retry_scheduled'' else ''metadata_retry_evicted'') (t \<lparr> ms_queue := queue \<rparr>))"
      using 2(1) rec unfolding schedule_retry_def if_not_P [OF 2(2)] by (cases r) (simp_all add: Let_def t_def)
    have deferred: "sched_inv (t \<lparr> ms_queue := snd (pq_defer (ms_queue t) entry x) \<rparr>) \<and>
        pq_sequence (snd (pq_defer (ms_queue t) entry x)) \<le> pq_sequence (ms_queue s) + 1"
      if "r = Some x" "rr_failures x < attempt_limit x (ms_options s)" for x
    proof -
      have "rst_record st' = x" if "hget (rh_entries (remember rh' entry)) ?h = Some st'" for st'
        using mem [OF that] b(3) [OF \<open>r = Some x\<close>] by auto
      then have "retryable t ?h" using that(2) by (simp add: retryable_def t_def)
      then have "sched_inv (t \<lparr> ms_queue := snd (pq_defer (ms_queue t) entry x) \<rparr>)"
        using pq_defer_ok [OF pq seq, of entry x] idle pq_defer_subset [of "ms_queue s" entry x]
        by (intro sched_inv_queue [OF t]) (simp_all add: t_def pq_defer_capacity active_hashes_def)
      then show ?thesis using pq_defer_ok [OF pq seq, of entry x] by (simp add: t_def)
    qed
    have base: "ms_queue t = ms_queue s" "ms_options t = ms_options s" "ms_reports t = ms_reports s" by (simp_all add: t_def)
    show ?thesis
    proof (cases r)
      case None
      then show ?thesis using eq t base by (simp add: advanced_def)
    next
      case (Some x)
      then show ?thesis
        using t base deferred [of x] by (simp add: eq Let_def split_beta advanced_def)
    qed
  qed
qed

lemma join_filter:
  assumes "distinct (map fst ts)" and "distinct (map (\<lambda>(i, job). f job) ts)" and "map_of ts i = Some job"
  shows "(\<lambda>(i, job). f job) ` set (filter (\<lambda>(j, _). j \<noteq> i) ts) = (\<lambda>(i, job). f job) ` set ts - {f job}"
proof -
  have mem: "(i, job) \<in> set ts" using assms(3) by (rule map_of_SomeD)
  have same: "j = i \<longleftrightarrow> f job' = f job" if "(j, job') \<in> set ts" for j job'
  proof
    show "f job' = f job" if "j = i"
      using that \<open>(j, job') \<in> set ts\<close> mem assms(1) by (auto dest: eq_key_imp_eq_value)
    show "j = i" if "f job' = f job"
      using inj_onD [of "\<lambda>(i, job). f job" "set ts" "(j, job')" "(i, job)"] assms(2) mem that \<open>(j, job') \<in> set ts\<close>
      by (simp add: distinct_map)
  qed
  show ?thesis
  proof (rule set_eqI)
    fix y
    have "y \<in> (\<lambda>(i, job). f job) ` set (filter (\<lambda>(j, _). j \<noteq> i) ts) \<longleftrightarrow> (\<exists>j job'. (j, job') \<in> set ts \<and> j \<noteq> i \<and> y = f job')"
      by force
    also have "\<dots> \<longleftrightarrow> (\<exists>j job'. (j, job') \<in> set ts \<and> f job' \<noteq> f job \<and> y = f job')" using same by blast
    also have "\<dots> \<longleftrightarrow> y \<in> (\<lambda>(i, job). f job) ` set ts - {f job}" by force
    finally show "y \<in> (\<lambda>(i, job). f job) ` set (filter (\<lambda>(j, _). j \<noteq> i) ts) \<longleftrightarrow> y \<in> (\<lambda>(i, job). f job) ` set ts - {f job}" .
  qed
qed

lemma job_ended:
  assumes inv: "sched_inv s" and job: "map_of (ms_tasks s) i = Some job"
  defines "h \<equiv> mj_info_hash job"
  defines "t \<equiv> (join_task s i) \<lparr> ms_in_flight := hdel h (ms_in_flight s), ms_queue := snd (pq_remove (ms_queue s) h) \<rparr>"
  shows "sched_inv t" and "h \<notin> active_hashes t" and "retryable t h"
    and "\<exists>st. hget (ms_in_flight s) h = Some st \<and> qh_info_hash (if_entry st) = h"
proof -
  have jobs: "jobs_wf s" and pq: "pq_inv (ms_queue s)" and fl: "flight_wf (ms_in_flight s)" using inv by (simp_all add: sched_inv_def)
  have h: "h \<in> fst ` set (ms_in_flight s)"
    using jobs map_of_SomeD [OF job] unfolding jobs_wf_def h_def by force
  then obtain st where st: "hget (ms_in_flight s) h = Some st" by (metis hget_None_keys option.exhaust)
  then show "\<exists>st. hget (ms_in_flight s) h = Some st \<and> qh_info_hash (if_entry st) = h" using fl by (auto simp: flight_wf_def)
  have keys: "fst ` set (hdel h (ms_in_flight s)) = fst ` set (ms_in_flight s) - {h}" by (auto simp: set_hdel)
  have act: "active_hashes t = active_hashes s - {h}"
    by (auto simp: t_def active_hashes_def pq_hashes_remove keys join_task_def)
  then show "h \<notin> active_hashes t" by simp
  have "h \<in> active_hashes s" using h by (simp add: active_hashes_def)
  then show "retryable t h"
    using inv by (auto simp: retryable_def t_def join_task_def sched_inv_def budget_wf_def)
  have "distinct (map fst (filter (\<lambda>(j, _). j \<noteq> i) (ms_tasks s)))"
    "distinct (map (\<lambda>(i, job). mj_info_hash job) (filter (\<lambda>(j, _). j \<noteq> i) (ms_tasks s)))"
    "hdel i (ms_task_hashes s) = map (\<lambda>(i, job). (i, mj_info_hash job)) (filter (\<lambda>(j, _). j \<noteq> i) (ms_tasks s))"
    using jobs by (simp_all add: jobs_wf_def distinct_map_filter hdel_filter filter_map o_def case_prod_unfold)
  moreover have "(\<lambda>(i, job). mj_info_hash job) ` set (filter (\<lambda>(j, _). j \<noteq> i) (ms_tasks s)) = fst ` set (ms_in_flight s) - {h}"
    using join_filter [of "ms_tasks s" mj_info_hash, OF _ _ job] jobs by (simp add: jobs_wf_def h_def)
  ultimately have "jobs_wf t"
    using jobs le_trans [OF length_filter_le [of _ "ms_tasks s"]]
    unfolding t_def join_task_def jobs_wf_def by (simp add: keys)
  moreover have "flight_wf (ms_in_flight t)" using fl by (auto simp: flight_wf_def t_def)
  moreover have "budget_wf (ms_options s) (ms_retry_history s) (active_hashes t)"
    using inv unfolding sched_inv_def by (elim conjE budget_wf_mono) (auto simp: act)
  ultimately show "sched_inv t"
    using inv pq_remove_inv(1) [OF pq, of h]
    by (auto simp: sched_inv_def t_def join_task_def pq_remove_entries pq_hashes_remove keys)
qed

lemma history_removed:
  assumes "sched_inv s"
  shows "sched_inv (s \<lparr> ms_retry_history := rh_remove (ms_retry_history s) h \<rparr>)"
proof (rule sched_inv_history [OF assms])
  have rh: "rh_inv (retry_history_capacity (ms_options s)) (ms_retry_history s)" using assms by (simp add: sched_inv_def)
  show "rh_inv (retry_history_capacity (ms_options s)) (rh_remove (ms_retry_history s) h)" by (rule rh_remove_spec(1) [OF rh])
  show "budget_wf (ms_options s) (rh_remove (ms_retry_history s) h) (active_hashes s)"
  proof (rule budget_wf_records)
    show "budget_wf (ms_options s) (ms_retry_history s) (active_hashes s)" using assms by (simp add: sched_inv_def)
    show "\<exists>st. hget (rh_entries (ms_retry_history s)) k = Some st \<and> rst_record st' = rst_record st"
      if "hget (rh_entries (rh_remove (ms_retry_history s) h)) k = Some st'" for k st'
      using that unfolding rh_remove_spec(2) [OF rh, of h] by (simp split: if_splits)
  qed
qed

definition job_reports :: "metadata_scheduler \<Rightarrow> string \<Rightarrow> job_outcome \<Rightarrow> nat \<Rightarrow> metadata_completion list" where
  "job_reports s h outcome attempts =
     (case outcome of
        Completed status \<Rightarrow>
          if ms_completion_callback s then [\<lparr> mc_info_hash = h, mc_status = status, mc_attempts = attempts \<rparr>] else []
      | _ \<Rightarrow> [])"

lemma handle_job_result_ok:
  assumes inv: "sched_inv s" and seq: "pq_sequence (ms_queue s) + 1 < 2 ^ 64" and job: "map_of (ms_tasks s) i = Some job"
  shows "ok (handle_job_result (join_task s i) \<lparr> jr_info_hash = mj_info_hash job, jr_attempts = n, jr_outcome = outcome \<rparr> now)
    (\<lambda>s'. advanced 1 s s' \<and> ms_reports s' = ms_reports s @ job_reports s (mj_info_hash job) outcome n)"
proof -
  let ?h = "mj_info_hash job"
  define t where "t = (join_task s i) \<lparr> ms_in_flight := hdel ?h (ms_in_flight s), ms_queue := snd (pq_remove (ms_queue s) ?h) \<rparr>"
  note e = job_ended [OF inv job, folded t_def]
  obtain st where st: "hget (ms_in_flight s) ?h = Some st" "qh_info_hash (if_entry st) = ?h" using e(4) by blast
  have base: "pq_sequence (ms_queue t) = pq_sequence (ms_queue s)" "ms_reports t = ms_reports s"
    "ms_completion_callback t = ms_completion_callback s"
    by (simp_all add: t_def join_task_def pq_remove_entries)
  have retry: "ok (schedule_retry u (if_entry st) failed delay now) (\<lambda>s'. advanced 1 s s' \<and> ms_reports s' = ms_reports u)"
    if "same_core t u" for u failed delay
  proof -
    have "?h \<notin> active_hashes u" "retryable u ?h" using that e(2,3) by (simp_all add: same_core_def active_hashes_def retryable_def)
    moreover have "pq_sequence (ms_queue u) = pq_sequence (ms_queue s)" using that base(1) by (simp add: same_core_def)
    ultimately show ?thesis
      using schedule_retry_ok [of u "if_entry st" failed delay now] same_core_step [OF that e(1)] st(2) seq
      by (simp add: advanced_def)
  qed
  define v where "v status = finish t ?h status n" for status
  have v: "same_core t (v status)" "ms_reports (v status) = ms_reports s @ job_reports s ?h (Completed status) n"
    "advanced 1 s (v status)" for status
    using e(1) base by (auto simp: v_def finish_def Let_def same_core_def job_reports_def advanced_def)
  have eq: "handle_job_result (join_task s i) \<lparr> jr_info_hash = ?h, jr_attempts = n, jr_outcome = outcome \<rparr> now =
      (case outcome of
         GateRejected \<Rightarrow> Some (t \<lparr> ms_retry_history := rh_remove (ms_retry_history t) ?h \<rparr>)
       | Deferred delay \<Rightarrow> Option.bind (ms_inc ''metadata_retry_deferred'' t) (\<lambda>u. schedule_retry u (if_entry st) False delay now)
       | Completed status \<Rightarrow> if status = Accepted
           then Some ((v status) \<lparr> ms_retry_history := rh_remove (ms_retry_history (v status)) ?h \<rparr>)
           else schedule_retry (v status) (if_entry st) True 0 now)"
    using st(1) by (simp add: handle_job_result_def join_task_def t_def v_def Let_def split: job_outcome.split)
  show ?thesis
  proof (cases outcome)
    case GateRejected
    then show ?thesis using eq history_removed [OF e(1), of ?h] base by (simp add: advanced_def job_reports_def)
  next
    case (Deferred delay)
    have "ok (ms_inc ''metadata_retry_deferred'' t) (\<lambda>u. same_core t u \<and> ms_reports u = ms_reports s)"
      using base by (simp add: same_core_def)
    then show ?thesis
      unfolding eq unfolding Deferred job_outcome.case ok_bind job_reports_def
    proof (rule ok_mono)
      fix u
      assume u: "same_core t u \<and> ms_reports u = ms_reports s"
      show "ok (schedule_retry u (if_entry st) False delay now) (\<lambda>s'. advanced 1 s s' \<and> ms_reports s' = ms_reports s @ [])"
        using retry [OF conjunct1 [OF u], of False delay] u by simp
    qed
  next
    case (Completed status)
    have "sched_inv (v status)" using v(3) by (simp add: advanced_def)
    from history_removed [OF this, of ?h] show ?thesis
      using v(2,3) [of status] retry [OF v(1), of status True 0] unfolding eq unfolding Completed
      by (cases "status = Accepted") (simp_all add: advanced_def)
  qed
qed

text \<open>What a retry leaves in the queue: the times of the hash's retry record.\<close>

definition waits_for_retry :: "metadata_scheduler \<Rightarrow> string \<Rightarrow> bool" where
  "waits_for_retry s h = (\<exists>e st. hget (pq_entries (ms_queue s)) h = Some e \<and> hget (rh_entries (ms_retry_history s)) h = Some st \<and>
     qh_is_retry e \<and> \<not> qh_ready e \<and> qh_ready_at e = rr_next_due (rst_record st) \<and>
     qh_expires_at e = rr_expires_at (rst_record st) \<and> qh_ready_at e < qh_expires_at e)"

lemma ms_inc_known_eq:
  "name \<in> set yield_counters \<Longrightarrow> \<exists>st. ms_inc name s = Some (s \<lparr> ms_stats := st \<rparr>)"
  using ms_inc_known [of name s "\<lambda>s'. \<exists>st. s' = s \<lparr> ms_stats := st \<rparr>"] by (auto simp: ok_iff)

lemma waits_frame [simp]: "waits_for_retry (s \<lparr> ms_stats := st \<rparr>) h = waits_for_retry s h"
  by (simp add: waits_for_retry_def)

lemma schedule_retry_effect:
  assumes "sched_inv s" and "qh_info_hash entry \<notin> active_hashes s" and "schedule_retry s entry failed delay now = Some s'"
  shows "ms_tasks s' = ms_tasks s" and "ms_in_flight s' = ms_in_flight s"
    and "qh_info_hash entry \<in> pq_hashes (ms_queue s') \<Longrightarrow> waits_for_retry s' (qh_info_hash entry)"
proof -
  let ?h = "qh_info_hash entry"
  have out: "?h \<notin> pq_hashes (ms_queue s)" using assms(2) by (simp add: active_hashes_def)
  have inc: "ms_tasks t' = ms_tasks t \<and> ms_in_flight t' = ms_in_flight t \<and> ms_queue t' = ms_queue t \<and>
      ms_retry_history t' = ms_retry_history t"
    if "ms_inc name t = Some t'" for name t t'
    using that by (auto simp: ms_inc_def)
  have "ms_tasks s' = ms_tasks s \<and> ms_in_flight s' = ms_in_flight s \<and>
      (?h \<in> pq_hashes (ms_queue s') \<longrightarrow> waits_for_retry s' ?h)"
  proof (cases "retry_max_attempts (ms_options s) = 0 \<or> qh_is_retry entry \<and> qh_expires_at entry \<le> now")
    case True
    then have "s' = s \<or> ms_inc ''metadata_retry_exhausted'' s = Some s'"
      using assms(3) by (auto simp: schedule_retry_def split: if_splits)
    then show ?thesis using out inc by auto
  next
    case False
    have rh: "rh_inv (retry_history_capacity (ms_options s)) (ms_retry_history s)" using assms(1) by (simp add: sched_inv_def)
    obtain r rh' where rec: "rh_record (ms_retry_history s) ?h now failed delay (ms_options s) = Some (r, rh')"
      using rh_record_spec [OF rh, of ?h now failed delay] by (auto simp: ok_iff)
    have rh': "rh_inv (retry_history_capacity (ms_options s)) rh'" "record_effect (ms_retry_history s) ?h now failed delay (ms_options s) r rh'"
      using rh_record_spec [OF rh, of ?h now failed delay] rec by simp_all
    define t where "t = s \<lparr> ms_retry_history := remember rh' entry \<rparr>"
    have t: "ms_tasks t = ms_tasks s" "ms_in_flight t = ms_in_flight s" "ms_queue t = ms_queue s" by (simp_all add: t_def)
    show ?thesis
    proof (cases "\<exists>x. r = Some x \<and> \<not> (attempt_limit x (ms_options t) \<le> rr_failures x \<or> rr_expires_at x \<le> rr_next_due x)")
      case False
      then have "\<exists>name. ms_inc name t = Some s'"
        using assms(3) rec \<open>\<not> (retry_max_attempts (ms_options s) = 0 \<or> _)\<close> by (auto simp: schedule_retry_def t_def Let_def split: option.splits if_splits)
      then show ?thesis using inc [of _ t s'] t out by auto
    next
      case True
      then obtain x where x: "r = Some x" "\<not> (attempt_limit x (ms_options t) \<le> rr_failures x \<or> rr_expires_at x \<le> rr_next_due x)" by blast
      obtain d q where d: "pq_defer (ms_queue s) entry x = (d, q)" by fastforce
      have "\<exists>name. ms_inc name (t \<lparr> ms_queue := q \<rparr>) = Some s'"
        using assms(3) rec x d \<open>\<not> (retry_max_attempts (ms_options s) = 0 \<or> _)\<close> by (auto simp: schedule_retry_def t_def Let_def split: if_splits)
      then have s': "ms_tasks s' = ms_tasks s" "ms_in_flight s' = ms_in_flight s" "ms_queue s' = q" "ms_retry_history s' = remember rh' entry"
        using inc [of _ "t \<lparr> ms_queue := q \<rparr>" s'] by (auto simp: t_def)
      have "map_option rst_record (hget (rh_entries rh') ?h) = Some x"
        using rh'(2) x(1) by (auto simp: record_effect_def Let_def split: if_splits)
      then obtain st where st: "hget (rh_entries (remember rh' entry)) ?h = Some st" "rst_record st = x"
        using remember_spec(3) [OF rh'(1), of entry ?h] by auto
      have "waits_for_retry s' ?h" if "?h \<in> pq_hashes q"
        using that d st x(2) pq_hashes_remove [of "ms_queue s" ?h]
        by (auto simp: pq_defer_def Let_def waits_for_retry_def s' pq_insert_entries split: if_splits)
      then show ?thesis using s' by simp
    qed
  qed
  then show "ms_tasks s' = ms_tasks s" and "ms_in_flight s' = ms_in_flight s"
    and "?h \<in> pq_hashes (ms_queue s') \<Longrightarrow> waits_for_retry s' ?h" by blast+
qed

definition job_end_effect :: "metadata_scheduler \<Rightarrow> nat \<Rightarrow> metadata_job \<Rightarrow> job_outcome \<Rightarrow> nat \<Rightarrow> metadata_scheduler \<Rightarrow> bool" where
  "job_end_effect s i job outcome attempts s' =
     (let h = mj_info_hash job in
      ms_tasks s' = filter (\<lambda>(j, _). j \<noteq> i) (ms_tasks s) \<and>
      ms_in_flight s' = hdel h (ms_in_flight s) \<and>
      ms_reports s' = ms_reports s @ job_reports s h outcome attempts \<and>
      (if outcome = GateRejected \<or> outcome = Completed Accepted
       then h \<notin> pq_hashes (ms_queue s') \<and> hget (rh_entries (ms_retry_history s')) h = None
       else h \<in> pq_hashes (ms_queue s') \<longrightarrow> waits_for_retry s' h))"

lemma handle_job_effect:
  assumes inv: "sched_inv s" and seq: "pq_sequence (ms_queue s) + 1 < 2 ^ 64" and job: "map_of (ms_tasks s) i = Some job"
  shows "ok (handle_job_result (join_task s i) \<lparr> jr_info_hash = mj_info_hash job, jr_attempts = n, jr_outcome = outcome \<rparr> now)
    (job_end_effect s i job outcome n)"
proof -
  let ?h = "mj_info_hash job"
  let ?res = "handle_job_result (join_task s i) \<lparr> jr_info_hash = ?h, jr_attempts = n, jr_outcome = outcome \<rparr> now"
  define t where "t = (join_task s i) \<lparr> ms_in_flight := hdel ?h (ms_in_flight s), ms_queue := snd (pq_remove (ms_queue s) ?h) \<rparr>"
  note e = job_ended [OF inv job, folded t_def]
  obtain st where st: "hget (ms_in_flight s) ?h = Some st" "qh_info_hash (if_entry st) = ?h" using e(4) by blast
  obtain s' where s': "?res = Some s'" "ms_reports s' = ms_reports s @ job_reports s ?h outcome n"
    using handle_job_result_ok [OF assms, of n outcome now] by (auto simp: ok_iff)
  have t: "ms_tasks t = filter (\<lambda>(j, _). j \<noteq> i) (ms_tasks s)" "ms_in_flight t = hdel ?h (ms_in_flight s)" "?h \<notin> pq_hashes (ms_queue t)"
    using e(2) by (simp_all add: t_def join_task_def active_hashes_def)
  have rh: "rh_inv (retry_history_capacity (ms_options t)) (ms_retry_history t)" using e(1) by (simp add: sched_inv_def)
  have fin: "ms_tasks (finish t ?h status n) = ms_tasks t" "ms_in_flight (finish t ?h status n) = ms_in_flight t"
    "ms_queue (finish t ?h status n) = ms_queue t" "ms_retry_history (finish t ?h status n) = ms_retry_history t"
    "same_core t (finish t ?h status n)" for status
    by (simp_all add: finish_def Let_def same_core_def)
  have retried: "ms_tasks s' = ms_tasks t \<and> ms_in_flight s' = ms_in_flight t \<and> (?h \<in> pq_hashes (ms_queue s') \<longrightarrow> waits_for_retry s' ?h)"
    if "same_core t u" "schedule_retry u (if_entry st) failed delay now = Some s'" for u failed delay
  proof -
    have u: "sched_inv u" using same_core_step [OF that(1) e(1)] by simp
    have "qh_info_hash (if_entry st) \<notin> active_hashes u" "ms_tasks u = ms_tasks t" "ms_in_flight u = ms_in_flight t"
      using that(1) e(2) st(2) by (simp_all add: same_core_def active_hashes_def)
    then show ?thesis using schedule_retry_effect [OF u _ that(2)] st(2) by simp
  qed
  have eq: "Some s' = (case outcome of
         GateRejected \<Rightarrow> Some (t \<lparr> ms_retry_history := rh_remove (ms_retry_history t) ?h \<rparr>)
       | Deferred delay \<Rightarrow> Option.bind (ms_inc ''metadata_retry_deferred'' t) (\<lambda>u. schedule_retry u (if_entry st) False delay now)
       | Completed status \<Rightarrow> if status = Accepted
           then Some ((finish t ?h status n) \<lparr> ms_retry_history := rh_remove (ms_retry_history (finish t ?h status n)) ?h \<rparr>)
           else schedule_retry (finish t ?h status n) (if_entry st) True 0 now)"
    unfolding s'(1) [symmetric]
    using st(1) by (simp add: handle_job_result_def join_task_def t_def Let_def split: job_outcome.split)
  have "job_end_effect s i job outcome n s'"
  proof (cases "outcome = GateRejected \<or> outcome = Completed Accepted")
    case True
    then have "ms_tasks s' = ms_tasks t \<and> ms_in_flight s' = ms_in_flight t \<and> ms_queue s' = ms_queue t \<and>
        ms_retry_history s' = rh_remove (ms_retry_history t) ?h"
      using eq by (auto simp: fin)
    then show ?thesis using True t s'(2) rh_remove_spec(2) [OF rh, of ?h] by (simp add: job_end_effect_def Let_def)
  next
    case False
    have "\<exists>u failed delay. same_core t u \<and> schedule_retry u (if_entry st) failed delay now = Some s'"
    proof (cases outcome)
      case (Deferred delay)
      obtain stats where "ms_inc ''metadata_retry_deferred'' t = Some (t \<lparr> ms_stats := stats \<rparr>)"
        using ms_inc_known_eq [of "''metadata_retry_deferred''" t] by auto
      then show ?thesis
        using eq Deferred by (intro exI [of _ "t \<lparr> ms_stats := stats \<rparr>"] exI [of _ False] exI [of _ delay]) (simp add: same_core_def)
    next
      case (Completed status)
      then show ?thesis using eq False fin(5) [of status] by (auto split: if_splits)
    qed (use False in simp)
    then show ?thesis using retried False t s'(2) by (auto simp: job_end_effect_def Let_def)
  qed
  then show ?thesis using s'(1) by simp
qed

subsection \<open>Runs of the event loop\<close>

lemma advanced_mono: "advanced m s s' \<Longrightarrow> m \<le> n \<Longrightarrow> advanced n s s'"
  by (auto simp: advanced_def)

lemma sched_react_ok:
  assumes inv: "sched_inv s" and seq: "pq_sequence (ms_queue s) + 2 < 2 ^ 64"
  shows "ok (sched_react s event) (advanced 2 s)"
proof (cases event)
  case (HashReceived ev depth now sent)
  let ?s = "s \<lparr> ms_stats := set_hash_ingress_queue_depth depth (ms_stats s) \<rparr>"
  have "ok (enqueue ?s ev now sent) (advanced 2 ?s)" using inv seq by (intro enqueue_ok) simp_all
  moreover have "advanced 2 ?s = advanced 2 s" by (simp add: advanced_def fun_eq_iff)
  ultimately show ?thesis using HashReceived inv by (simp add: advanced_def)
next
  case (JobReturned i outcome attempts now)
  show ?thesis
  proof (cases "map_of (ms_tasks s) i")
    case None
    then show ?thesis using JobReturned inv by (simp add: advanced_def)
  next
    case (Some job)
    have "ok (handle_job_result (join_task s i) \<lparr> jr_info_hash = mj_info_hash job, jr_attempts = attempts, jr_outcome = outcome \<rparr> now)
        (advanced 2 s)"
      by (rule ok_mono [OF handle_job_result_ok [OF inv _ Some]]) (use seq in \<open>auto elim: advanced_mono\<close>)
    then show ?thesis using JobReturned Some by simp
  qed
next
  case (JobPanicked i now)
  show ?thesis
  proof (cases "map_of (ms_tasks s) i")
    case None
    then show ?thesis using JobPanicked inv by (simp add: advanced_def)
  next
    case (Some job)
    have "ms_task_hashes s = map (\<lambda>(i, job). (i, mj_info_hash job)) (ms_tasks s)" using inv by (simp add: sched_inv_def jobs_wf_def)
    then have "hget (ms_task_hashes s) i = Some (mj_info_hash job)" using Some by (simp add: map_of_map)
    moreover have "ok (handle_job_result (join_task s i)
        \<lparr> jr_info_hash = mj_info_hash job, jr_attempts = 0, jr_outcome = Completed FetchFailed \<rparr> now) (advanced 2 s)"
      by (rule ok_mono [OF handle_job_result_ok [OF inv _ Some]]) (use seq in \<open>auto elim: advanced_mono\<close>)
    ultimately show ?thesis using JobPanicked Some by simp
  qed
next
  case (MaintenanceTick now)
  have pq: "pq_inv (ms_queue s)" using inv by (simp add: sched_inv_def)
  obtain n q where q: "pq_expire (ms_queue s) now = Some (n, q)" "pq_inv q" "pq_sequence q = pq_sequence (ms_queue s)"
    "hget (pq_entries q) = live now (hget (pq_entries (ms_queue s)))"
    using expire_from_ok [OF pq, of now 0] by (auto simp: ok_iff pq_expire_def)
  have "pq_capacity q = pq_capacity (ms_queue s)"
    using expire_from_capacity [of "ms_queue s" now 0 "(n, q)"] q(1) by (simp add: pq_expire_def)
  moreover have "pq_hashes q \<subseteq> pq_hashes (ms_queue s)"
    by (auto simp: pq_hashes_def q(4) live_def split: option.splits)
  ultimately have "sched_inv (s \<lparr> ms_queue := q \<rparr>)" using sched_inv_shrink [OF inv q(2)] by blast
  then show ?thesis using MaintenanceTick q by (simp add: advanced_def ms_drop_def Let_def)
qed (use inv in \<open>simp_all add: advanced_def\<close>)

lemma sched_iteration_ok:
  assumes "sched_inv s" and "pq_sequence (ms_queue s) + 2 < 2 ^ 64"
  shows "ok (sched_iteration s ce) (advanced 2 s)"
proof -
  obtain clock event where ce: "ce = (clock, event)" by fastforce
  obtain t where t: "loop_top s clock = Some t" "advanced 0 s t"
    using loop_top_ok [OF assms(1), of clock] by (auto simp: ok_iff)
  have "ok (sched_react t event) (advanced 2 s)"
    by (rule ok_mono [OF sched_react_ok]) (use t(2) assms(2) in \<open>auto simp: advanced_def\<close>)
  then show ?thesis using t by (simp add: sched_iteration_def ce advanced_def)
qed

lemma ms_new_inv: "sched_inv (ms_new queue_size concurrency callback stats peer_lookup options lookup_timeout)"
proof -
  have "pq_hashes (pq_new c ttl) = {}" "pq_capacity (pq_new c ttl) = max c 1" for c ttl
    by (simp_all add: pq_hashes_def pq_new_def)
  then show ?thesis
    using pq_new_inv [of "max queue_size 1" HASH_QUEUE_TTL] rh_inv_default
    by (simp add: sched_inv_def ms_new_def jobs_wf_def flight_wf_def active_hashes_def budget_wf_def rh_default_def)
qed

interpretation ms: budgeted_machine sched_iteration sched_inv "\<lambda>s. pq_sequence (ms_queue s)" 2 "2 ^ 64"
proof
  fix s e
  assume "sched_inv s" and "pq_sequence (ms_queue s) + 2 < 2 ^ 64"
  from sched_iteration_ok [OF this] show "ok (sched_iteration s e) (\<lambda>s'. sched_inv s' \<and> pq_sequence (ms_queue s') \<le> pq_sequence (ms_queue s) + 2)"
    by (simp add: advanced_def [abs_def])
qed

fun sched_run :: "metadata_scheduler \<Rightarrow> ((nat \<Rightarrow> instant) \<times> sched_event) list \<Rightarrow> metadata_scheduler option" where
  "sched_run s [] = Some s"
| "sched_run s (e # es) = Option.bind (sched_iteration s e) (\<lambda>s'. sched_run s' es)"

lemma sched_run_eq: "sched_run s es = ms.run s es"
  by (induction es arbitrary: s) simp_all

lemma sched_run_ok:
  fixes es
  assumes "length es < 2 ^ 62" and "s = ms_new queue_size concurrency callback stats peer_lookup options lookup_timeout"
  shows "ok (sched_run s es) (\<lambda>s'. sched_inv s' \<and> pq_sequence (ms_queue s') + 2 < 2 ^ 64)"
proof -
  have "pq_sequence (ms_queue s) = 0" by (simp add: assms(2) ms_new_def pq_new_def)
  moreover have "sched_inv s" unfolding assms(2) by (rule ms_new_inv)
  ultimately show ?thesis
    unfolding sched_run_eq using assms(1) by (intro ok_mono [OF ms.run_within]) simp_all
qed

subsection \<open>Properties\<close>

definition sched_bounded :: "metadata_scheduler \<Rightarrow> bool" where
  "sched_bounded s =
     (length (ms_tasks s) \<le> ms_max_concurrent s \<and> distinct (map (\<lambda>(_, job). mj_info_hash job) (ms_tasks s)) \<and>
      (\<lambda>(_, job). mj_info_hash job) ` set (ms_tasks s) = fst ` set (ms_in_flight s) \<and>
      length (ms_in_flight s) = length (ms_tasks s) \<and>
      pq_len (ms_queue s) \<le> ms_max_queue_size s \<and> pq_hashes (ms_queue s) \<inter> fst ` set (ms_in_flight s) = {} \<and>
      length (rh_entries (ms_retry_history s)) \<le> retry_history_capacity (ms_options s))"

lemma sched_inv_bounded:
  assumes "sched_inv s"
  shows "sched_bounded s"
proof -
  have jobs: "jobs_wf s" using assms by (simp add: sched_inv_def)
  have "length (ms_in_flight s) = card (fst ` set (ms_in_flight s))"
    using jobs by (simp add: jobs_wf_def hwf_length_card)
  also have "\<dots> = card (set (map (\<lambda>(i, job). mj_info_hash job) (ms_tasks s)))" using jobs by (simp add: jobs_wf_def)
  also have "\<dots> = length (ms_tasks s)"
    using jobs distinct_card [of "map (\<lambda>(i, job). mj_info_hash job) (ms_tasks s)"] by (simp add: jobs_wf_def)
  finally show ?thesis
    using assms by (simp add: sched_bounded_def sched_inv_def jobs_wf_def pq_inv_def rh_inv_def pq_len_def)
qed

text \<open>
  C29. The scheduler under any sequence of fewer than 2^62 iterations of its event loop, whatever the
  clock, the discovered hashes, the outcomes and panics of jobs and the configuration: no iteration
  panics (no missing index, no unknown counter) and every dispatch loop ends; at most
  \<open>max_concurrent\<close> jobs run, one per hash, each with its in-flight entry; no hash is queued while it is in flight; the
  queue and the retry history stay within their capacities.
\<close>

theorem scheduler_safe:
  assumes "length es < 2 ^ 62"
  shows "ok (sched_run (ms_new queue_size concurrency callback stats peer_lookup options lookup_timeout) es) sched_bounded"
  using sched_run_ok [OF assms refl] by (rule ok_mono) (simp add: sched_inv_bounded)

definition sample_run :: "((nat \<Rightarrow> instant) \<times> sched_event) list" where
  "sample_run =
     [(\<lambda>i. i, HashReceived (sample_event ''a1'' 5) 0 6 True),
      (\<lambda>i. secs 1 + i, HashReceived (sample_event ''b2'' (secs 1)) 0 (secs 1) True),
      (\<lambda>i. secs 2 + i, JobReturned 0 (Completed FetchFailed) 3 (secs 3))]"

definition sample_scheduler :: metadata_scheduler where
  "sample_scheduler = ms_new 4 1 True stats_default True metadata_options_default (secs 2)"

theorem scheduler_safe_witness: "ok (sched_run sample_scheduler sample_run) sched_bounded"
  using scheduler_safe [of sample_run 4 1 True stats_default True metadata_options_default "secs 2"]
  by (simp add: sample_run_def sample_scheduler_def)



text \<open>
  C31. Dispatching is work-conserving: from every reachable state the top of the event loop returns,
  and afterwards either \<open>max_concurrent\<close> jobs are running or, at one of the clock readings of the
  pass, the queue holds no hash that is due.
\<close>

theorem scheduler_dispatch:
  assumes "length es < 2 ^ 62"
    and "sched_run (ms_new queue_size concurrency callback stats peer_lookup options lookup_timeout) es = Some s"
  shows "ok (loop_top s clock) (\<lambda>s'. saturated s' clock)"
  using sched_run_ok [OF assms(1) refl, of queue_size concurrency callback stats peer_lookup options lookup_timeout] assms(2)
  by (auto intro: ok_mono [OF loop_top_ok])

theorem scheduler_dispatch_witness:
  "\<exists>s. sched_run sample_scheduler sample_run = Some s \<and> ok (loop_top s (\<lambda>i. secs 4)) (\<lambda>s'. saturated s' (\<lambda>i. secs 4))"
proof -
  have len: "length sample_run < 2 ^ 62" by (simp add: sample_run_def)
  obtain s where s: "sched_run sample_scheduler sample_run = Some s"
    using sched_run_ok [OF len refl, of 4 1 True stats_default True metadata_options_default "secs 2"]
    by (auto simp: ok_iff sample_scheduler_def)
  then show ?thesis using scheduler_dispatch [OF len, of 4 1 True stats_default True metadata_options_default "secs 2" s]
    by (auto simp: sample_scheduler_def)
qed



end
