(* ===== verification/Simulation.thy ===== *)
theory Simulation
  imports Prelude
begin

text \<open>
  Data refinement. A component whose representation is optimised (an intrusive list, an index, a
  heap) is compared with a specification on plain lists: \<open>rel s a\<close> says that state \<open>s\<close> represents
  \<open>a\<close>. If every operation keeps the relation, does not panic and returns what the specification
  returns, then so does every run.
\<close>

locale simulation =
  fixes cstep :: "'s \<Rightarrow> 'e \<Rightarrow> ('o \<times> 's) option"
    and astep :: "'a \<Rightarrow> 'e \<Rightarrow> 'o \<times> 'a"
    and rel :: "'s \<Rightarrow> 'a \<Rightarrow> bool"
  assumes step_sim: "rel s a \<Longrightarrow> ok (cstep s e) (\<lambda>(out, s'). out = fst (astep a e) \<and> rel s' (snd (astep a e)))"
begin

fun crun :: "'s \<Rightarrow> 'e list \<Rightarrow> ('o list \<times> 's) option" where
  "crun s [] = Some ([], s)"
| "crun s (e # es) = Option.bind (cstep s e) (\<lambda>(out, s'). map_option (\<lambda>(outs, s''). (out # outs, s'')) (crun s' es))"

fun arun :: "'a \<Rightarrow> 'e list \<Rightarrow> 'o list \<times> 'a" where
  "arun a [] = ([], a)"
| "arun a (e # es) = (let (out, a') = astep a e; (outs, a'') = arun a' es in (out # outs, a''))"

lemma run_sim:
  assumes "rel s a"
  shows "ok (crun s es) (\<lambda>(outs, s'). outs = fst (arun a es) \<and> rel s' (snd (arun a es)))"
  using assms
proof (induction es arbitrary: s a)
  case (Cons e es)
  obtain out a' where a': "astep a e = (out, a')" by fastforce
  obtain s' where s': "cstep s e = Some (out, s')" "rel s' a'"
    using step_sim [OF Cons.prems, of e] by (auto simp: ok_iff a')
  show ?case using Cons.IH [OF s'(2)] by (auto simp: s'(1) a' split_beta elim!: ok_mono)
qed simp

end

end
