(* ===== verification/Reservoir.thy ===== *)
theory Reservoir
  imports Net_Types Simulation
begin

text \<open>
  \<open>ResponsiveReservoir\<close> of \<open>src/src/node_pool.rs\<close>: the ring of nodes that answered, with the schedule of
  their next visits. A slot is scheduled either in the ordered set of future visits or in the ready
  queue, a doubly linked list whose links live in the slots. \<open>None\<close> is a panic: an index out of range, an
  \<open>unwrap\<close> of an empty slot, or a length that would go below zero.

  Results: the linked list refines a plain queue. The specification keeps the ready slots as a list
  and the future visits as a sorted list; every operation of the reservoir returns what the specification
  returns, without panicking. On the specification follows when a node is revisited: never while it
  backs off, never before its revisit interval has passed, and never after its expiry.
\<close>

subsection \<open>Data\<close>

type_synonym revisit_key = "instant \<times> nat \<times> nat"

record responsive_entry =
  re_node :: node_tuple
  re_expires_at :: instant
  re_last_probe_at :: instant
  re_last_success_at :: instant
  re_failures :: nat
  re_blocked_until :: "instant option"
  re_revisit_key :: "revisit_key option"
  re_ready :: bool
  re_previous :: "nat option"
  re_next :: "nat option"

type_synonym slots = "responsive_entry option list"

record reservoir =
  rv_slots :: slots
  rv_index :: "(socket_addr, nat) hmap"
  rv_write_cursor :: nat
  rv_revisits :: "revisit_key list"
  rv_revisit_sequence :: nat
  rv_ready_head :: "nat option"
  rv_ready_tail :: "nat option"
  rv_ready_len :: nat
  rv_ttl :: duration
  rv_revisit_interval :: duration
  rv_snapshot_prefix_cursor :: nat
  rv_snapshot_member_cursors :: "nat list"
  rv_sparse_prefixes :: "nat list"
  rv_links :: "nat list"

subsection \<open>Operations\<close>

definition rv_new :: "nat \<Rightarrow> duration \<Rightarrow> duration \<Rightarrow> reservoir" where
  "rv_new capacity ttl revisit_interval =
     \<lparr> rv_slots = replicate (max capacity 1) None, rv_index = [], rv_write_cursor = 0, rv_revisits = [],
       rv_revisit_sequence = 0, rv_ready_head = None, rv_ready_tail = None, rv_ready_len = 0,
       rv_ttl = ttl, rv_revisit_interval = revisit_interval, rv_snapshot_prefix_cursor = 0,
       rv_snapshot_member_cursors = replicate 256 0, rv_sparse_prefixes = [0..<256], rv_links = [] \<rparr>"

text \<open>\<open>self.slots[i].unwrap()\<close> and \<open>self.slots[i].as_mut().unwrap()\<close>.\<close>

definition slot_at :: "'a option list \<Rightarrow> nat \<Rightarrow> 'a option" where
  "slot_at slots i = (if i < length slots then slots ! i else None)"

definition modify_slot :: "nat \<Rightarrow> (responsive_entry \<Rightarrow> responsive_entry) \<Rightarrow> reservoir \<Rightarrow> reservoir option" where
  "modify_slot i f r = map_option (\<lambda>e. r \<lparr> rv_slots := (rv_slots r)[i := Some (f e)] \<rparr>) (slot_at (rv_slots r) i)"

definition drop_key :: "reservoir \<Rightarrow> responsive_entry \<Rightarrow> reservoir" where
  "drop_key r entry =
     (case re_revisit_key entry of None \<Rightarrow> r | Some key \<Rightarrow> r \<lparr> rv_revisits := sdel key (rv_revisits r) \<rparr>)"

definition unlink_ready :: "reservoir \<Rightarrow> responsive_entry \<Rightarrow> reservoir option" where
  "unlink_ready r entry = do {
     r \<leftarrow> (case re_previous entry of
             Some previous \<Rightarrow> modify_slot previous (\<lambda>e. e \<lparr> re_next := re_next entry \<rparr>) r
           | None \<Rightarrow> Some (r \<lparr> rv_ready_head := re_next entry \<rparr>));
     r \<leftarrow> (case re_next entry of
             Some next \<Rightarrow> modify_slot next (\<lambda>e. e \<lparr> re_previous := re_previous entry \<rparr>) r
           | None \<Rightarrow> Some (r \<lparr> rv_ready_tail := re_previous entry \<rparr>));
     if rv_ready_len r = 0 then None else Some (r \<lparr> rv_ready_len := rv_ready_len r - 1 \<rparr>)
   }"

definition clear_entry :: "responsive_entry \<Rightarrow> responsive_entry" where
  "clear_entry e = e \<lparr> re_ready := False, re_previous := None, re_next := None, re_revisit_key := None \<rparr>"

definition unschedule :: "reservoir \<Rightarrow> nat \<Rightarrow> reservoir option" where
  "unschedule r slot = do {
     entry \<leftarrow> slot_at (rv_slots r) slot;
     r \<leftarrow> (if re_ready entry then unlink_ready (drop_key r entry) entry else Some (drop_key r entry));
     modify_slot slot clear_entry r
   }"

definition push_ready :: "reservoir \<Rightarrow> nat \<Rightarrow> reservoir option" where
  "push_ready r slot = do {
     r \<leftarrow> modify_slot slot (\<lambda>e. e \<lparr> re_ready := True, re_previous := rv_ready_tail r, re_next := None \<rparr>) r;
     r \<leftarrow> (case rv_ready_tail r of
             Some tail \<Rightarrow> modify_slot tail (\<lambda>e. e \<lparr> re_next := Some slot \<rparr>) r
           | None \<Rightarrow> Some (r \<lparr> rv_ready_head := Some slot \<rparr>));
     Some (r \<lparr> rv_ready_tail := Some slot, rv_ready_len := rv_ready_len r + 1 \<rparr>)
   }"

definition not_before_block :: "instant \<Rightarrow> instant option \<Rightarrow> instant" where
  "not_before_block at blocked = (case blocked of None \<Rightarrow> at | Some b \<Rightarrow> max at b)"

definition enqueue_revisit :: "reservoir \<Rightarrow> nat \<Rightarrow> instant \<Rightarrow> instant \<Rightarrow> reservoir option" where
  "enqueue_revisit r slot at now = do {
     r \<leftarrow> unschedule r slot;
     entry \<leftarrow> slot_at (rv_slots r) slot;
     let at = not_before_block at (re_blocked_until entry);
     if at \<le> now then push_ready r slot
     else do {
       let key = (at, rv_revisit_sequence r, slot);
       r \<leftarrow> modify_slot slot (\<lambda>e. e \<lparr> re_revisit_key := Some key \<rparr>)
             (r \<lparr> rv_revisit_sequence := (rv_revisit_sequence r + 1) mod 2 ^ 64 \<rparr>);
       Some (r \<lparr> rv_revisits := sput key (rv_revisits r) \<rparr>)
     }
   }"

definition fresh_responsive :: "node_tuple \<Rightarrow> instant \<Rightarrow> instant \<Rightarrow> duration \<Rightarrow> responsive_entry" where
  "fresh_responsive node now probed_at ttl =
     \<lparr> re_node = node, re_expires_at = now + ttl, re_last_probe_at = probed_at, re_last_success_at = now,
       re_failures = 0, re_blocked_until = None, re_revisit_key = None, re_ready = False,
       re_previous = None, re_next = None \<rparr>"

definition rv_record :: "reservoir \<Rightarrow> node_tuple \<Rightarrow> instant \<Rightarrow> instant \<Rightarrow> reservoir option" where
  "rv_record r node now probed_at =
     (case hget (rv_index r) (nt_addr node) of
        Some slot \<Rightarrow> do {
          entry \<leftarrow> slot_at (rv_slots r) slot;
          let entry = entry \<lparr> re_node := node, re_expires_at := now + rv_ttl r, re_last_success_at := now \<rparr>;
          if 0 < re_failures entry then do {
            let entry = entry \<lparr> re_failures := 0, re_blocked_until := None \<rparr>;
            let r = r \<lparr> rv_slots := (rv_slots r)[slot := Some entry] \<rparr>;
            enqueue_revisit r slot (re_last_probe_at entry + rv_revisit_interval r) now
          }
          else Some (r \<lparr> rv_slots := (rv_slots r)[slot := Some entry] \<rparr>)
        }
      | None \<Rightarrow> do {
          let slot = rv_write_cursor r;
          r \<leftarrow> (if length (rv_slots r) \<le> slot then None
                else case rv_slots r ! slot of
                    None \<Rightarrow> Some r
                  | Some old \<Rightarrow> do {
                      r \<leftarrow> unschedule r slot;
                      Some (r \<lparr> rv_index := hdel (nt_addr (re_node old)) (rv_index r) \<rparr>)
                    });
          let r = r \<lparr> rv_slots := (rv_slots r)[slot := Some (fresh_responsive node now probed_at (rv_ttl r))],
                      rv_index := hput (nt_addr node) slot (rv_index r) \<rparr>;
          r \<leftarrow> enqueue_revisit r slot (probed_at + rv_revisit_interval r) now;
          if rv_slots r = [] then None
          else Some (r \<lparr> rv_write_cursor := (rv_write_cursor r + 1) mod length (rv_slots r) \<rparr>)
        })"

text \<open>The two loops of \<open>next_revisit\<close>, each of at most 256 rounds.\<close>

fun promote_due :: "nat \<Rightarrow> reservoir \<Rightarrow> instant \<Rightarrow> reservoir option" where
  "promote_due 0 r now = Some r"
| "promote_due (Suc n) r now =
     (case rv_revisits r of
        [] \<Rightarrow> Some r
      | key # _ \<Rightarrow>
          if now < fst key then Some r
          else do {
            let slot = snd (snd key);
            r \<leftarrow> modify_slot slot (\<lambda>e. e \<lparr> re_revisit_key := None \<rparr>) (r \<lparr> rv_revisits := sdel key (rv_revisits r) \<rparr>);
            r \<leftarrow> push_ready r slot;
            promote_due n r now
          })"

fun serve_ready :: "nat \<Rightarrow> reservoir \<Rightarrow> instant \<Rightarrow> (node_tuple option \<times> reservoir) option" where
  "serve_ready 0 r now = Some (None, r)"
| "serve_ready (Suc n) r now =
     (case rv_ready_head r of
        None \<Rightarrow> Some (None, r)
      | Some slot \<Rightarrow> do {
          r \<leftarrow> unschedule r slot;
          entry \<leftarrow> slot_at (rv_slots r) slot;
          if re_expires_at entry \<le> now
          then serve_ready n (r \<lparr> rv_index := hdel (nt_addr (re_node entry)) (rv_index r),
                                  rv_slots := (rv_slots r)[slot := None] \<rparr>) now
          else Some (Some (re_node entry), r)
        })"

definition next_revisit :: "reservoir \<Rightarrow> instant \<Rightarrow> (node_tuple option \<times> reservoir) option" where
  "next_revisit r now = do {
     r \<leftarrow> promote_due 256 r now;
     serve_ready 256 r now
   }"

definition rv_record_probe :: "reservoir \<Rightarrow> socket_addr \<Rightarrow> instant \<Rightarrow> reservoir option" where
  "rv_record_probe r addr now =
     (case hget (rv_index r) addr of
        None \<Rightarrow> Some r
      | Some slot \<Rightarrow> do {
          r \<leftarrow> modify_slot slot (\<lambda>e. e \<lparr> re_last_probe_at := now \<rparr>) r;
          enqueue_revisit r slot (now + rv_revisit_interval r) now
        })"

definition defer_revisit :: "reservoir \<Rightarrow> socket_addr \<Rightarrow> instant \<Rightarrow> instant \<Rightarrow> reservoir option" where
  "defer_revisit r addr retry_at now =
     (case hget (rv_index r) addr of
        None \<Rightarrow> Some r
      | Some slot \<Rightarrow> do {
          entry \<leftarrow> slot_at (rv_slots r) slot;
          enqueue_revisit r slot (max retry_at (re_last_probe_at entry + rv_revisit_interval r)) now
        })"

definition failure_backoff :: "nat \<Rightarrow> duration" where
  "failure_backoff failures = secs (min (5 * 2 ^ (failures - 1)) 60)"

definition rv_record_failure :: "reservoir \<Rightarrow> socket_addr \<Rightarrow> instant \<Rightarrow> instant \<Rightarrow> (bool \<times> reservoir) option" where
  "rv_record_failure r addr dispatched_at now =
     (case hget (rv_index r) addr of
        None \<Rightarrow> Some (False, r)
      | Some slot \<Rightarrow> do {
          entry \<leftarrow> slot_at (rv_slots r) slot;
          if dispatched_at < re_last_success_at entry then Some (False, r)
          else do {
            let failures = min (min (re_failures entry + 1) 255) 5;
            let blocked = now + failure_backoff failures;
            let entry = entry \<lparr> re_failures := failures, re_blocked_until := Some blocked \<rparr>;
            r \<leftarrow> enqueue_revisit (r \<lparr> rv_slots := (rv_slots r)[slot := Some entry] \<rparr>) slot
                  (max (re_last_probe_at entry + rv_revisit_interval r) blocked) now;
            Some (True, r)
          }
        })"

definition is_backing_off :: "reservoir \<Rightarrow> socket_addr \<Rightarrow> instant \<Rightarrow> bool option" where
  "is_backing_off r addr now =
     (case hget (rv_index r) addr of
        None \<Rightarrow> Some False
      | Some slot \<Rightarrow>
          if length (rv_slots r) \<le> slot then None
          else Some (case Option.bind (rv_slots r ! slot) re_blocked_until of
                       None \<Rightarrow> False | Some deadline \<Rightarrow> now < deadline))"

subsection \<open>Linked segments\<close>

type_synonym slot_map = "nat \<Rightarrow> responsive_entry option"

definition first_or :: "nat option \<Rightarrow> nat list \<Rightarrow> nat option" where
  "first_or n xs = (case xs of [] \<Rightarrow> n | x # _ \<Rightarrow> Some x)"

definition last_or :: "nat option \<Rightarrow> nat list \<Rightarrow> nat option" where
  "last_or p xs = (if xs = [] then p else Some (last xs))"

lemma first_or_simps [simp]: "first_or n [] = n" "first_or n (x # xs) = Some x"
  by (simp_all add: first_or_def)

lemma last_or_simps [simp]: "last_or p [] = p" "last_or p (x # xs) = last_or (Some x) xs" "last_or p (xs @ [x]) = Some x"
  by (simp_all add: last_or_def)

lemma first_or_append: "first_or n (xs @ ys) = first_or (first_or n ys) xs"
  by (cases xs) simp_all

lemma last_or_append: "last_or p (xs @ ys) = last_or (last_or p xs) ys"
  by (simp add: last_or_def)

text \<open>\<open>seg S p xs n\<close>: the slots \<open>xs\<close> are linked in this order, coming from \<open>p\<close> and leading to \<open>n\<close>.\<close>

fun seg :: "slot_map \<Rightarrow> nat option \<Rightarrow> nat list \<Rightarrow> nat option \<Rightarrow> bool" where
  "seg S p [] n = True"
| "seg S p (x # xs) n =
     ((case S x of None \<Rightarrow> False | Some e \<Rightarrow> re_ready e \<and> re_previous e = p \<and> re_next e = first_or n xs) \<and> seg S (Some x) xs n)"

lemma seg_append: "seg S p (xs @ ys) n \<longleftrightarrow> seg S p xs (first_or n ys) \<and> seg S (last_or p xs) ys n"
  by (induction xs arbitrary: p) (simp_all add: first_or_append split: option.split)

lemma seg_cong: "(\<And>x. x \<in> set xs \<Longrightarrow> S x = T x) \<Longrightarrow> seg S p xs n = seg T p xs n"
  by (induction xs arbitrary: p) simp_all

definition set_next :: "nat option \<Rightarrow> nat option \<Rightarrow> slot_map \<Rightarrow> slot_map" where
  "set_next i n S = (case i of None \<Rightarrow> S | Some j \<Rightarrow> S(j := map_option (\<lambda>e. e \<lparr> re_next := n \<rparr>) (S j)))"

definition set_prev :: "nat option \<Rightarrow> nat option \<Rightarrow> slot_map \<Rightarrow> slot_map" where
  "set_prev i p S = (case i of None \<Rightarrow> S | Some j \<Rightarrow> S(j := map_option (\<lambda>e. e \<lparr> re_previous := p \<rparr>) (S j)))"

lemma set_link_other [simp]:
  "i \<noteq> Some j \<Longrightarrow> set_next i n S j = S j" "i \<noteq> Some j \<Longrightarrow> set_prev i p S j = S j"
  by (auto simp: set_next_def set_prev_def split: option.split)

lemma set_prev_cong: "S j = T j \<Longrightarrow> set_prev i p S j = set_prev i p T j"
  by (auto simp: set_prev_def split: option.split)

lemma seg_set_next:
  assumes "seg S p xs n" and "distinct xs"
  shows "seg (set_next (last_or None xs) m S) p xs m"
proof (cases xs rule: rev_cases)
  case (snoc ys y)
  have y: "y \<notin> set ys" using assms(2) snoc by simp
  have "seg (set_next (Some y) m S) p ys (Some y) = seg S p ys (Some y)"
    using y by (intro seg_cong set_link_other) auto
  then show ?thesis
    using assms(1) by (auto simp: snoc seg_append set_next_def split: option.splits)
qed simp

lemma seg_set_prev:
  assumes "seg S p xs n" and "distinct xs"
  shows "seg (set_prev (first_or None xs) q S) q xs n"
proof (cases xs)
  case (Cons y ys)
  have "seg (set_prev (Some y) q S) (Some y) ys n = seg S (Some y) ys n"
    using assms(2) Cons by (intro seg_cong set_link_other) auto
  then show ?thesis using assms(1) Cons by (auto simp: set_prev_def split: option.splits)
qed simp

text \<open>Unlinking the slot between \<open>xs\<close> and \<open>ys\<close>.\<close>

lemma seg_unlink:
  assumes "seg S None (xs @ i # ys) None" and "distinct (xs @ i # ys)"
  defines "T \<equiv> set_prev (first_or None ys) (last_or None xs) (set_next (last_or None xs) (first_or None ys) S)"
  assumes "\<And>j. j \<noteq> i \<Longrightarrow> U j = T j"
  shows "seg U None (xs @ ys) None"
proof -
  have parts: "seg S None xs (Some i)" "seg S (Some i) ys None" using assms(1) by (simp_all add: seg_append)
  have last: "last_or None xs \<noteq> Some j" if "j \<in> set ys" for j
    using that assms(2) last_in_set [of xs] by (auto simp: last_or_def disjoint_iff)
  have "first_or None ys \<noteq> Some j" if "j \<in> set xs" for j using that assms(2) by (cases ys) auto
  then have "U j = set_next (last_or None xs) (first_or None ys) S j" if "j \<in> set xs" for j
  proof -
    have "j \<noteq> i" using that assms(2) by auto
    then show ?thesis using that \<open>\<And>j. j \<in> set xs \<Longrightarrow> first_or None ys \<noteq> Some j\<close> assms(4) by (simp add: T_def)
  qed
  moreover have "U j = set_prev (first_or None ys) (last_or None xs) S j" if "j \<in> set ys" for j
  proof -
    have "j \<noteq> i" using that assms(2) by auto
    then have "U j = T j" by (rule assms(4))
    also have "\<dots> = set_prev (first_or None ys) (last_or None xs) S j"
      unfolding T_def by (rule set_prev_cong) (rule set_link_other(1) [OF last [OF that]])
    finally show ?thesis .
  qed
  ultimately have "seg U None xs (first_or None ys)" "seg U (last_or None xs) ys None"
    using seg_set_next [OF parts(1), of "first_or None ys"] seg_set_prev [OF parts(2), of "last_or None xs"] assms(2)
      seg_cong [of xs U "set_next (last_or None xs) (first_or None ys) S"]
      seg_cong [of ys U "set_prev (first_or None ys) (last_or None xs) S"]
    by simp_all
  then show ?thesis by (simp add: seg_append)
qed

subsection \<open>The representation\<close>

text \<open>What a slot holds apart from the schedule.\<close>

record resident =
  rs_node :: node_tuple
  rs_expires_at :: instant
  rs_last_probe_at :: instant
  rs_last_success_at :: instant
  rs_failures :: nat
  rs_blocked_until :: "instant option"

definition erase :: "responsive_entry \<Rightarrow> resident" where
  "erase e =
     \<lparr> rs_node = re_node e, rs_expires_at = re_expires_at e, rs_last_probe_at = re_last_probe_at e,
       rs_last_success_at = re_last_success_at e, rs_failures = re_failures e, rs_blocked_until = re_blocked_until e \<rparr>"

definition contents :: "slots \<Rightarrow> resident option list" where
  "contents slots = map (map_option erase) slots"

definition key_slot :: "revisit_key \<Rightarrow> nat" where
  "key_slot k = snd (snd k)"

text \<open>How a slot is scheduled: ready (\<open>xs\<close>), at a later time (\<open>ks\<close>), or not at all.\<close>

definition scheduled :: "nat list \<Rightarrow> revisit_key list \<Rightarrow> nat \<Rightarrow> responsive_entry \<Rightarrow> bool" where
  "scheduled xs ks i e =
     (re_ready e = (i \<in> set xs) \<and> (re_revisit_key e \<noteq> None \<longrightarrow> i \<notin> set xs) \<and>
      (\<forall>k. re_revisit_key e = Some k \<longleftrightarrow> k \<in> set ks \<and> key_slot k = i))"

definition wired :: "reservoir \<Rightarrow> nat list \<Rightarrow> bool" where
  "wired r xs =
     (seg (slot_at (rv_slots r)) None xs None \<and> distinct xs \<and>
      rv_ready_head r = first_or None xs \<and> rv_ready_tail r = last_or None xs \<and> rv_ready_len r = length xs \<and>
      swf (rv_revisits r) \<and>
      (\<forall>i e. slot_at (rv_slots r) i = Some e \<longrightarrow> scheduled xs (rv_revisits r) i e) \<and>
      (\<forall>k \<in> set (rv_revisits r). slot_at (rv_slots r) (key_slot k) \<noteq> None))"

text \<open>The fields that scheduling does not touch.\<close>

definition same_frame :: "reservoir \<Rightarrow> reservoir \<Rightarrow> bool" where
  "same_frame r r' =
     (contents (rv_slots r') = contents (rv_slots r) \<and> rv_index r' = rv_index r \<and> rv_write_cursor r' = rv_write_cursor r \<and>
      rv_ttl r' = rv_ttl r \<and> rv_revisit_interval r' = rv_revisit_interval r \<and>
      rv_snapshot_prefix_cursor r' = rv_snapshot_prefix_cursor r \<and> rv_snapshot_member_cursors r' = rv_snapshot_member_cursors r \<and>
      rv_sparse_prefixes r' = rv_sparse_prefixes r \<and> rv_links r' = rv_links r)"

lemma same_frame_trans: "same_frame r s \<Longrightarrow> same_frame s t \<Longrightarrow> same_frame r t"
  by (simp add: same_frame_def)

lemma slot_at_update: "i < length slots \<Longrightarrow> slot_at (slots[i := v]) = (slot_at slots)(i := v)"
  by (auto simp: slot_at_def fun_eq_iff)

lemma slot_at_bound: "slot_at slots i = Some e \<Longrightarrow> i < length slots"
  by (simp add: slot_at_def split: if_splits)

lemma contents_update: "contents (slots[i := v]) = (contents slots)[i := map_option erase v]"
  by (simp add: contents_def map_update)

lemma slot_at_contents: "slot_at (contents slots) i = map_option erase (slot_at slots i)"
  by (simp add: slot_at_def contents_def)

lemma length_contents [simp]: "length (contents slots) = length slots"
  by (simp add: contents_def)

lemma contents_same:
  assumes "slot_at slots i = Some e" and "erase e' = erase e"
  shows "contents (slots[i := Some e']) = contents slots"
proof -
  have "contents slots ! i = Some (erase e)" using assms(1) by (simp add: contents_def slot_at_def split: if_splits)
  then show ?thesis using assms(2) by (metis contents_update list_update_id option.map(2))
qed

lemma modify_slot_Some:
  assumes "slot_at (rv_slots r) i = Some e" and "erase (f e) = erase e"
  shows "\<exists>r'. modify_slot i f r = Some r' \<and> slot_at (rv_slots r') = (slot_at (rv_slots r))(i \<mapsto> f e) \<and> same_frame r r' \<and>
    rv_revisits r' = rv_revisits r \<and> rv_revisit_sequence r' = rv_revisit_sequence r \<and>
    rv_ready_head r' = rv_ready_head r \<and> rv_ready_tail r' = rv_ready_tail r \<and> rv_ready_len r' = rv_ready_len r"
  using assms slot_at_bound [OF assms(1)]
  by (simp add: modify_slot_def slot_at_update same_frame_def contents_same)

lemma seg_entry:
  assumes "seg S None (xs @ i # ys) None" and "S i = Some e"
  shows "re_previous e = last_or None xs" and "re_next e = first_or None ys"
    and "re_previous e = Some j \<Longrightarrow> S j \<noteq> None" and "re_next e = Some j \<Longrightarrow> S j \<noteq> None"
proof -
  show 1: "re_previous e = last_or None xs" and 2: "re_next e = first_or None ys"
    using assms by (simp_all add: seg_append)
  show "S j \<noteq> None" if "re_previous e = Some j"
    using that 1 assms(1) by (cases xs rule: rev_cases) (auto simp: seg_append split: option.splits)
  show "S j \<noteq> None" if "re_next e = Some j"
    using that 2 assms(1) by (cases ys) (auto simp: seg_append split: option.splits)
qed

text \<open>The unlinking step of \<open>unschedule\<close>, on the slots and on the ends of the list.\<close>

lemma relink_previous:
  assumes "slot_at (rv_slots r) i = Some e"
    and "\<And>j. re_previous e = Some j \<Longrightarrow> j \<noteq> i \<and> slot_at (rv_slots r) j \<noteq> None"
  shows "ok (case re_previous e of
               Some previous \<Rightarrow> modify_slot previous (\<lambda>e'. e' \<lparr> re_next := re_next e \<rparr>) r
             | None \<Rightarrow> Some (r \<lparr> rv_ready_head := re_next e \<rparr>))
      (\<lambda>r'. same_frame r r' \<and> rv_revisits r' = rv_revisits r \<and> rv_revisit_sequence r' = rv_revisit_sequence r \<and>
         rv_ready_len r' = rv_ready_len r \<and> rv_ready_head r' = (if re_previous e = None then re_next e else rv_ready_head r) \<and>
         rv_ready_tail r' = rv_ready_tail r \<and>
         slot_at (rv_slots r') = set_next (re_previous e) (re_next e) (slot_at (rv_slots r)))"
proof (cases "re_previous e")
  case None
  then show ?thesis using assms(1) by (simp add: same_frame_def set_next_def)
next
  case (Some j)
  obtain ej where ej: "slot_at (rv_slots r) j = Some ej" "j \<noteq> i" using assms(2) [OF Some] by blast
  show ?thesis
    using modify_slot_Some [OF ej(1), of "\<lambda>e'. e' \<lparr> re_next := re_next e \<rparr>"] ej Some assms(1)
    by (auto simp: erase_def set_next_def)
qed

lemma relink_next:
  assumes "slot_at (rv_slots r) i = Some e"
    and "\<And>j. re_next e = Some j \<Longrightarrow> j \<noteq> i \<and> slot_at (rv_slots r) j \<noteq> None"
  shows "ok (case re_next e of
               Some next \<Rightarrow> modify_slot next (\<lambda>e'. e' \<lparr> re_previous := re_previous e \<rparr>) r
             | None \<Rightarrow> Some (r \<lparr> rv_ready_tail := re_previous e \<rparr>))
      (\<lambda>r'. same_frame r r' \<and> rv_revisits r' = rv_revisits r \<and> rv_revisit_sequence r' = rv_revisit_sequence r \<and>
         rv_ready_len r' = rv_ready_len r \<and> rv_ready_head r' = rv_ready_head r \<and>
         rv_ready_tail r' = (if re_next e = None then re_previous e else rv_ready_tail r) \<and>
         slot_at (rv_slots r') = set_prev (re_next e) (re_previous e) (slot_at (rv_slots r)))"
proof (cases "re_next e")
  case None
  then show ?thesis using assms(1) by (simp add: same_frame_def set_prev_def)
next
  case (Some j)
  obtain ej where ej: "slot_at (rv_slots r) j = Some ej" "j \<noteq> i" using assms(2) [OF Some] by blast
  show ?thesis
    using modify_slot_Some [OF ej(1), of "\<lambda>e'. e' \<lparr> re_previous := re_previous e \<rparr>"] ej Some assms(1)
    by (auto simp: erase_def set_prev_def)
qed

text \<open>\<open>unlinked r i e r'\<close>: the neighbours of \<open>e\<close> now point to each other.\<close>

definition unlinked :: "reservoir \<Rightarrow> nat \<Rightarrow> responsive_entry \<Rightarrow> reservoir \<Rightarrow> bool" where
  "unlinked r i e r' = (same_frame r r' \<and> rv_revisits r' = rv_revisits r \<and> rv_revisit_sequence r' = rv_revisit_sequence r \<and>
     rv_ready_len r = Suc (rv_ready_len r') \<and>
     rv_ready_head r' = (if re_previous e = None then re_next e else rv_ready_head r) \<and>
     rv_ready_tail r' = (if re_next e = None then re_previous e else rv_ready_tail r) \<and>
     slot_at (rv_slots r') = set_prev (re_next e) (re_previous e) (set_next (re_previous e) (re_next e) (slot_at (rv_slots r))))"

lemma set_next_None [simp]: "set_next a b S j = None \<longleftrightarrow> S j = None"
  by (auto simp: set_next_def split: option.split)

lemma set_prev_None [simp]: "set_prev a b S j = None \<longleftrightarrow> S j = None"
  by (auto simp: set_prev_def split: option.split)

lemma unlink_ready_ok:
  assumes "slot_at (rv_slots r) i = Some e" and "0 < rv_ready_len r"
    and "\<And>j. re_previous e = Some j \<Longrightarrow> j \<noteq> i \<and> slot_at (rv_slots r) j \<noteq> None"
    and "\<And>j. re_next e = Some j \<Longrightarrow> j \<noteq> i \<and> slot_at (rv_slots r) j \<noteq> None"
  shows "ok (unlink_ready r e) (unlinked r i e)"
  unfolding unlink_ready_def ok_bind
proof (rule ok_mono [OF relink_previous [OF assms(1,3)]])
  fix r1
  assume 1: "same_frame r r1 \<and> rv_revisits r1 = rv_revisits r \<and> rv_revisit_sequence r1 = rv_revisit_sequence r \<and>
         rv_ready_len r1 = rv_ready_len r \<and> rv_ready_head r1 = (if re_previous e = None then re_next e else rv_ready_head r) \<and>
         rv_ready_tail r1 = rv_ready_tail r \<and>
         slot_at (rv_slots r1) = set_next (re_previous e) (re_next e) (slot_at (rv_slots r))"
  have "re_previous e \<noteq> Some i" using assms(3) [of i] by blast
  then have i1: "slot_at (rv_slots r1) i = Some e" using assms(1) 1 by (simp add: set_link_other)
  have n1: "j \<noteq> i \<and> slot_at (rv_slots r1) j \<noteq> None" if "re_next e = Some j" for j
    using assms(4) [OF that] 1 by simp
  show "ok (case re_next e of
               Some next \<Rightarrow> modify_slot next (\<lambda>e'. e' \<lparr> re_previous := re_previous e \<rparr>) r1
             | None \<Rightarrow> Some (r1 \<lparr> rv_ready_tail := re_previous e \<rparr>))
      (\<lambda>r'. ok (if rv_ready_len r' = 0 then None else Some (r' \<lparr> rv_ready_len := rv_ready_len r' - 1 \<rparr>)) (unlinked r i e))"
    by (rule ok_mono [OF relink_next [OF i1 n1]]) (use 1 assms(2) in \<open>simp_all add: unlinked_def same_frame_def\<close>)
qed

lemma links_keep:
  assumes "set_prev a b (set_next c d S) j = Some e'"
  shows "\<exists>e. S j = Some e \<and> re_ready e' = re_ready e \<and> re_revisit_key e' = re_revisit_key e"
  using assms by (auto simp: set_prev_def set_next_def split: option.splits if_splits)

text \<open>\<open>cleared r i r'\<close>: \<open>r'\<close> is \<open>r\<close> with slot \<open>i\<close> no longer scheduled.\<close>

definition cleared :: "reservoir \<Rightarrow> nat \<Rightarrow> reservoir \<Rightarrow> bool" where
  "cleared r i r' = (same_frame r r' \<and> rv_revisits r' = filter (\<lambda>k. key_slot k \<noteq> i) (rv_revisits r) \<and>
     rv_revisit_sequence r' = rv_revisit_sequence r \<and>
     (\<exists>e e'. slot_at (rv_slots r) i = Some e \<and> slot_at (rv_slots r') i = Some e' \<and> erase e' = erase e))"

lemma wired_clear:
  assumes w: "wired r xs" and e: "slot_at (rv_slots r) i = Some e"
    and ks: "rv_revisits r' = filter (\<lambda>k. key_slot k \<noteq> i) (rv_revisits r)"
    and sg: "seg (slot_at (rv_slots r')) None (removeAll i xs) None"
    and ends: "rv_ready_head r' = first_or None (removeAll i xs)" "rv_ready_tail r' = last_or None (removeAll i xs)"
      "rv_ready_len r' = length (removeAll i xs)"
    and other: "\<And>j e'. j \<noteq> i \<Longrightarrow> slot_at (rv_slots r') j = Some e' \<Longrightarrow>
      \<exists>e. slot_at (rv_slots r) j = Some e \<and> re_ready e' = re_ready e \<and> re_revisit_key e' = re_revisit_key e"
    and dom: "\<And>j. slot_at (rv_slots r') j = None \<longleftrightarrow> slot_at (rv_slots r) j = None"
    and own: "\<And>e'. slot_at (rv_slots r') i = Some e' \<Longrightarrow> \<not> re_ready e' \<and> re_revisit_key e' = None"
  shows "wired r' (removeAll i xs)"
proof -
  have "scheduled (removeAll i xs) (rv_revisits r') j e'" if j: "slot_at (rv_slots r') j = Some e'" for j e'
  proof (cases "j = i")
    case True
    then show ?thesis using own [of e'] j by (auto simp: scheduled_def ks)
  next
    case False
    obtain e0 where "slot_at (rv_slots r) j = Some e0" "re_ready e' = re_ready e0" "re_revisit_key e' = re_revisit_key e0"
      using other [OF False j] by blast
    moreover have "scheduled xs (rv_revisits r) j e0" using w calculation(1) by (simp add: wired_def)
    ultimately show ?thesis using False by (auto simp: scheduled_def ks)
  qed
  moreover have "swf (rv_revisits r')" using w by (simp add: wired_def ks swf_iff sorted_wrt_filter)
  ultimately show ?thesis
    using w sg ends dom by (simp add: wired_def distinct_removeAll ks)
qed

lemma wired_keys:
  assumes "wired r xs" and "slot_at (rv_slots r) i = Some e"
  shows "(case re_revisit_key e of None \<Rightarrow> rv_revisits r | Some key \<Rightarrow> sdel key (rv_revisits r)) =
           filter (\<lambda>k. key_slot k \<noteq> i) (rv_revisits r)"
proof -
  have sc: "re_revisit_key e = Some k \<longleftrightarrow> k \<in> set (rv_revisits r) \<and> key_slot k = i" for k
    using assms unfolding wired_def scheduled_def by blast
  show ?thesis
  proof (cases "re_revisit_key e")
    case None
    then have "filter (\<lambda>k. key_slot k \<noteq> i) (rv_revisits r) = rv_revisits r" using sc by (intro filter_True) auto
    then show ?thesis using None by simp
  next
    case (Some key)
    have "(k \<noteq> key) = (key_slot k \<noteq> i)" if "k \<in> set (rv_revisits r)" for k using sc [of k] Some that by auto
    then show ?thesis by (simp add: Some sdel_def cong: filter_cong)
  qed
qed

lemma drop_key_eqs:
  assumes "wired r xs" and "slot_at (rv_slots r) i = Some e"
  shows "rv_revisits (drop_key r e) = filter (\<lambda>k. key_slot k \<noteq> i) (rv_revisits r)"
  using wired_keys [OF assms] by (cases "re_revisit_key e") (simp_all add: drop_key_def)

lemma drop_key_frame [simp]:
  "rv_slots (drop_key r e) = rv_slots r" "rv_ready_head (drop_key r e) = rv_ready_head r"
  "rv_ready_tail (drop_key r e) = rv_ready_tail r" "rv_ready_len (drop_key r e) = rv_ready_len r"
  "rv_revisit_sequence (drop_key r e) = rv_revisit_sequence r" "same_frame r (drop_key r e)"
  by (simp_all add: drop_key_def same_frame_def split: option.split)

lemma clear_entry_simps [simp]:
  "erase (clear_entry e) = erase e" "re_ready (clear_entry e) = False" "re_revisit_key (clear_entry e) = None"
  by (simp_all add: clear_entry_def erase_def)

lemma unschedule_idle:
  assumes w: "wired r xs" and e: "slot_at (rv_slots r) i = Some e" and i: "i \<notin> set xs"
  shows "ok (unschedule r i) (\<lambda>r'. wired r' (removeAll i xs) \<and> cleared r i r')"
proof -
  have rdy: "\<not> re_ready e" using w e i unfolding wired_def scheduled_def by blast
  have e1: "slot_at (rv_slots (drop_key r e)) i = Some e" using e by simp
  obtain r2 where r2: "modify_slot i clear_entry (drop_key r e) = Some r2"
    "slot_at (rv_slots r2) = (slot_at (rv_slots r))(i \<mapsto> clear_entry e)" "same_frame (drop_key r e) r2"
    "rv_revisits r2 = filter (\<lambda>k. key_slot k \<noteq> i) (rv_revisits r)" "rv_revisit_sequence r2 = rv_revisit_sequence r"
    "rv_ready_head r2 = rv_ready_head r" "rv_ready_tail r2 = rv_ready_tail r" "rv_ready_len r2 = rv_ready_len r"
    using modify_slot_Some [OF e1, of clear_entry] drop_key_eqs [OF w e] by auto
  have run: "unschedule r i = Some r2" using e rdy r2(1) by (simp add: unschedule_def)
  have "wired r2 (removeAll i xs)"
  proof (rule wired_clear [OF w e r2(4)])
    have "seg (slot_at (rv_slots r2)) None xs None = seg (slot_at (rv_slots r)) None xs None"
      by (rule seg_cong) (use i in \<open>auto simp: r2(2)\<close>)
    then show "seg (slot_at (rv_slots r2)) None (removeAll i xs) None" using w i by (simp add: wired_def)
  qed (use w i r2 e in \<open>simp_all add: wired_def split: if_splits\<close>)
  then show ?thesis
    using run e r2 same_frame_trans [OF drop_key_frame(6) r2(3)] by (simp add: cleared_def)
qed

lemma unschedule_linked:
  assumes w: "wired r (as @ i # bs)" and e: "slot_at (rv_slots r) i = Some e"
  shows "ok (unschedule r i) (\<lambda>r'. wired r' (as @ bs) \<and> cleared r i r')"
proof -
  have sg: "seg (slot_at (rv_slots r)) None (as @ i # bs) None" and dist: "distinct (as @ i # bs)"
    and ends: "rv_ready_head r = first_or None (as @ i # bs)" "rv_ready_tail r = last_or None (as @ i # bs)"
      "rv_ready_len r = Suc (length as + length bs)"
    using w by (simp_all add: wired_def)
  have rdy: "re_ready e" using w e unfolding wired_def scheduled_def by simp
  note en = seg_entry [OF sg e]
  have p: "j \<noteq> i \<and> slot_at (rv_slots (drop_key r e)) j \<noteq> None" if "re_previous e = Some j" for j
    using that en(1) en(3) [OF that] dist last_in_set [of as] by (auto simp: last_or_def split: if_splits)
  have n: "j \<noteq> i \<and> slot_at (rv_slots (drop_key r e)) j \<noteq> None" if "re_next e = Some j" for j
    using that en(2) en(4) [OF that] dist by (cases bs) auto
  obtain r2 where r2: "unlink_ready (drop_key r e) e = Some r2" "unlinked (drop_key r e) i e r2"
    using unlink_ready_ok [of "drop_key r e" i e] e ends(3) p n unfolding ok_iff by auto
  note u = r2(2) [unfolded unlinked_def drop_key_frame drop_key_eqs [OF w e]]
  have "re_previous e \<noteq> Some i" "re_next e \<noteq> Some i" using p [of i] n [of i] by blast+
  then have e2: "slot_at (rv_slots r2) i = Some e" using u e by (simp add: set_link_other)
  obtain r4 where r4: "modify_slot i clear_entry r2 = Some r4"
    "slot_at (rv_slots r4) = (slot_at (rv_slots r2))(i \<mapsto> clear_entry e)" "same_frame r2 r4"
    "rv_revisits r4 = rv_revisits r2" "rv_revisit_sequence r4 = rv_revisit_sequence r2"
    "rv_ready_head r4 = rv_ready_head r2" "rv_ready_tail r4 = rv_ready_tail r2" "rv_ready_len r4 = rv_ready_len r2"
    using modify_slot_Some [OF e2, of clear_entry] by auto
  have run: "unschedule r i = Some r4" using e rdy r2(1) r4(1) by (simp add: unschedule_def)
  have rem: "removeAll i (as @ i # bs) = as @ bs" using dist by simp
  have T: "slot_at (rv_slots r2) = set_prev (first_or None bs) (last_or None as) (set_next (last_or None as) (first_or None bs) (slot_at (rv_slots r)))"
    using u by (simp add: en(1,2))
  have "wired r4 (removeAll i (as @ i # bs))"
  proof (rule wired_clear [OF w e])
    show "rv_revisits r4 = filter (\<lambda>k. key_slot k \<noteq> i) (rv_revisits r)" using r4(4) u by simp
    show "seg (slot_at (rv_slots r4)) None (removeAll i (as @ i # bs)) None"
      unfolding rem by (rule seg_unlink [OF sg dist]) (simp add: r4(2) T)
    show "rv_ready_head r4 = first_or None (removeAll i (as @ i # bs))"
      unfolding rem using r4(6) u ends(1) by (cases as) (auto simp: en(1,2) last_or_def)
    show "rv_ready_tail r4 = last_or None (removeAll i (as @ i # bs))"
      unfolding rem using r4(7) u ends(2) by (cases bs) (auto simp: en(1,2) last_or_def)
    show "rv_ready_len r4 = length (removeAll i (as @ i # bs))" unfolding rem using r4(8) u ends(3) by simp
    show "\<exists>e. slot_at (rv_slots r) j = Some e \<and> re_ready e' = re_ready e \<and> re_revisit_key e' = re_revisit_key e"
      if "j \<noteq> i" "slot_at (rv_slots r4) j = Some e'" for j e'
      using that links_keep unfolding r4(2) T by simp
  qed (auto simp: r4(2) T e)
  moreover have "same_frame r r4"
    using u same_frame_trans [OF drop_key_frame(6)] same_frame_trans [OF _ r4(3)] by blast
  ultimately show ?thesis using run e r4(2,4,5) u rem by (simp add: cleared_def)
qed

lemma unschedule_ok:
  assumes "wired r xs" and "slot_at (rv_slots r) i = Some e"
  shows "ok (unschedule r i) (\<lambda>r'. wired r' (removeAll i xs) \<and> cleared r i r')"
proof (cases "i \<in> set xs")
  case True
  then obtain as bs where xs: "xs = as @ i # bs" by (meson split_list)
  have "removeAll i xs = as @ bs" using assms(1) by (auto simp: wired_def xs)
  then show ?thesis using unschedule_linked assms unfolding xs by simp
qed (rule unschedule_idle [OF assms])

subsection \<open>Scheduling a slot\<close>

text \<open>\<open>idle r i e\<close>: slot \<open>i\<close> holds \<open>e\<close> and is scheduled nowhere.\<close>

definition idle :: "reservoir \<Rightarrow> nat list \<Rightarrow> nat \<Rightarrow> responsive_entry \<Rightarrow> bool" where
  "idle r xs i e = (slot_at (rv_slots r) i = Some e \<and> i \<notin> set xs \<and> i \<notin> key_slot ` set (rv_revisits r))"

lemma cleared_idle: "cleared r i r' \<Longrightarrow> \<exists>e. idle r' (removeAll i xs) i e"
  by (auto simp: cleared_def idle_def)

lemma wired_push:
  assumes w: "wired r xs" and i: "idle r xs i e"
    and ks: "rv_revisits r' = rv_revisits r"
    and sl: "slot_at (rv_slots r') = set_next (last_or None xs) (Some i) ((slot_at (rv_slots r))(i \<mapsto> e \<lparr> re_ready := True, re_previous := last_or None xs, re_next := None \<rparr>))"
    and ends: "rv_ready_head r' = first_or (Some i) xs" "rv_ready_tail r' = Some i" "rv_ready_len r' = Suc (rv_ready_len r)"
  shows "wired r' (xs @ [i])"
proof -
  let ?e = "e \<lparr> re_ready := True, re_previous := last_or None xs, re_next := None \<rparr>"
  have ix: "i \<notin> set xs" and ik: "i \<notin> key_slot ` set (rv_revisits r)" using i by (simp_all add: idle_def)
  have last: "last_or None xs \<noteq> Some i" using ix last_in_set [of xs] by (auto simp: last_or_def)
  have sg: "seg (slot_at (rv_slots r)) None xs None" and dist: "distinct xs" using w by (simp_all add: wired_def)
  have "seg ((slot_at (rv_slots r))(i \<mapsto> ?e)) None xs None = seg (slot_at (rv_slots r)) None xs None"
    by (rule seg_cong) (use ix in auto)
  then have "seg (slot_at (rv_slots r')) None xs (Some i)" unfolding sl using sg by (intro seg_set_next [OF _ dist]) simp
  moreover have own: "slot_at (rv_slots r') i = Some ?e" using last by (simp add: sl)
  ultimately have seg': "seg (slot_at (rv_slots r')) None (xs @ [i]) None" by (simp add: seg_append)
  have sc: "scheduled (xs @ [i]) (rv_revisits r) j e'" if j: "slot_at (rv_slots r') j = Some e'" for j e'
  proof (cases "j = i")
    case True
    have "re_revisit_key e = None" using w i ik unfolding wired_def scheduled_def idle_def by (metis imageI not_Some_eq)
    then show ?thesis using True j own ik by (auto simp: scheduled_def)
  next
    case False
    obtain e0 where "slot_at (rv_slots r) j = Some e0" "re_ready e' = re_ready e0" "re_revisit_key e' = re_revisit_key e0"
      using j False by (auto simp: sl set_next_def split: option.splits if_splits)
    moreover have "scheduled xs (rv_revisits r) j e0" using w calculation(1) by (simp add: wired_def)
    ultimately show ?thesis using False by (auto simp: scheduled_def)
  qed
  have "slot_at (rv_slots r') (key_slot k) \<noteq> None" if "k \<in> set (rv_revisits r)" for k
    using w that unfolding sl wired_def by simp
  then show ?thesis
    unfolding wired_def ks ends first_or_append using seg' sc dist ix w by (simp add: wired_def)
qed

lemma push_ready_ok:
  assumes w: "wired r xs" and i: "idle r xs i e"
  shows "ok (push_ready r i) (\<lambda>r'. wired r' (xs @ [i]) \<and> same_frame r r' \<and> rv_revisits r' = rv_revisits r \<and>
           rv_revisit_sequence r' = rv_revisit_sequence r)"
proof -
  have tl: "rv_ready_tail r = last_or None xs" and hd: "rv_ready_head r = first_or None xs" using w by (simp_all add: wired_def)
  have e: "slot_at (rv_slots r) i = Some e" and ix: "i \<notin> set xs" using i by (simp_all add: idle_def)
  obtain r1 where r1: "modify_slot i (\<lambda>e. e \<lparr> re_ready := True, re_previous := rv_ready_tail r, re_next := None \<rparr>) r = Some r1"
    "slot_at (rv_slots r1) = (slot_at (rv_slots r))(i \<mapsto> e \<lparr> re_ready := True, re_previous := last_or None xs, re_next := None \<rparr>)"
    "same_frame r r1" "rv_revisits r1 = rv_revisits r" "rv_revisit_sequence r1 = rv_revisit_sequence r"
    "rv_ready_head r1 = rv_ready_head r" "rv_ready_tail r1 = rv_ready_tail r" "rv_ready_len r1 = rv_ready_len r"
    using modify_slot_Some [OF e, of "\<lambda>e. e \<lparr> re_ready := True, re_previous := rv_ready_tail r, re_next := None \<rparr>"]
    by (auto simp: erase_def tl)
  show ?thesis
  proof (cases xs rule: rev_cases)
    case Nil
    let ?r = "r1 \<lparr> rv_ready_head := Some i, rv_ready_tail := Some i, rv_ready_len := rv_ready_len r1 + 1 \<rparr>"
    have "push_ready r i = Some ?r" using r1(1,7) tl Nil by (simp add: push_ready_def)
    moreover have "wired ?r (xs @ [i])"
      by (rule wired_push [OF w i]) (use r1 Nil in \<open>simp_all add: set_next_def\<close>)
    ultimately show ?thesis using r1 by (simp add: same_frame_def)
  next
    case (snoc ys t)
    have ti: "t \<noteq> i" using ix snoc by auto
    have "slot_at (rv_slots r) t \<noteq> None" using w unfolding wired_def snoc by (auto simp: seg_append split: option.splits)
    then obtain et where et: "slot_at (rv_slots r1) t = Some et" using r1(2) ti by auto
    obtain r2 where r2: "modify_slot t (\<lambda>e. e \<lparr> re_next := Some i \<rparr>) r1 = Some r2"
      "slot_at (rv_slots r2) = (slot_at (rv_slots r1))(t \<mapsto> et \<lparr> re_next := Some i \<rparr>)"
      "same_frame r1 r2" "rv_revisits r2 = rv_revisits r" "rv_revisit_sequence r2 = rv_revisit_sequence r"
      "rv_ready_head r2 = rv_ready_head r" "rv_ready_tail r2 = rv_ready_tail r" "rv_ready_len r2 = rv_ready_len r"
      using modify_slot_Some [OF et, of "\<lambda>e. e \<lparr> re_next := Some i \<rparr>"] r1 by (auto simp: erase_def)
    let ?r = "r2 \<lparr> rv_ready_tail := Some i, rv_ready_len := rv_ready_len r2 + 1 \<rparr>"
    have run: "push_ready r i = Some ?r" using r1(1,7) tl snoc r2(1) by (simp add: push_ready_def)
    have fst: "first_or (Some i) xs = first_or None xs" by (cases ys) (simp_all add: snoc)
    have "wired ?r (xs @ [i])"
    proof (rule wired_push [OF w i])
      show "slot_at (rv_slots ?r) = set_next (last_or None xs) (Some i) ((slot_at (rv_slots r))(i \<mapsto> e \<lparr> re_ready := True, re_previous := last_or None xs, re_next := None \<rparr>))"
        using r2(2) et unfolding r1(2) [symmetric] by (simp add: set_next_def snoc)
    qed (use r2 hd fst in simp_all)
    then show ?thesis using run r2(4,5) same_frame_trans [OF r1(3) r2(3)] by (simp add: same_frame_def)
  qed
qed

text \<open>\<open>placed r xs i at now r' ys\<close>: in \<open>r'\<close> slot \<open>i\<close> is scheduled for \<open>at\<close> and the ready queue is \<open>ys\<close>.\<close>

definition placed :: "reservoir \<Rightarrow> nat list \<Rightarrow> nat \<Rightarrow> instant \<Rightarrow> instant \<Rightarrow> reservoir \<Rightarrow> bool" where
  "placed r xs i at now r' =
     (let others = filter (\<lambda>k. key_slot k \<noteq> i) (rv_revisits r)
      in same_frame r r' \<and>
         (if at \<le> now
          then wired r' (removeAll i xs @ [i]) \<and> rv_revisits r' = others \<and> rv_revisit_sequence r' = rv_revisit_sequence r
          else wired r' (removeAll i xs) \<and> rv_revisits r' = sput (at, rv_revisit_sequence r, i) others \<and>
               rv_revisit_sequence r' = (rv_revisit_sequence r + 1) mod 2 ^ 64))"

lemma wired_wait:
  assumes w: "wired r xs" and i: "idle r xs i e" and key: "key_slot key = i"
    and sl: "slot_at (rv_slots r') = (slot_at (rv_slots r))(i \<mapsto> e \<lparr> re_revisit_key := Some key \<rparr>)"
    and ks: "rv_revisits r' = sput key (rv_revisits r)"
    and ends: "rv_ready_head r' = rv_ready_head r" "rv_ready_tail r' = rv_ready_tail r" "rv_ready_len r' = rv_ready_len r"
  shows "wired r' xs"
proof -
  have ix: "i \<notin> set xs" and ik: "i \<notin> key_slot ` set (rv_revisits r)" using i by (simp_all add: idle_def)
  have "seg (slot_at (rv_slots r')) None xs None = seg (slot_at (rv_slots r)) None xs None"
    by (rule seg_cong) (use ix in \<open>auto simp: sl\<close>)
  moreover have "scheduled xs (rv_revisits r') j e'" if j: "slot_at (rv_slots r') j = Some e'" for j e'
  proof (cases "j = i")
    case True
    have "scheduled xs (rv_revisits r) i e" using w i unfolding wired_def idle_def by blast
    moreover have "key_slot k \<noteq> i" if "k \<in> set (rv_revisits r)" for k using ik that by blast
    ultimately show ?thesis using True j ix key unfolding sl ks scheduled_def by auto
  next
    case False
    then have "scheduled xs (rv_revisits r) j e'" using w j unfolding sl wired_def by simp
    then show ?thesis using False key unfolding ks scheduled_def by auto
  qed
  ultimately show ?thesis
    using w key unfolding wired_def ends ks sl by auto
qed

lemma enqueue_revisit_ok:
  assumes w: "wired r xs" and e: "slot_at (rv_slots r) i = Some e"
  shows "ok (enqueue_revisit r i at now) (placed r xs i (not_before_block at (re_blocked_until e)) now)"
  unfolding enqueue_revisit_def ok_bind
proof (rule ok_mono [OF unschedule_ok [OF assms]])
  fix r1
  assume 1: "wired r1 (removeAll i xs) \<and> cleared r i r1"
  let ?others = "filter (\<lambda>k. key_slot k \<noteq> i) (rv_revisits r)"
  let ?at = "not_before_block at (re_blocked_until e)"
  let ?key = "(?at, rv_revisit_sequence r, i)"
  obtain e1 where e1: "slot_at (rv_slots r1) i = Some e1" "erase e1 = erase e"
    and eqs: "same_frame r r1" "rv_revisits r1 = ?others" "rv_revisit_sequence r1 = rv_revisit_sequence r"
    using 1 e unfolding cleared_def by auto
  have b: "re_blocked_until e1 = re_blocked_until e" using e1(2) by (simp add: erase_def)
  have i1: "idle r1 (removeAll i xs) i e1" using e1 eqs by (auto simp: idle_def)
  show "ok (slot_at (rv_slots r1) i) (\<lambda>entry. ok (let at = not_before_block at (re_blocked_until entry)
      in if at \<le> now then push_ready r1 i
         else let key = (at, rv_revisit_sequence r1, i)
              in modify_slot i (\<lambda>e. e \<lparr> re_revisit_key := Some key \<rparr>)
                   (r1 \<lparr> rv_revisit_sequence := (rv_revisit_sequence r1 + 1) mod 2 ^ 64 \<rparr>) \<bind>
                 (\<lambda>r. Some (r \<lparr> rv_revisits := sput key (rv_revisits r) \<rparr>)))
      (placed r xs i ?at now))"
  proof (cases "?at \<le> now")
    case True
    have "ok (push_ready r1 i) (placed r xs i ?at now)"
      by (rule ok_mono [OF push_ready_ok [OF conjunct1 [OF 1] i1]])
        (use True eqs same_frame_trans [OF eqs(1)] in \<open>simp add: placed_def Let_def\<close>)
    then show ?thesis using True by (simp add: e1(1) b Let_def)
  next
    case False
    let ?r = "r1 \<lparr> rv_revisit_sequence := (rv_revisit_sequence r1 + 1) mod 2 ^ 64 \<rparr>"
    have e2: "slot_at (rv_slots ?r) i = Some e1" using e1 by simp
    obtain r2 where r2: "modify_slot i (\<lambda>e. e \<lparr> re_revisit_key := Some ?key \<rparr>) ?r = Some r2"
      "slot_at (rv_slots r2) = (slot_at (rv_slots r1))(i \<mapsto> e1 \<lparr> re_revisit_key := Some ?key \<rparr>)" "same_frame ?r r2"
      "rv_revisits r2 = ?others" "rv_revisit_sequence r2 = (rv_revisit_sequence r + 1) mod 2 ^ 64"
      "rv_ready_head r2 = rv_ready_head r1" "rv_ready_tail r2 = rv_ready_tail r1" "rv_ready_len r2 = rv_ready_len r1"
      using modify_slot_Some [OF e2, of "\<lambda>e. e \<lparr> re_revisit_key := Some ?key \<rparr>"] eqs by (auto simp: erase_def)
    let ?r' = "r2 \<lparr> rv_revisits := sput ?key ?others \<rparr>"
    have "wired ?r' (removeAll i xs)"
      by (rule wired_wait [OF conjunct1 [OF 1] i1, of ?key]) (use r2 eqs in \<open>simp_all add: key_slot_def\<close>)
    moreover have "same_frame r ?r'" using eqs(1) r2(3) by (simp add: same_frame_def)
    ultimately have "placed r xs i ?at now ?r'" using False r2(5) by (simp add: placed_def Let_def)
    then show ?thesis using False r2(1,4) eqs by (simp add: e1(1) b Let_def)
  qed
qed

subsection \<open>Specification\<close>

text \<open>
  The reservoir with the ready queue as a list of slots and the future visits as a sorted list of
  (time, sequence number, slot). Nothing is linked and nothing can panic.
\<close>

record visits =
  vs_slots :: "resident option list"
  vs_index :: "(socket_addr, nat) hmap"
  vs_cursor :: nat
  vs_waiting :: "revisit_key list"
  vs_sequence :: nat
  vs_ready :: "nat list"
  vs_ttl :: duration
  vs_interval :: duration

definition vs_new :: "nat \<Rightarrow> duration \<Rightarrow> duration \<Rightarrow> visits" where
  "vs_new capacity ttl interval =
     \<lparr> vs_slots = replicate (max capacity 1) None, vs_index = [], vs_cursor = 0, vs_waiting = [], vs_sequence = 0,
       vs_ready = [], vs_ttl = ttl, vs_interval = interval \<rparr>"

definition vs_withdraw :: "nat \<Rightarrow> visits \<Rightarrow> visits" where
  "vs_withdraw i s =
     s \<lparr> vs_waiting := filter (\<lambda>k. key_slot k \<noteq> i) (vs_waiting s), vs_ready := removeAll i (vs_ready s) \<rparr>"

definition vs_place :: "nat \<Rightarrow> resident \<Rightarrow> instant \<Rightarrow> instant \<Rightarrow> visits \<Rightarrow> visits" where
  "vs_place i e at now s =
     (let s = vs_withdraw i (s \<lparr> vs_slots := (vs_slots s)[i := Some e] \<rparr>); at = not_before_block at (rs_blocked_until e)
      in if at \<le> now then s \<lparr> vs_ready := vs_ready s @ [i] \<rparr>
         else s \<lparr> vs_waiting := sput (at, vs_sequence s, i) (vs_waiting s), vs_sequence := (vs_sequence s + 1) mod 2 ^ 64 \<rparr>)"

definition vs_evict :: "nat \<Rightarrow> visits \<Rightarrow> visits" where
  "vs_evict i s =
     (case slot_at (vs_slots s) i of
        None \<Rightarrow> s
      | Some old \<Rightarrow> vs_withdraw i s \<lparr> vs_index := hdel (nt_addr (rs_node old)) (vs_index s) \<rparr>)"

definition vs_lookup :: "socket_addr \<Rightarrow> visits \<Rightarrow> (nat \<times> resident) option" where
  "vs_lookup addr s = Option.bind (hget (vs_index s) addr) (\<lambda>i. map_option (Pair i) (slot_at (vs_slots s) i))"

definition vs_record :: "node_tuple \<Rightarrow> instant \<Rightarrow> instant \<Rightarrow> visits \<Rightarrow> visits" where
  "vs_record node now probed_at s =
     (case vs_lookup (nt_addr node) s of
        Some (i, e) \<Rightarrow>
          (let e = e \<lparr> rs_node := node, rs_expires_at := now + vs_ttl s, rs_last_success_at := now \<rparr>
           in if 0 < rs_failures e
              then vs_place i (e \<lparr> rs_failures := 0, rs_blocked_until := None \<rparr>) (rs_last_probe_at e + vs_interval s) now s
              else s \<lparr> vs_slots := (vs_slots s)[i := Some e] \<rparr>)
      | None \<Rightarrow>
          (let i = vs_cursor s;
               e = \<lparr> rs_node = node, rs_expires_at = now + vs_ttl s, rs_last_probe_at = probed_at, rs_last_success_at = now,
                     rs_failures = 0, rs_blocked_until = None \<rparr>;
               s = vs_evict i s;
               s = vs_place i e (probed_at + vs_interval s) now (s \<lparr> vs_index := hput (nt_addr node) i (vs_index s) \<rparr>)
           in s \<lparr> vs_cursor := (vs_cursor s + 1) mod length (vs_slots s) \<rparr>))"

text \<open>The first visits that are due, at most \<open>n\<close>, move to the end of the ready queue.\<close>

definition vs_promote :: "nat \<Rightarrow> instant \<Rightarrow> visits \<Rightarrow> visits" where
  "vs_promote n now s =
     (let due = takeWhile (\<lambda>k. fst k \<le> now) (take n (vs_waiting s))
      in s \<lparr> vs_waiting := drop (length due) (vs_waiting s), vs_ready := vs_ready s @ map key_slot due \<rparr>)"

definition vs_expired :: "instant \<Rightarrow> resident option list \<Rightarrow> nat \<Rightarrow> bool" where
  "vs_expired now slots i = (case slot_at slots i of None \<Rightarrow> True | Some e \<Rightarrow> rs_expires_at e \<le> now)"

definition vs_forget :: "nat \<Rightarrow> visits \<Rightarrow> visits" where
  "vs_forget i s =
     (case slot_at (vs_slots s) i of
        None \<Rightarrow> s
      | Some e \<Rightarrow> s \<lparr> vs_slots := (vs_slots s)[i := None], vs_index := hdel (nt_addr (rs_node e)) (vs_index s) \<rparr>)"

text \<open>Of the first \<open>n\<close> ready slots, the expired ones at the front are dropped and the next one is served.\<close>

definition vs_serve :: "nat \<Rightarrow> instant \<Rightarrow> visits \<Rightarrow> node_tuple option \<times> visits" where
  "vs_serve n now s =
     (let gone = takeWhile (vs_expired now (vs_slots s)) (take n (vs_ready s));
          rest = drop (length gone) (vs_ready s);
          s' = fold vs_forget gone s
      in case take (n - length gone) rest of
           [] \<Rightarrow> (None, s' \<lparr> vs_ready := rest \<rparr>)
         | i # _ \<Rightarrow> (map_option rs_node (slot_at (vs_slots s) i), s' \<lparr> vs_ready := tl rest \<rparr>))"

definition vs_next :: "instant \<Rightarrow> visits \<Rightarrow> node_tuple option \<times> visits" where
  "vs_next now s = vs_serve 256 now (vs_promote 256 now s)"

definition vs_record_probe :: "socket_addr \<Rightarrow> instant \<Rightarrow> visits \<Rightarrow> visits" where
  "vs_record_probe addr now s =
     (case vs_lookup addr s of
        None \<Rightarrow> s
      | Some (i, e) \<Rightarrow> vs_place i (e \<lparr> rs_last_probe_at := now \<rparr>) (now + vs_interval s) now s)"

definition vs_defer :: "socket_addr \<Rightarrow> instant \<Rightarrow> instant \<Rightarrow> visits \<Rightarrow> visits" where
  "vs_defer addr retry_at now s =
     (case vs_lookup addr s of
        None \<Rightarrow> s
      | Some (i, e) \<Rightarrow> vs_place i e (max retry_at (rs_last_probe_at e + vs_interval s)) now s)"

definition vs_record_failure :: "socket_addr \<Rightarrow> instant \<Rightarrow> instant \<Rightarrow> visits \<Rightarrow> bool \<times> visits" where
  "vs_record_failure addr dispatched_at now s =
     (case vs_lookup addr s of
        None \<Rightarrow> (False, s)
      | Some (i, e) \<Rightarrow>
          if dispatched_at < rs_last_success_at e then (False, s)
          else let n = min (rs_failures e + 1) 5; blocked = now + failure_backoff n
               in (True, vs_place i (e \<lparr> rs_failures := n, rs_blocked_until := Some blocked \<rparr>)
                           (max (rs_last_probe_at e + vs_interval s) blocked) now s))"

definition vs_backing_off :: "socket_addr \<Rightarrow> instant \<Rightarrow> visits \<Rightarrow> bool" where
  "vs_backing_off addr now s =
     (case Option.bind (vs_lookup addr s) (\<lambda>(i, e). rs_blocked_until e) of None \<Rightarrow> False | Some deadline \<Rightarrow> now < deadline)"

subsection \<open>Calls\<close>

datatype reservoir_call =
    Record node_tuple instant instant
  | NextRevisit instant
  | RecordProbe socket_addr instant
  | DeferRevisit socket_addr instant instant
  | RecordFailure socket_addr instant instant
  | IsBackingOff socket_addr instant

datatype reservoir_answer = Done | Revisit "node_tuple option" | Answer bool

fun reservoir_step :: "reservoir \<Rightarrow> reservoir_call \<Rightarrow> (reservoir_answer \<times> reservoir) option" where
  "reservoir_step r (Record node now probed_at) = map_option (Pair Done) (rv_record r node now probed_at)"
| "reservoir_step r (NextRevisit now) = map_option (map_prod Revisit id) (next_revisit r now)"
| "reservoir_step r (RecordProbe addr now) = map_option (Pair Done) (rv_record_probe r addr now)"
| "reservoir_step r (DeferRevisit addr retry_at now) = map_option (Pair Done) (defer_revisit r addr retry_at now)"
| "reservoir_step r (RecordFailure addr dispatched_at now) =
     map_option (map_prod Answer id) (rv_record_failure r addr dispatched_at now)"
| "reservoir_step r (IsBackingOff addr now) = map_option (\<lambda>b. (Answer b, r)) (is_backing_off r addr now)"

fun visits_step :: "visits \<Rightarrow> reservoir_call \<Rightarrow> reservoir_answer \<times> visits" where
  "visits_step s (Record node now probed_at) = (Done, vs_record node now probed_at s)"
| "visits_step s (NextRevisit now) = map_prod Revisit id (vs_next now s)"
| "visits_step s (RecordProbe addr now) = (Done, vs_record_probe addr now s)"
| "visits_step s (DeferRevisit addr retry_at now) = (Done, vs_defer addr retry_at now s)"
| "visits_step s (RecordFailure addr dispatched_at now) = map_prod Answer id (vs_record_failure addr dispatched_at now s)"
| "visits_step s (IsBackingOff addr now) = (Answer (vs_backing_off addr now s), s)"

subsection \<open>The relation\<close>

definition indexed :: "(socket_addr, nat) hmap \<Rightarrow> resident option list \<Rightarrow> bool" where
  "indexed m slots =
     (hwf m \<and> (\<forall>a i. hget m a = Some i \<longleftrightarrow> (\<exists>e. slot_at slots i = Some e \<and> nt_addr (rs_node e) = a)))"

definition linked :: "reservoir \<Rightarrow> visits \<Rightarrow> bool" where
  "linked r s =
     (contents (rv_slots r) = vs_slots s \<and> rv_index r = vs_index s \<and> rv_write_cursor r = vs_cursor s \<and>
      rv_revisits r = vs_waiting s \<and> rv_revisit_sequence r = vs_sequence s \<and> rv_ttl r = vs_ttl s \<and>
      rv_revisit_interval r = vs_interval s \<and> wired r (vs_ready s))"

definition vs_inv :: "visits \<Rightarrow> bool" where
  "vs_inv s = (indexed (vs_index s) (vs_slots s) \<and> vs_cursor s < length (vs_slots s))"

definition represents :: "reservoir \<Rightarrow> visits \<Rightarrow> bool" where
  "represents r s = (linked r s \<and> vs_inv s)"

lemma indexed_touch:
  assumes "indexed m slots" and "slot_at slots i = Some e0" and "nt_addr (rs_node e) = nt_addr (rs_node e0)"
  shows "indexed m (slots[i := Some e])"
  using assms slot_at_bound [OF assms(2)] unfolding indexed_def by (auto simp: slot_at_update)

lemma indexed_get:
  assumes "indexed m slots" and "slot_at slots i = Some e"
  shows "hget m (nt_addr (rs_node e)) = Some i"
  using assms unfolding indexed_def by blast

lemma indexed_free:
  assumes "indexed m slots" and "slot_at slots i = Some e"
  shows "indexed (hdel (nt_addr (rs_node e)) m) (slots[i := None])"
proof -
  have "nt_addr (rs_node e') \<noteq> nt_addr (rs_node e)" if "slot_at slots j = Some e'" "j \<noteq> i" for j e'
    using indexed_get [OF assms(1) that(1)] indexed_get [OF assms] that(2) by auto
  then show ?thesis
    using assms slot_at_bound [OF assms(2)] unfolding indexed_def by (auto simp: slot_at_update)
qed

lemma indexed_fill:
  assumes "indexed m slots" and "slot_at slots i = None" and "i < length slots" and "hget m (nt_addr (rs_node e)) = None"
  shows "indexed (hput (nt_addr (rs_node e)) i m) (slots[i := Some e])"
proof -
  have "nt_addr (rs_node e') \<noteq> nt_addr (rs_node e)" if "slot_at slots j = Some e'" for j e'
    using indexed_get [OF assms(1) that] assms(4) by auto
  then show ?thesis using assms unfolding indexed_def by (auto simp: slot_at_update)
qed

lemma linked_slot:
  assumes "linked r s"
  shows "slot_at (vs_slots s) i = map_option erase (slot_at (rv_slots r) i)"
  using assms by (auto simp: linked_def slot_at_contents [symmetric])

lemma lookup_cases:
  assumes "represents r s"
  obtains (absent) "hget (rv_index r) a = None" "vs_lookup a s = None"
  | (present) i e where "hget (rv_index r) a = Some i" "slot_at (rv_slots r) i = Some e" "nt_addr (re_node e) = a"
      "vs_lookup a s = Some (i, erase e)"
proof (cases "hget (rv_index r) a")
  case None
  then show ?thesis using assms by (intro absent) (simp_all add: represents_def linked_def vs_lookup_def)
next
  case (Some i)
  have l: "linked r s" and "indexed (vs_index s) (vs_slots s)" "rv_index r = vs_index s"
    using assms by (simp_all add: represents_def vs_inv_def linked_def)
  then obtain e' where e': "slot_at (vs_slots s) i = Some e'" "nt_addr (rs_node e') = a" "hget (vs_index s) a = Some i"
    using Some unfolding indexed_def by metis
  then obtain e where "slot_at (rv_slots r) i = Some e" "e' = erase e" using linked_slot [OF l, of i] by auto
  then show ?thesis using Some e' by (intro present) (simp_all add: vs_lookup_def erase_def)
qed

text \<open>Updates of a slot that keep the schedule.\<close>

definition schedule_of :: "responsive_entry \<Rightarrow> bool \<times> revisit_key option \<times> nat option \<times> nat option" where
  "schedule_of e = (re_ready e, re_revisit_key e, re_previous e, re_next e)"

lemma seg_cong_schedule:
  assumes "\<And>x. x \<in> set xs \<Longrightarrow> map_option schedule_of (S x) = map_option schedule_of (T x)"
  shows "seg S p xs n = seg T p xs n"
  using assms
proof (induction xs arbitrary: p)
  case (Cons x xs)
  have "map_option schedule_of (S x) = map_option schedule_of (T x)" using Cons.prems by simp
  then show ?case using Cons.IH [of "Some x"] Cons.prems
    by (cases "S x"; cases "T x") (simp_all add: schedule_of_def)
qed simp

lemma wired_same_schedule:
  assumes w: "wired r xs"
    and sl: "\<And>x. map_option schedule_of (slot_at (rv_slots r') x) = map_option schedule_of (slot_at (rv_slots r) x)"
    and eqs: "rv_ready_head r' = rv_ready_head r" "rv_ready_tail r' = rv_ready_tail r" "rv_ready_len r' = rv_ready_len r"
      "rv_revisits r' = rv_revisits r"
  shows "wired r' xs"
proof -
  have dom: "slot_at (rv_slots r') j = None \<longleftrightarrow> slot_at (rv_slots r) j = None" for j
    using arg_cong [OF sl [of j], of "\<lambda>x. x = None"] by simp
  have "scheduled xs (rv_revisits r) j e'" if j: "slot_at (rv_slots r') j = Some e'" for j e'
  proof -
    obtain e where e: "slot_at (rv_slots r) j = Some e" using j dom [of j] by (cases "slot_at (rv_slots r) j") auto
    have "scheduled xs (rv_revisits r) j e" using w e by (simp add: wired_def)
    moreover have "schedule_of e' = schedule_of e" using sl [of j] j e by simp
    ultimately show ?thesis by (simp only: scheduled_def schedule_of_def prod.inject) simp
  qed
  then show ?thesis
    using w seg_cong_schedule [of xs "slot_at (rv_slots r')" "slot_at (rv_slots r)"] sl dom
    unfolding wired_def eqs by simp
qed

lemma wired_touch:
  assumes "wired r xs" and "slot_at (rv_slots r) i = Some e0" and "schedule_of e = schedule_of e0"
  shows "wired (r \<lparr> rv_slots := (rv_slots r)[i := Some e] \<rparr>) xs"
  by (rule wired_same_schedule [OF assms(1)])
    (use assms(2,3) slot_at_bound [OF assms(2)] in \<open>simp_all add: slot_at_update\<close>)

text \<open>A slot that is not scheduled may be emptied or refilled.\<close>

lemma wired_replace:
  assumes w: "wired r xs" and i: "i \<notin> set xs" "i \<notin> key_slot ` set (rv_revisits r)" "i < length (rv_slots r)"
    and v: "\<And>e. v = Some e \<Longrightarrow> \<not> re_ready e \<and> re_revisit_key e = None"
    and eqs: "rv_slots r' = (rv_slots r)[i := v]" "rv_ready_head r' = rv_ready_head r" "rv_ready_tail r' = rv_ready_tail r"
      "rv_ready_len r' = rv_ready_len r" "rv_revisits r' = rv_revisits r"
  shows "wired r' xs"
proof -
  have sl: "slot_at (rv_slots r') = (slot_at (rv_slots r))(i := v)" using i(3) by (simp add: eqs(1) slot_at_update)
  have seg': "seg (slot_at (rv_slots r')) None xs None = seg (slot_at (rv_slots r)) None xs None"
    by (rule seg_cong) (use i(1) in \<open>auto simp: sl\<close>)
  have ik: "key_slot k \<noteq> i" if "k \<in> set (rv_revisits r)" for k using i(2) that by blast
  have "scheduled xs (rv_revisits r) j e'" if j: "slot_at (rv_slots r') j = Some e'" for j e'
  proof (cases "j = i")
    case True
    then show ?thesis using v j i(1) ik by (auto simp: sl scheduled_def)
  next
    case False
    then show ?thesis using w j by (simp add: sl wired_def)
  qed
  then show ?thesis using w seg' ik unfolding wired_def eqs(2-5) by (simp add: sl)
qed

lemma wired_free_slot:
  assumes "wired r xs" and "slot_at (rv_slots r) i = None"
  shows "i \<notin> set xs" and "i \<notin> key_slot ` set (rv_revisits r)"
proof -
  show "i \<notin> key_slot ` set (rv_revisits r)" using assms unfolding wired_def by blast
  show "i \<notin> set xs"
  proof
    assume "i \<in> set xs"
    then obtain as bs where "xs = as @ i # bs" by (meson split_list)
    then show False using assms by (auto simp: wired_def seg_append)
  qed
qed

subsection \<open>The operations refine their specifications\<close>

lemma placed_linked:
  assumes "linked r (s \<lparr> vs_slots := (vs_slots s)[i := Some e] \<rparr>)"
    and "placed r (vs_ready s) i (not_before_block at (rs_blocked_until e)) now r'"
  shows "linked r' (vs_place i e at now s)"
  using assms unfolding placed_def linked_def same_frame_def vs_place_def vs_withdraw_def Let_def
  by (simp split: if_splits)

lemma linked_touch:
  assumes "linked r s" and "slot_at (rv_slots r) i = Some e0" and "schedule_of e = schedule_of e0"
  shows "linked (r \<lparr> rv_slots := (rv_slots r)[i := Some e] \<rparr>) (s \<lparr> vs_slots := (vs_slots s)[i := Some (erase e)] \<rparr>)"
  using assms wired_touch [OF _ assms(2,3)] by (simp add: linked_def contents_update)

lemma enqueue_touch:
  assumes l: "linked r s" and i: "slot_at (rv_slots r) i = Some e0" and e: "schedule_of e = schedule_of e0"
  shows "ok (enqueue_revisit (r \<lparr> rv_slots := (rv_slots r)[i := Some e] \<rparr>) i at now)
           (\<lambda>r'. linked r' (vs_place i (erase e) at now s))"
proof -
  let ?r = "r \<lparr> rv_slots := (rv_slots r)[i := Some e] \<rparr>"
  have l': "linked ?r (s \<lparr> vs_slots := (vs_slots s)[i := Some (erase e)] \<rparr>)" by (rule linked_touch [OF assms])
  then have w: "wired ?r (vs_ready s)" by (simp add: linked_def)
  have i': "slot_at (rv_slots ?r) i = Some e" using slot_at_bound [OF i] by (simp add: slot_at_update)
  have b: "rs_blocked_until (erase e) = re_blocked_until e" by (simp add: erase_def)
  show ?thesis
    by (rule ok_mono [OF enqueue_revisit_ok [OF w i']]) (rule placed_linked [OF l'], simp add: b)
qed

lemma vs_inv_place:
  assumes "vs_inv s" and "slot_at (vs_slots s) i = Some e0" and "nt_addr (rs_node e) = nt_addr (rs_node e0)"
  shows "vs_inv (vs_place i e at now s)"
  using assms(1) indexed_touch [OF _ assms(2,3)]
  by (auto simp: vs_inv_def vs_place_def vs_withdraw_def Let_def)

text \<open>Both steps together: rescheduling a node that is in the index.\<close>

lemma reschedule_ok:
  assumes "represents r s" and "slot_at (rv_slots r) i = Some e0" and "schedule_of e = schedule_of e0"
    and "nt_addr (re_node e) = nt_addr (re_node e0)"
  shows "ok (enqueue_revisit (r \<lparr> rv_slots := (rv_slots r)[i := Some e] \<rparr>) i at now)
           (\<lambda>r'. represents r' (vs_place i (erase e) at now s))"
proof -
  have l: "linked r s" and v: "vs_inv s" using assms(1) by (simp_all add: represents_def)
  have "vs_inv (vs_place i (erase e) at now s)"
    by (rule vs_inv_place [OF v, of i "erase e0"])
      (use assms(2,4) linked_slot [OF l, of i] in \<open>simp_all add: erase_def\<close>)
  then show ?thesis
    using ok_mono [OF enqueue_touch [OF l assms(2,3), of at now]] by (simp add: represents_def)
qed

lemma record_probe_refines:
  assumes "represents r s"
  shows "ok (rv_record_probe r addr now) (\<lambda>r'. represents r' (vs_record_probe addr now s))"
proof (cases rule: lookup_cases [OF assms, of addr])
  case i: (2 i e)
  have iv: "rv_revisit_interval r = vs_interval s" using assms by (simp add: represents_def linked_def)
  have "erase (e \<lparr> re_last_probe_at := now \<rparr>) = erase e \<lparr> rs_last_probe_at := now \<rparr>" by (simp add: erase_def)
  then show ?thesis
    using reschedule_ok [OF assms i(2), of "e \<lparr> re_last_probe_at := now \<rparr>" "now + vs_interval s" now] i iv
    by (simp add: rv_record_probe_def vs_record_probe_def modify_slot_def schedule_of_def)
qed (use assms in \<open>simp add: rv_record_probe_def vs_record_probe_def\<close>)

lemma defer_refines:
  assumes "represents r s"
  shows "ok (defer_revisit r addr retry_at now) (\<lambda>r'. represents r' (vs_defer addr retry_at now s))"
proof (cases rule: lookup_cases [OF assms, of addr])
  case i: (2 i e)
  have iv: "rv_revisit_interval r = vs_interval s" using assms by (simp add: represents_def linked_def)
  have "(rv_slots r)[i := Some e] = rv_slots r" using i(2) by (simp add: slot_at_def list_update_same_conv split: if_splits)
  moreover have "rs_last_probe_at (erase e) = re_last_probe_at e" by (simp add: erase_def)
  ultimately show ?thesis
    using reschedule_ok [OF assms i(2), of e "max retry_at (re_last_probe_at e + vs_interval s)" now] i iv
    by (simp add: defer_revisit_def vs_defer_def)
qed (use assms in \<open>simp add: defer_revisit_def vs_defer_def\<close>)

lemma record_failure_refines:
  assumes "represents r s"
  shows "ok (rv_record_failure r addr dispatched_at now)
    (\<lambda>(out, r'). out = fst (vs_record_failure addr dispatched_at now s) \<and> represents r' (snd (vs_record_failure addr dispatched_at now s)))"
proof (cases rule: lookup_cases [OF assms, of addr])
  case i: (2 i e)
  have iv: "rv_revisit_interval r = vs_interval s" using assms by (simp add: represents_def linked_def)
  let ?n = "min (re_failures e + 1) 5"
  let ?e = "e \<lparr> re_failures := ?n, re_blocked_until := Some (now + failure_backoff ?n) \<rparr>"
  let ?at = "max (re_last_probe_at e + vs_interval s) (now + failure_backoff ?n)"
  have n: "min (min (re_failures e + 1) 255) 5 = ?n" by simp
  have er: "erase ?e = erase e \<lparr> rs_failures := ?n, rs_blocked_until := Some (now + failure_backoff ?n) \<rparr>"
    "rs_failures (erase e) = re_failures e" "rs_last_success_at (erase e) = re_last_success_at e"
    "rs_last_probe_at (erase e) = re_last_probe_at e" by (simp_all add: erase_def)
  have "ok (enqueue_revisit (r \<lparr> rv_slots := (rv_slots r)[i := Some ?e] \<rparr>) i ?at now)
          (\<lambda>r'. represents r' (vs_place i (erase ?e) ?at now s))"
    by (rule reschedule_ok [OF assms i(2)]) (simp_all add: schedule_of_def)
  then show ?thesis
    using assms unfolding rv_record_failure_def vs_record_failure_def i(1,4) iv
    by (auto simp: i(2) er n Let_def ok_iff simp del: One_nat_def min.assoc)
qed (use assms in \<open>simp add: rv_record_failure_def vs_record_failure_def\<close>)

lemma backing_off_refines:
  assumes "represents r s"
  shows "is_backing_off r addr now = Some (vs_backing_off addr now s)"
proof (cases rule: lookup_cases [OF assms, of addr])
  case i: (2 i e)
  then show ?thesis
    by (simp add: is_backing_off_def vs_backing_off_def slot_at_def erase_def split: if_splits)
qed (simp add: is_backing_off_def vs_backing_off_def)

text \<open>Recording a reply: a known node, then a new one.\<close>

lemma record_known_refines:
  assumes R: "represents r s" and i: "hget (rv_index r) (nt_addr node) = Some i" "slot_at (rv_slots r) i = Some e"
    "nt_addr (re_node e) = nt_addr node" "vs_lookup (nt_addr node) s = Some (i, erase e)"
  shows "ok (rv_record r node now probed_at) (\<lambda>r'. represents r' (vs_record node now probed_at s))"
proof -
  have l: "linked r s" and v: "vs_inv s" and eqs: "rv_revisit_interval r = vs_interval s" "rv_ttl r = vs_ttl s"
    using R by (simp_all add: represents_def linked_def)
  define e1 where "e1 = e \<lparr> re_node := node, re_expires_at := now + vs_ttl s, re_last_success_at := now \<rparr>"
  define e2 where "e2 = e1 \<lparr> re_failures := 0, re_blocked_until := None \<rparr>"
  have er: "erase e1 = erase e \<lparr> rs_node := node, rs_expires_at := now + vs_ttl s, rs_last_success_at := now \<rparr>"
    "erase e2 = erase e1 \<lparr> rs_failures := 0, rs_blocked_until := None \<rparr>" "rs_failures (erase e1) = re_failures e1"
    "rs_last_probe_at (erase e1) = re_last_probe_at e1" "re_last_probe_at e2 = re_last_probe_at e1"
    by (simp_all add: erase_def e1_def e2_def)
  have sch: "schedule_of e1 = schedule_of e" "schedule_of e2 = schedule_of e"
    "nt_addr (re_node e1) = nt_addr (re_node e)" "nt_addr (re_node e2) = nt_addr (re_node e)"
    using i(3) by (simp_all add: schedule_of_def e1_def e2_def)
  have vs: "vs_record node now probed_at s =
      (if 0 < re_failures e1 then vs_place i (erase e2) (re_last_probe_at e1 + vs_interval s) now s
       else s \<lparr> vs_slots := (vs_slots s)[i := Some (erase e1)] \<rparr>)"
    unfolding vs_record_def i(4) er(1) [symmetric] er(2) by (simp only: option.case prod.case Let_def er(1) [symmetric] er(3,4))
  have rv: "rv_record r node now probed_at =
      (if 0 < re_failures e1 then enqueue_revisit (r \<lparr> rv_slots := (rv_slots r)[i := Some e2] \<rparr>) i (re_last_probe_at e1 + vs_interval s) now
       else Some (r \<lparr> rv_slots := (rv_slots r)[i := Some e1] \<rparr>))"
    unfolding rv_record_def i(1) by (simp add: i(2) eqs Let_def e1_def e2_def)
  have "indexed (vs_index s) ((vs_slots s)[i := Some (erase e1)])"
    by (rule indexed_touch [of _ _ _ "erase e"])
      (use v i(2) sch(3) linked_slot [OF l, of i] in \<open>simp_all add: vs_inv_def erase_def\<close>)
  then have "represents (r \<lparr> rv_slots := (rv_slots r)[i := Some e1] \<rparr>) (s \<lparr> vs_slots := (vs_slots s)[i := Some (erase e1)] \<rparr>)"
    using linked_touch [OF l i(2) sch(1)] v by (simp add: represents_def vs_inv_def)
  then show ?thesis
    unfolding rv vs using reschedule_ok [OF R i(2) sch(2,4)] by simp
qed

lemma vs_evict_simps [simp]:
  "vs_slots (vs_evict i s) = vs_slots s" "vs_cursor (vs_evict i s) = vs_cursor s" "vs_ttl (vs_evict i s) = vs_ttl s"
  "vs_interval (vs_evict i s) = vs_interval s"
  by (simp_all add: vs_evict_def vs_withdraw_def split: option.split)

lemma evict_refines:
  assumes l: "linked r s" and i: "i < length (rv_slots r)"
  shows "ok (case rv_slots r ! i of
               None \<Rightarrow> Some r
             | Some old \<Rightarrow> do {
                 r \<leftarrow> unschedule r i;
                 Some (r \<lparr> rv_index := hdel (nt_addr (re_node old)) (rv_index r) \<rparr>)
               })
      (\<lambda>r'. linked r' (vs_evict i s) \<and> i \<notin> set (vs_ready (vs_evict i s)) \<and> i \<notin> key_slot ` set (vs_waiting (vs_evict i s)))"
proof (cases "rv_slots r ! i")
  case None
  then have e: "slot_at (rv_slots r) i = None" by (simp add: slot_at_def)
  then have "vs_evict i s = s" using linked_slot [OF l, of i] by (simp add: vs_evict_def)
  then show ?thesis using None l wired_free_slot [OF _ e, of "vs_ready s"] by (simp add: linked_def)
next
  case (Some old)
  then have e: "slot_at (rv_slots r) i = Some old" using i by (simp add: slot_at_def)
  have w: "wired r (vs_ready s)" using l by (simp add: linked_def)
  have ev: "vs_evict i s = vs_withdraw i s \<lparr> vs_index := hdel (nt_addr (re_node old)) (vs_index s) \<rparr>"
    using e linked_slot [OF l, of i] by (simp add: vs_evict_def erase_def)
  have "ok (unschedule r i) (\<lambda>r'. linked (r' \<lparr> rv_index := hdel (nt_addr (re_node old)) (rv_index r') \<rparr>) (vs_evict i s))"
    by (rule ok_mono [OF unschedule_ok [OF w e]])
      (use l in \<open>auto simp: ev linked_def cleared_def same_frame_def vs_withdraw_def wired_def\<close>)
  then show ?thesis by (auto simp: Some ok_iff ev vs_withdraw_def)
qed

lemma vs_inv_evict:
  assumes "vs_inv s" and "hget (vs_index s) a = None"
  shows "indexed (vs_index (vs_evict i s)) ((vs_slots s)[i := None])" and "hget (vs_index (vs_evict i s)) a = None"
proof -
  have ix: "indexed (vs_index s) (vs_slots s)" using assms(1) by (simp add: vs_inv_def)
  have "(vs_slots s)[i := None] = vs_slots s" if "slot_at (vs_slots s) i = None"
    using that by (cases "i < length (vs_slots s)") (simp_all add: slot_at_def list_update_same_conv list_update_beyond)
  then show "indexed (vs_index (vs_evict i s)) ((vs_slots s)[i := None])"
    using ix indexed_free [OF ix] by (cases "slot_at (vs_slots s) i") (simp_all add: vs_evict_def)
  show "hget (vs_index (vs_evict i s)) a = None"
    using assms(2) by (cases "slot_at (vs_slots s) i") (simp_all add: vs_evict_def)
qed

lemma fill_linked:
  assumes l: "linked r s" and i: "i < length (rv_slots r)" "i \<notin> set (vs_ready s)" "i \<notin> key_slot ` set (vs_waiting s)"
    and e: "\<not> re_ready e" "re_revisit_key e = None"
  shows "linked (r \<lparr> rv_slots := (rv_slots r)[i := Some e], rv_index := hput a i (rv_index r) \<rparr>)
           (s \<lparr> vs_index := hput a i (vs_index s), vs_slots := (vs_slots s)[i := Some (erase e)] \<rparr>)"
proof -
  have "wired (r \<lparr> rv_slots := (rv_slots r)[i := Some e], rv_index := hput a i (rv_index r) \<rparr>) (vs_ready s)"
    by (rule wired_replace [of r _ i "Some e"]) (use l i e in \<open>simp_all add: linked_def\<close>)
  then show ?thesis using l by (simp add: linked_def contents_update)
qed

lemma fill_refines:
  assumes "linked r s" and "i < length (rv_slots r)" "i \<notin> set (vs_ready s)" "i \<notin> key_slot ` set (vs_waiting s)"
    and "\<not> re_ready e" "re_revisit_key e = None"
  shows "ok (enqueue_revisit (r \<lparr> rv_slots := (rv_slots r)[i := Some e], rv_index := hput a i (rv_index r) \<rparr>) i at now)
           (\<lambda>r'. linked r' (vs_place i (erase e) at now (s \<lparr> vs_index := hput a i (vs_index s) \<rparr>)))"
proof -
  let ?r = "r \<lparr> rv_slots := (rv_slots r)[i := Some e], rv_index := hput a i (rv_index r) \<rparr>"
  let ?s = "s \<lparr> vs_index := hput a i (vs_index s) \<rparr>"
  have l: "linked ?r (?s \<lparr> vs_slots := (vs_slots ?s)[i := Some (erase e)] \<rparr>)" using fill_linked [OF assms, of a] by simp
  then have "wired ?r (vs_ready (?s \<lparr> vs_slots := (vs_slots ?s)[i := Some (erase e)] \<rparr>))" unfolding linked_def by blast
  then have w: "wired ?r (vs_ready ?s)" by simp
  have i: "slot_at (rv_slots ?r) i = Some e" using assms(2) by (simp add: slot_at_update)
  have b: "re_blocked_until e = rs_blocked_until (erase e)" by (simp add: erase_def)
  show ?thesis
    by (rule ok_mono [OF enqueue_revisit_ok [OF w i]]) (rule placed_linked [OF l], simp add: b)
qed

lemma vs_place_simps [simp]:
  "vs_cursor (vs_place i e at now s) = vs_cursor s" "vs_slots (vs_place i e at now s) = (vs_slots s)[i := Some e]"
  "vs_index (vs_place i e at now s) = vs_index s" "vs_interval (vs_place i e at now s) = vs_interval s"
  "vs_ttl (vs_place i e at now s) = vs_ttl s"
  by (simp_all add: vs_place_def vs_withdraw_def Let_def)

lemma vs_inv_record_new:
  assumes v: "vs_inv s" and a: "hget (vs_index s) (nt_addr node) = None"
  shows "vs_inv (vs_record node now probed_at s)"
proof -
  let ?i = "vs_cursor s"
  have i: "?i < length (vs_slots s)" "0 < length (vs_slots s)" using v by (auto simp: vs_inv_def)
  have "indexed (hput (nt_addr (rs_node e)) ?i (vs_index (vs_evict ?i s))) ((vs_slots s)[?i := None, ?i := Some e])"
    if "rs_node e = node" for e
    using that i vs_inv_evict [OF v a, of ?i] by (intro indexed_fill) (simp_all add: slot_at_def)
  then show ?thesis
    using a i by (simp add: vs_record_def vs_lookup_def Let_def vs_inv_def)
qed

lemma record_new_refines:
  assumes R: "represents r s" and a: "hget (rv_index r) (nt_addr node) = None"
  shows "ok (rv_record r node now probed_at) (\<lambda>r'. represents r' (vs_record node now probed_at s))"
proof -
  have l: "linked r s" and v: "vs_inv s" using R by (simp_all add: represents_def)
  define i where "i = rv_write_cursor r"
  define e where "e = fresh_responsive node now probed_at (vs_ttl s)"
  have i: "vs_cursor s = i" "i < length (vs_slots s)" "hget (vs_index s) (nt_addr node) = None"
    using l v a by (simp_all add: linked_def vs_inv_def i_def)
  have len: "length (rv_slots r') = length (vs_slots s')" if "linked r' s'" for r' s'
    using that unfolding linked_def by (metis length_contents)
  have er: "erase e = \<lparr> rs_node = node, rs_expires_at = now + vs_ttl s, rs_last_probe_at = probed_at, rs_last_success_at = now,
                     rs_failures = 0, rs_blocked_until = None \<rparr>" "\<not> re_ready e" "re_revisit_key e = None"
    by (simp_all add: erase_def e_def fresh_responsive_def)
  let ?s1 = "vs_evict i s"
  let ?s3 = "vs_place i (erase e) (probed_at + vs_interval s) now (?s1 \<lparr> vs_index := hput (nt_addr node) i (vs_index ?s1) \<rparr>)"
  have vs: "vs_record node now probed_at s = ?s3 \<lparr> vs_cursor := (i + 1) mod length (vs_slots s) \<rparr>"
    using i by (simp add: vs_record_def vs_lookup_def Let_def er)
  have finish: "ok (if rv_slots r3 = [] then None else Some (r3 \<lparr> rv_write_cursor := (rv_write_cursor r3 + 1) mod length (rv_slots r3) \<rparr>))
      (\<lambda>r'. represents r' (vs_record node now probed_at s))" if "linked r3 ?s3" for r3
    using that len [OF that] i vs_inv_record_new [OF v i(3), of now probed_at]
    by (auto simp: represents_def vs linked_def wired_def)
  have fill: "ok (enqueue_revisit (r1 \<lparr> rv_slots := (rv_slots r1)[i := Some e], rv_index := hput (nt_addr node) i (rv_index r1) \<rparr>) i
        (probed_at + vs_interval s) now) (\<lambda>r3. linked r3 ?s3)"
    if "linked r1 ?s1 \<and> i \<notin> set (vs_ready ?s1) \<and> i \<notin> key_slot ` set (vs_waiting ?s1)" for r1
    using that len [of r1 ?s1] i er(2,3) by (intro fill_refines) auto
  have eqs: "rv_ttl r1 = vs_ttl s" "rv_revisit_interval r1 = vs_interval s" if "linked r1 ?s1" for r1
    using that by (simp_all add: linked_def)
  have bnd: "\<not> length (rv_slots r) \<le> i" "i < length (rv_slots r)" using len [OF l] i by simp_all
  show ?thesis
    unfolding rv_record_def a option.case Let_def i_def [symmetric] if_not_P [OF bnd(1)] ok_bind
  proof (rule ok_mono [OF evict_refines [OF l bnd(2)]], goal_cases)
    case (1 r1)
    have iv: "rv_revisit_interval (r1 \<lparr> rv_slots := x, rv_index := y \<rparr>) = vs_interval s" for x y
      using eqs(2) [OF conjunct1 [OF 1]] by simp
    show ?case
      by (simp only: iv eqs(1) [OF conjunct1 [OF 1]] e_def [symmetric]) (rule ok_mono [OF fill [OF 1] finish])
  qed
qed

lemma record_refines:
  assumes "represents r s"
  shows "ok (rv_record r node now probed_at) (\<lambda>r'. represents r' (vs_record node now probed_at s))"
  by (cases rule: lookup_cases [OF assms, of "nt_addr node"])
    (simp_all add: record_new_refines [OF assms] record_known_refines [OF assms])

text \<open>Promoting the due visits.\<close>

lemma promote_step:
  assumes l: "linked r s" and ks: "vs_waiting s = key # rest"
  shows "ok (do {
      r \<leftarrow> modify_slot (key_slot key) (\<lambda>e. e \<lparr> re_revisit_key := None \<rparr>) (r \<lparr> rv_revisits := sdel key (rv_revisits r) \<rparr>);
      push_ready r (key_slot key) }) (\<lambda>r'. linked r' (s \<lparr> vs_waiting := rest, vs_ready := vs_ready s @ [key_slot key] \<rparr>))"
proof -
  let ?i = "key_slot key"
  let ?r = "r \<lparr> rv_revisits := sdel key (rv_revisits r) \<rparr>"
  have w: "wired r (vs_ready s)" and rk: "rv_revisits r = key # rest" using l ks by (simp_all add: linked_def)
  have "swf (key # rest)" using w rk unfolding wired_def by metis
  then have del: "sdel key (rv_revisits r) = rest" using rk by (simp add: sdel_first)
  obtain e where e: "slot_at (rv_slots r) ?i = Some e" using w rk unfolding wired_def by fastforce
  have sc: "scheduled (vs_ready s) (key # rest) ?i e" using w e rk unfolding wired_def by metis
  then have "re_revisit_key e = Some key \<longleftrightarrow> key \<in> set (key # rest) \<and> ?i = ?i" unfolding scheduled_def by blast
  then have k: "re_revisit_key e = Some key" by simp
  have key: "re_revisit_key e = Some key" "?i \<notin> set (vs_ready s)" by (fact k, use sc k in \<open>simp add: scheduled_def\<close>)
  have rdy: "\<not> re_ready e" using sc key(2) unfolding scheduled_def by blast
  have rest: "filter (\<lambda>k. key_slot k \<noteq> ?i) (rv_revisits r) = rest"
    using wired_keys [OF w e] key(1) del by simp
  have others: "?i \<notin> key_slot ` set rest" unfolding rest [symmetric] by auto
  have e': "slot_at (rv_slots ?r) ?i = Some e" using e by simp
  obtain r1 where r1: "modify_slot ?i (\<lambda>e. e \<lparr> re_revisit_key := None \<rparr>) ?r = Some r1"
    "slot_at (rv_slots r1) = (slot_at (rv_slots r))(?i \<mapsto> e \<lparr> re_revisit_key := None \<rparr>)" "same_frame ?r r1"
    "rv_revisits r1 = rest" "rv_revisit_sequence r1 = rv_revisit_sequence r"
    "rv_ready_head r1 = rv_ready_head r" "rv_ready_tail r1 = rv_ready_tail r" "rv_ready_len r1 = rv_ready_len r"
    using modify_slot_Some [OF e', of "\<lambda>e. e \<lparr> re_revisit_key := None \<rparr>"] del by (auto simp: erase_def)
  have "wired r1 (removeAll ?i (vs_ready s))"
  proof (rule wired_clear [OF w e])
    have "seg (slot_at (rv_slots r1)) None (vs_ready s) None = seg (slot_at (rv_slots r)) None (vs_ready s) None"
      by (rule seg_cong) (use key(2) in \<open>auto simp: r1(2)\<close>)
    then show "seg (slot_at (rv_slots r1)) None (removeAll ?i (vs_ready s)) None" using w key(2) by (simp add: wired_def)
  qed (use w key rdy r1 rest e in \<open>simp_all add: wired_def split: if_splits\<close>)
  then have w1: "wired r1 (vs_ready s)" using key(2) by simp
  have i1: "idle r1 (vs_ready s) ?i (e \<lparr> re_revisit_key := None \<rparr>)"
    using key(2) r1(2,4) others by (auto simp: idle_def)
  have "ok (push_ready r1 ?i) (\<lambda>r'. linked r' (s \<lparr> vs_waiting := rest, vs_ready := vs_ready s @ [?i] \<rparr>))"
    by (rule ok_mono [OF push_ready_ok [OF w1 i1]])
      (use l r1(3-5) in \<open>simp add: linked_def same_frame_def\<close>)
  then show ?thesis by (simp add: r1(1))
qed

lemma promote_refines: "linked r s \<Longrightarrow> ok (promote_due n r now) (\<lambda>r'. linked r' (vs_promote n now s))"
proof (induction n arbitrary: r s)
  case 0
  then show ?case by (simp add: vs_promote_def)
next
  case (Suc n)
  show ?case
  proof (cases "vs_waiting s")
    case Nil
    then show ?thesis using Suc.prems by (simp add: linked_def vs_promote_def)
  next
    case (Cons key rest)
    have rk: "rv_revisits r = key # rest" using Suc.prems Cons by (simp add: linked_def)
    show ?thesis
    proof (cases "now < fst key")
      case True
      then have "vs_promote (Suc n) now s = s" using Cons by (simp add: vs_promote_def)
      then show ?thesis using Suc.prems True rk by simp
    next
      case False
      let ?s = "s \<lparr> vs_waiting := rest, vs_ready := vs_ready s @ [key_slot key] \<rparr>"
      have "vs_promote (Suc n) now s = vs_promote n now ?s" using False Cons by (simp add: vs_promote_def Let_def)
      moreover have "ok (modify_slot (key_slot key) (\<lambda>e. e \<lparr> re_revisit_key := None \<rparr>) (r \<lparr> rv_revisits := sdel key (rv_revisits r) \<rparr>))
          (\<lambda>r1. ok (push_ready r1 (key_slot key)) (\<lambda>r2. ok (promote_due n r2 now) (\<lambda>r'. linked r' (vs_promote n now ?s))))"
        by (rule ok_mono [OF promote_step [OF Suc.prems Cons, unfolded ok_bind]]) (erule ok_mono, erule Suc.IH)
      ultimately show ?thesis using False rk by (simp add: key_slot_def Let_def)
    qed
  qed
qed

text \<open>Serving the ready queue.\<close>

lemma vs_forget_ready: "vs_forget i (s \<lparr> vs_ready := q \<rparr>) = vs_forget i s \<lparr> vs_ready := q \<rparr>"
  by (simp add: vs_forget_def split: option.split)

lemma fold_forget_ready: "fold vs_forget is (s \<lparr> vs_ready := q \<rparr>) = fold vs_forget is s \<lparr> vs_ready := q \<rparr>"
  by (induction "is" arbitrary: s) (simp_all add: vs_forget_ready)

lemma vs_forget_other: "j \<noteq> i \<Longrightarrow> slot_at (vs_slots (vs_forget i s)) j = slot_at (vs_slots s) j"
  by (auto simp: vs_forget_def slot_at_update dest: slot_at_bound split: option.split)

lemma vs_serve_Suc_expired:
  assumes q: "vs_ready s = i # q" and i: "i \<notin> set q" and ex: "vs_expired now (vs_slots s) i"
  shows "vs_serve (Suc n) now s = vs_serve n now (vs_forget i s \<lparr> vs_ready := q \<rparr>)"
proof -
  have same: "vs_expired now (vs_slots (vs_forget i s)) j = vs_expired now (vs_slots s) j" if "j \<in> set (take n q)" for j
  proof -
    have "j \<noteq> i" using in_set_takeD [OF that] i by blast
    then show ?thesis by (simp add: vs_expired_def vs_forget_other)
  qed
  have gone: "takeWhile (vs_expired now (vs_slots (vs_forget i s))) (take n q) = takeWhile (vs_expired now (vs_slots s)) (take n q)"
    by (rule takeWhile_cong) (simp_all add: same)
  have node: "slot_at (vs_slots (vs_forget i s)) j = slot_at (vs_slots s) j" if "take m (drop k q) = j # js" for j js m k
  proof -
    have "j \<in> set (take m (drop k q))" using that by simp
    then have "j \<in> set q" by (auto dest: in_set_takeD in_set_dropD)
    then show ?thesis using i by (intro vs_forget_other) auto
  qed
  show ?thesis
    unfolding vs_serve_def using q ex gone
    by (auto simp: Let_def fold_forget_ready node split: list.split)
qed

lemma vs_serve_Suc_live:
  assumes "vs_ready s = i # q" and "\<not> vs_expired now (vs_slots s) i"
  shows "vs_serve (Suc n) now s = (map_option rs_node (slot_at (vs_slots s) i), s \<lparr> vs_ready := q \<rparr>)"
  using assms by (simp add: vs_serve_def)

lemma vs_inv_forget: "vs_inv s \<Longrightarrow> vs_inv (vs_forget i s)"
  using indexed_free [of "vs_index s" "vs_slots s" i]
  by (cases "slot_at (vs_slots s) i") (auto simp: vs_forget_def vs_inv_def)

lemma serve_pop:
  assumes l: "linked r s" and q: "vs_ready s = i # q"
  shows "ok (unschedule r i) (\<lambda>r'. linked r' (s \<lparr> vs_ready := q \<rparr>) \<and> i \<notin> set q \<and> i \<notin> key_slot ` set (vs_waiting s) \<and>
           (\<exists>e. slot_at (rv_slots r') i = Some e \<and> slot_at (vs_slots s) i = Some (erase e)))"
proof -
  have w: "wired r (i # q)" using l q by (simp add: linked_def)
  then obtain e where e: "slot_at (rv_slots r) i = Some e" by (auto simp: wired_def split: option.splits)
  have sc: "scheduled (i # q) (rv_revisits r) i e" using w e unfolding wired_def by blast
  have "re_revisit_key e = None" by (cases "re_revisit_key e") (use sc in \<open>simp_all add: scheduled_def\<close>)
  then have nk: "key_slot k \<noteq> i" if "k \<in> set (rv_revisits r)" for k
    using sc that unfolding scheduled_def by (metis option.distinct(1))
  then have filt: "filter (\<lambda>k. key_slot k \<noteq> i) (rv_revisits r) = rv_revisits r" by (simp add: filter_id_conv)
  have q': "i \<notin> set q" "removeAll i (i # q) = q" using w by (auto simp: wired_def)
  show ?thesis
    by (rule ok_mono [OF unschedule_ok [OF w e]])
      (use l e q' nk filt linked_slot [OF l, of i] in \<open>auto simp: linked_def cleared_def same_frame_def\<close>)
qed

lemma serve_refines:
  assumes "represents r s"
  shows "ok (serve_ready n r now) (\<lambda>(out, r'). out = fst (vs_serve n now s) \<and> represents r' (snd (vs_serve n now s)))"
  using assms
proof (induction n arbitrary: r s)
  case 0
  then show ?case by (simp add: vs_serve_def)
next
  case (Suc n)
  have l: "linked r s" and v: "vs_inv s" using Suc.prems by (simp_all add: represents_def)
  show ?case
  proof (cases "vs_ready s")
    case Nil
    have "rv_ready_head r = None" using l Nil by (simp add: linked_def wired_def)
    moreover have "s \<lparr> vs_ready := [] \<rparr> = s" using Nil by simp
    then have "vs_serve (Suc n) now s = (None, s)" using Nil by (simp add: vs_serve_def)
    ultimately show ?thesis using Suc.prems by simp
  next
    case (Cons i q)
    have hd: "rv_ready_head r = Some i" using l Cons by (simp add: linked_def wired_def)
    obtain r1 e where r1: "unschedule r i = Some r1" "linked r1 (s \<lparr> vs_ready := q \<rparr>)" "i \<notin> set q"
      "i \<notin> key_slot ` set (vs_waiting s)" "slot_at (rv_slots r1) i = Some e" "slot_at (vs_slots s) i = Some (erase e)"
      using serve_pop [OF l Cons] unfolding ok_iff by blast
    have ex: "vs_expired now (vs_slots s) i \<longleftrightarrow> re_expires_at e \<le> now" by (simp add: vs_expired_def r1(6) erase_def)
    show ?thesis
    proof (cases "re_expires_at e \<le> now")
      case True
      let ?r = "r1 \<lparr> rv_index := hdel (nt_addr (re_node e)) (rv_index r1), rv_slots := (rv_slots r1)[i := None] \<rparr>"
      let ?s = "vs_forget i s \<lparr> vs_ready := q \<rparr>"
      have "wired ?r q"
        by (rule wired_replace [of r1 q i None]) (use r1 slot_at_bound [OF r1(5)] in \<open>simp_all add: linked_def\<close>)
      then have "linked ?r ?s" using r1(2,6) by (simp add: linked_def vs_forget_def contents_update erase_def)
      then have "represents ?r ?s" using vs_inv_forget [OF v, of i] by (simp add: represents_def vs_inv_def)
      from Suc.IH [OF this] show ?thesis
        using True by (simp add: hd r1(1,5) vs_serve_Suc_expired [OF Cons r1(3)] ex)
    next
      case False
      then show ?thesis
        using r1(2) v by (simp add: hd r1(1,5,6) vs_serve_Suc_live [OF Cons] ex erase_def represents_def vs_inv_def)
    qed
  qed
qed

lemma next_refines:
  assumes "represents r s"
  shows "ok (next_revisit r now) (\<lambda>(out, r'). out = fst (vs_next now s) \<and> represents r' (snd (vs_next now s)))"
proof -
  have "vs_inv (vs_promote 256 now s)" using assms by (simp add: represents_def vs_inv_def vs_promote_def Let_def)
  then have "ok (promote_due 256 r now) (\<lambda>r1. represents r1 (vs_promote 256 now s))"
    using assms promote_refines [of r s 256 now] by (auto simp: represents_def elim!: ok_mono)
  then show ?thesis
    unfolding next_revisit_def vs_next_def ok_bind by (rule ok_mono) (rule serve_refines)
qed

interpretation rv: simulation reservoir_step visits_step represents
proof
  fix r s e
  assume R: "represents r s"
  show "ok (reservoir_step r e) (\<lambda>(out, r'). out = fst (visits_step s e) \<and> represents r' (snd (visits_step s e)))"
    using record_refines [OF R] record_probe_refines [OF R] defer_refines [OF R] next_refines [OF R]
      record_failure_refines [OF R] backing_off_refines [OF R] R
    by (cases e) (simp_all add: case_prod_unfold)
qed

subsection \<open>When a node is visited\<close>

definition eligible :: "duration \<Rightarrow> instant \<Rightarrow> resident \<Rightarrow> bool" where
  "eligible interval now e = (not_before_block (rs_last_probe_at e + interval) (rs_blocked_until e) \<le> now)"

definition timely :: "instant \<Rightarrow> visits \<Rightarrow> bool" where
  "timely now s =
     ((\<forall>i \<in> set (vs_ready s). \<exists>e. slot_at (vs_slots s) i = Some e \<and> eligible (vs_interval s) now e) \<and>
      (\<forall>k \<in> set (vs_waiting s). \<exists>e. slot_at (vs_slots s) (key_slot k) = Some e \<and> eligible (vs_interval s) (fst k) e))"

lemma eligible_mono: "eligible iv t e \<Longrightarrow> t \<le> now \<Longrightarrow> eligible iv now e"
  by (simp add: eligible_def)

lemma timely_mono: "timely t s \<Longrightarrow> t \<le> now \<Longrightarrow> timely now s"
  unfolding timely_def by (meson eligible_mono)

lemma eligible_placed: "rs_last_probe_at e + iv \<le> at \<Longrightarrow> eligible iv (not_before_block at (rs_blocked_until e)) e"
  by (auto simp: eligible_def not_before_block_def split: option.split)

text \<open>Slots that are scheduled nowhere do not matter.\<close>

lemma timely_frame:
  assumes "timely now s" and "vs_interval s' = vs_interval s"
    and "set (vs_ready s') \<subseteq> set (vs_ready s)" and "set (vs_waiting s') \<subseteq> set (vs_waiting s)"
    and "\<And>i. i \<in> set (vs_ready s') \<union> key_slot ` set (vs_waiting s') \<Longrightarrow> slot_at (vs_slots s') i = slot_at (vs_slots s) i"
  shows "timely now s'"
  using assms unfolding timely_def by (auto simp: subset_iff)

lemma timely_place:
  assumes t: "timely now s" and i: "i < length (vs_slots s)" and at: "rs_last_probe_at e + vs_interval s \<le> at"
  shows "timely now (vs_place i e at now s)"
proof -
  let ?s = "vs_withdraw i (s \<lparr> vs_slots := (vs_slots s)[i := Some e] \<rparr>)"
  have w: "timely now ?s"
    by (rule timely_frame [OF t]) (use i in \<open>auto simp: vs_withdraw_def slot_at_update\<close>)
  have own: "slot_at (vs_slots ?s) i = Some e" using i by (simp add: vs_withdraw_def slot_at_update)
  have el: "eligible (vs_interval ?s) (not_before_block at (rs_blocked_until e)) e"
    using eligible_placed [OF at] by (simp add: vs_withdraw_def)
  show ?thesis
    using w own el eligible_mono [OF el, of now] unfolding vs_place_def Let_def timely_def
    by (auto simp: key_slot_def)
qed

lemma timely_lookup_place:
  assumes "timely now s" and "vs_lookup a s = Some (i, e0)" and "rs_last_probe_at e + vs_interval s \<le> at"
  shows "timely now (vs_place i e at now s)"
  using timely_place [OF assms(1) _ assms(3)] assms(2)
  by (auto simp: vs_lookup_def bind_eq_Some_conv dest: slot_at_bound)

lemma timely_cursor: "timely now (s \<lparr> vs_cursor := c \<rparr>) = timely now s"
  by (simp add: timely_def)

lemma timely_record:
  assumes t: "timely now s" and v: "vs_inv s"
  shows "timely now (vs_record node now probed_at s)"
proof (cases "vs_lookup (nt_addr node) s")
  case None
  have "timely now (vs_evict (vs_cursor s) s \<lparr> vs_index := m \<rparr>)" for m
    by (rule timely_frame [OF t]) (auto simp: vs_evict_def vs_withdraw_def split: option.splits)
  from timely_place [OF this, of "vs_cursor s"] show ?thesis
    using v None by (simp add: vs_record_def Let_def vs_inv_def timely_cursor)
next
  case (Some p)
  obtain i e where p: "p = (i, e)" by fastforce
  let ?e = "e \<lparr> rs_node := node, rs_expires_at := now + vs_ttl s, rs_last_success_at := now \<rparr>"
  have e: "slot_at (vs_slots s) i = Some e" using Some p by (auto simp: vs_lookup_def bind_eq_Some_conv)
  have "timely now (s \<lparr> vs_slots := (vs_slots s)[i := Some ?e] \<rparr>)"
    using t e slot_at_bound [OF e] unfolding timely_def by (auto simp: slot_at_update eligible_def)
  then show ?thesis
    using timely_lookup_place [OF t] Some p unfolding vs_record_def by (simp add: Let_def)
qed

lemma timely_promote: "timely now s \<Longrightarrow> timely now (vs_promote n now s)"
proof -
  assume t: "timely now s"
  let ?due = "takeWhile (\<lambda>k. fst k \<le> now) (take n (vs_waiting s))"
  have "\<exists>e. slot_at (vs_slots s) (key_slot k) = Some e \<and> eligible (vs_interval s) now e" if "k \<in> set ?due" for k
    using t set_takeWhileD [OF that] in_set_takeD eligible_mono unfolding timely_def by metis
  then show ?thesis
    using t in_set_dropD unfolding vs_promote_def Let_def timely_def by fastforce
qed

lemma fold_forget_other: "j \<notin> set is \<Longrightarrow> slot_at (vs_slots (fold vs_forget is s)) j = slot_at (vs_slots s) j"
  by (induction "is" arbitrary: s) (simp_all add: vs_forget_other)

lemma fold_forget_frame [simp]:
  "vs_waiting (fold vs_forget is s) = vs_waiting s" "vs_interval (fold vs_forget is s) = vs_interval s"
  by (induction "is" arbitrary: s) (simp_all add: vs_forget_def split: option.split)

lemma timely_serve:
  assumes t: "timely now s" and d: "distinct (vs_ready s @ map key_slot (vs_waiting s))"
  shows "timely now (snd (vs_serve n now s))"
proof -
  let ?gone = "takeWhile (vs_expired now (vs_slots s)) (take n (vs_ready s))"
  let ?rest = "drop (length ?gone) (vs_ready s)"
  have split: "vs_ready s = ?gone @ ?rest"
    by (metis (no_types, lifting) append_take_drop_id append_assoc append_eq_conv_conj takeWhile_dropWhile_id)
  then have dist: "distinct (?gone @ ?rest @ map key_slot (vs_waiting s))" using d by (metis append_assoc)
  have keep: "timely now (fold vs_forget ?gone s \<lparr> vs_ready := q \<rparr>)" if q: "set q \<subseteq> set ?rest" for q
  proof (rule timely_frame [OF t])
    show "set (vs_ready (fold vs_forget ?gone s \<lparr> vs_ready := q \<rparr>)) \<subseteq> set (vs_ready s)"
      using q set_drop_subset [of "length ?gone" "vs_ready s"] by auto
    fix i assume "i \<in> set (vs_ready (fold vs_forget ?gone s \<lparr> vs_ready := q \<rparr>)) \<union> key_slot ` set (vs_waiting (fold vs_forget ?gone s \<lparr> vs_ready := q \<rparr>))"
    then have "i \<in> set (?rest @ map key_slot (vs_waiting s))" using q by auto
    then have "i \<notin> set ?gone" using dist unfolding distinct_append by blast
    then show "slot_at (vs_slots (fold vs_forget ?gone s \<lparr> vs_ready := q \<rparr>)) i = slot_at (vs_slots s) i"
      by (simp add: fold_forget_other)
  qed simp_all
  have "set (tl ?rest) \<subseteq> set ?rest" by (cases ?rest) auto
  then show ?thesis
    using keep [of ?rest] keep [of "tl ?rest"] unfolding vs_serve_def Let_def by (simp split: list.split)
qed

lemma vs_serve_node:
  assumes "fst (vs_serve n now s) = Some node"
  shows "\<exists>i \<in> set (vs_ready s). \<exists>e. slot_at (vs_slots s) i = Some e \<and> rs_node e = node \<and> now < rs_expires_at e"
proof -
  let ?P = "vs_expired now (vs_slots s)"
  have "take (n - length (takeWhile ?P (take n (vs_ready s)))) (drop (length (takeWhile ?P (take n (vs_ready s)))) (vs_ready s)) =
      dropWhile ?P (take n (vs_ready s))"
    by (metis drop_take dropWhile_eq_drop)
  then obtain i q where i: "dropWhile ?P (take n (vs_ready s)) = i # q" "map_option rs_node (slot_at (vs_slots s) i) = Some node"
    using assms by (auto simp: vs_serve_def Let_def split: list.splits)
  have "i \<in> set (vs_ready s)" using i(1) by (metis in_set_takeD list.set_intros(1) set_dropWhileD)
  moreover have "\<not> ?P i" using hd_dropWhile [of ?P "take n (vs_ready s)"] i(1) by simp
  ultimately show ?thesis using i(2) by (auto simp: vs_expired_def not_le intro!: bexI [of _ i])
qed

lemma linked_distinct:
  assumes "linked r s"
  shows "distinct (vs_ready s @ map key_slot (vs_waiting s))"
proof -
  have w: "wired r (vs_ready s)" "rv_revisits r = vs_waiting s" using assms by (simp_all add: linked_def)
  have occ: "\<exists>e. slot_at (rv_slots r) (key_slot k) = Some e \<and> re_revisit_key e = Some k \<and> key_slot k \<notin> set (vs_ready s)"
    if k: "k \<in> set (vs_waiting s)" for k
  proof -
    have "slot_at (rv_slots r) (key_slot k) \<noteq> None" using w k unfolding wired_def by simp
    then obtain e where e: "slot_at (rv_slots r) (key_slot k) = Some e" by blast
    then have sc: "scheduled (vs_ready s) (vs_waiting s) (key_slot k) e" using w unfolding wired_def by metis
    then have "re_revisit_key e = Some k" using k unfolding scheduled_def by blast
    then show ?thesis using e sc by (simp add: scheduled_def)
  qed
  have "inj_on key_slot (set (vs_waiting s))" by (rule inj_onI) (metis occ option.inject)
  moreover have "distinct (vs_waiting s)" using w by (simp add: wired_def swf_iff)
  ultimately show ?thesis using w(1) occ by (auto simp: distinct_map wired_def)
qed

fun call_time :: "reservoir_call \<Rightarrow> instant" where
  "call_time (Record node now probed_at) = now"
| "call_time (NextRevisit now) = now"
| "call_time (RecordProbe addr now) = now"
| "call_time (DeferRevisit addr retry_at now) = now"
| "call_time (RecordFailure addr dispatched_at now) = now"
| "call_time (IsBackingOff addr now) = now"

lemma timely_step:
  assumes R: "represents r s" and t: "timely (call_time c) s"
  shows "timely (call_time c) (snd (visits_step s c))"
proof (cases c)
  case (Record node now probed_at)
  then show ?thesis using R t by (simp add: represents_def timely_record)
next
  case (NextRevisit now)
  have "linked r s" using R by (simp add: represents_def)
  then obtain r' where "linked r' (vs_promote 256 now s)" using promote_refines [of r s 256 now] unfolding ok_iff by blast
  then show ?thesis
    using t NextRevisit timely_serve [OF timely_promote linked_distinct] by (simp add: vs_next_def)
next
  case (RecordProbe addr now)
  then show ?thesis using t timely_lookup_place [of now s addr]
    by (auto simp: vs_record_probe_def split: option.split)
next
  case (DeferRevisit addr retry_at now)
  then show ?thesis using t timely_lookup_place [of now s addr]
    by (auto simp: vs_defer_def split: option.split)
next
  case (RecordFailure addr dispatched_at now)
  then show ?thesis using t timely_lookup_place [of now s addr]
    by (auto simp: vs_record_failure_def Let_def split: option.split)
next
  case (IsBackingOff addr now)
  then show ?thesis using t by simp
qed

lemma visits_step_interval: "vs_interval (snd (visits_step s c)) = vs_interval s"
  by (cases c)
    (auto simp: vs_record_def vs_next_def vs_serve_def vs_promote_def vs_record_probe_def vs_defer_def vs_record_failure_def Let_def
      split: option.split list.split)

lemma timely_run:
  assumes "represents r s" and "timely t s" and "sorted (t # map call_time calls @ [now])" and "rv.crun r calls = Some (outs, r')"
  shows "represents r' (snd (rv.arun s calls)) \<and> timely now (snd (rv.arun s calls)) \<and> vs_interval (snd (rv.arun s calls)) = vs_interval s"
  using assms
proof (induction calls arbitrary: r s t outs)
  case Nil
  then show ?case using timely_mono by auto
next
  case (Cons c calls)
  let ?s = "snd (visits_step s c)"
  obtain out r1 outs1 where r1: "reservoir_step r c = Some (out, r1)" "rv.crun r1 calls = Some (outs1, r')"
    using Cons.prems(4) by (auto simp: bind_eq_Some_conv)
  have "represents r1 ?s" using rv.step_sim [OF Cons.prems(1), of c] r1(1) by simp
  moreover have "timely (call_time c) ?s"
    using timely_step [OF Cons.prems(1)] timely_mono [OF Cons.prems(2), of "call_time c"] Cons.prems(3) by simp
  ultimately have "represents r' (snd (rv.arun ?s calls)) \<and> timely now (snd (rv.arun ?s calls)) \<and> vs_interval (snd (rv.arun ?s calls)) = vs_interval ?s"
    using Cons.prems(3) r1(2) by (intro Cons.IH [of r1 ?s "call_time c" outs1]) auto
  then show ?case by (simp add: visits_step_interval case_prod_unfold Let_def)
qed

lemma represents_new: "represents (rv_new capacity ttl interval) (vs_new capacity ttl interval)"
proof -
  have none: "slot_at (replicate n None) i = None" for n i by (simp add: slot_at_def)
  show ?thesis
    by (simp add: represents_def linked_def vs_inv_def indexed_def wired_def rv_new_def vs_new_def contents_def none hwf_def)
qed

lemma timely_new: "timely t (vs_new capacity ttl interval)"
  by (simp add: timely_def vs_new_def)

subsection \<open>Properties\<close>

text \<open>
  C33. The reservoir implements its specification. Whatever calls are made, in whatever order and with
  whatever clock readings, the reservoir with its ring, its index and its linked ready queue never
  panics and answers every call as the specification on plain lists does; in the state it ends in, the
  ready queue reads, through its links, as the list of the specification, and every node is found
  through the index exactly where it is stored.
\<close>

theorem reservoir_refines:
  "ok (rv.crun (rv_new capacity ttl interval) calls)
     (\<lambda>(answers, r). answers = fst (rv.arun (vs_new capacity ttl interval) calls) \<and>
        represents r (snd (rv.arun (vs_new capacity ttl interval) calls)))"
  by (rule rv.run_sim [OF represents_new])

text \<open>
  C34. When a node is visited. After any calls made with a clock that does not go back, a node that
  \<open>next_revisit\<close> hands out is in the reservoir, has not expired, was last probed at least a revisit
  interval ago and is not backing off after a failure.
\<close>

theorem revisit_not_early:
  assumes "rv.crun (rv_new capacity ttl interval) calls = Some (answers, r)" and "sorted (map call_time calls @ [now])"
    and "next_revisit r now = Some (Some node, r')"
  shows "\<exists>i e. hget (rv_index r) (nt_addr node) = Some i \<and> slot_at (rv_slots r) i = Some e \<and> re_node e = node \<and>
    now < re_expires_at e \<and> re_last_probe_at e + interval \<le> now \<and> is_backing_off r (nt_addr node) now = Some False"
proof -
  define s where "s = snd (rv.arun (vs_new capacity ttl interval) calls)"
  have s: "represents r s" "timely now s" "vs_interval s = interval"
    using timely_run [OF represents_new timely_new [of 0] _ assms(1), of now] assms(2) by (simp_all add: s_def vs_new_def)
  have "fst (vs_serve 256 now (vs_promote 256 now s)) = Some node"
    using next_refines [OF s(1), of now] assms(3) by (simp add: vs_next_def)
  then obtain i e where i: "i \<in> set (vs_ready (vs_promote 256 now s))" "slot_at (vs_slots s) i = Some e" "rs_node e = node" "now < rs_expires_at e"
    using vs_serve_node by (fastforce simp: vs_promote_def Let_def)
  obtain e2 where "slot_at (vs_slots (vs_promote 256 now s)) i = Some e2" "eligible (vs_interval (vs_promote 256 now s)) now e2"
    using timely_promote [OF s(2), of 256] i(1) unfolding timely_def by blast
  then have el: "eligible interval now e" using i(2) s(3) by (simp add: vs_promote_def Let_def)
  have ix: "hget (vs_index s) (nt_addr node) = Some i"
    using s(1) indexed_get [of "vs_index s" "vs_slots s" i e] i(2,3) by (simp add: represents_def vs_inv_def)
  have look: "vs_lookup (nt_addr node) s = Some (i, e)" using ix i(2) by (simp add: vs_lookup_def)
  obtain e' where e': "hget (rv_index r) (nt_addr node) = Some i" "slot_at (rv_slots r) i = Some e'" "e = erase e'"
    using look by (cases rule: lookup_cases [OF s(1), of "nt_addr node"]) auto
  have "\<not> vs_backing_off (nt_addr node) now s"
    using el by (auto simp: vs_backing_off_def look eligible_def not_before_block_def split: option.splits)
  then have "is_backing_off r (nt_addr node) now = Some False" by (simp add: backing_off_refines [OF s(1)])
  moreover have "re_last_probe_at e' + interval \<le> now"
    using el e'(3) by (auto simp: eligible_def not_before_block_def erase_def split: option.splits)
  ultimately show ?thesis using e' i(3,4) by (auto simp: erase_def)
qed

definition visited_node :: node_tuple where
  "visited_node = \<lparr> nt_id = replicate 20 7, nt_addr = SockV4 [8, 8, 8, 8] 6881 \<rparr>"

definition visited_calls :: "reservoir_call list" where
  "visited_calls = [Record visited_node 5 0, RecordProbe (nt_addr visited_node) 6]"

definition visited_reservoir :: reservoir where
  "visited_reservoir =
     the (Option.bind (rv_record (rv_new 2 100 3) visited_node 5 0) (\<lambda>r. rv_record_probe r (nt_addr visited_node) 6))"

theorem revisit_not_early_witness:
  "\<exists>i e. hget (rv_index visited_reservoir) (nt_addr visited_node) = Some i \<and> slot_at (rv_slots visited_reservoir) i = Some e \<and>
    re_node e = visited_node \<and> 9 < re_expires_at e \<and> re_last_probe_at e + 3 \<le> 9 \<and>
    is_backing_off visited_reservoir (nt_addr visited_node) 9 = Some False"
proof -
  have "Option.bind (rv_record (rv_new 2 100 3) visited_node 5 0) (\<lambda>r. rv_record_probe r (nt_addr visited_node) 6) = Some visited_reservoir"
    by code_simp
  then have run: "rv.crun (rv_new 2 100 3) visited_calls = Some ([Done, Done], visited_reservoir)"
    by (auto simp: visited_calls_def bind_eq_Some_conv)
  have "map_option fst (next_revisit visited_reservoir 9) = Some (Some visited_node)" by code_simp
  then have "\<exists>r'. next_revisit visited_reservoir 9 = Some (Some visited_node, r')" by auto
  moreover have "sorted (map call_time visited_calls @ [9])" by (simp add: visited_calls_def)
  ultimately show ?thesis using revisit_not_early [OF run] by blast
qed

end
