(* ===== verification/Spec2Isabelle.thy ===== *)
theory Spec2Isabelle
  imports Node_Pool Routing_Snapshot Options Node_Id Bootstrap Krpc Udp_Ingress Hash_Queue Metadata_Scheduler Reservoir
begin

text \<open>
  A verification development for a crawler of the BitTorrent distributed hash table.
\<close>

end
